(* ===== verification/Rhino_Prelude.thy ===== *)
theory Rhino_Prelude
  imports Main "HOL-Library.Word"
begin

text \<open>
  Shared ground of the development: the kernel's status codes and enumerations
  (\<^verbatim>\<open>k_err.h\<close>, \<^verbatim>\<open>k_obj.h\<close>, \<^verbatim>\<open>k_task.h\<close>), the names of the machine types, the
  configuration constants of \<^verbatim>\<open>k_default_config.h\<close> and \<^verbatim>\<open>k_sys.h\<close>, and the generic
  lemmas on lists and words that the component theories use.
\<close>

unbundle bit_operations_syntax

section \<open>Machine types\<close>

type_synonym u8 = "8 word"
type_synonym u16 = "16 word"
type_synonym u32 = "32 word"
type_synonym u64 = "64 word"

text \<open>
  Addresses of kernel objects. A task is named by the address of its control block, a
  blocking object by the address of its \<^verbatim>\<open>blk_obj_t\<close> header (the first member of every
  object, so a cast from the object to its header keeps the address). A pointer argument
  that may be \<^verbatim>\<open>NULL\<close> is an \<open>option\<close>.
\<close>

type_synonym tid = nat
type_synonym oid = nat
type_synonym addr = nat

section \<open>Enumerations\<close>

datatype (plugins only: code size) kstat =
    RHINO_SUCCESS | RHINO_SYS_FATAL_ERR | RHINO_SYS_SP_ERR | RHINO_RUNNING | RHINO_STOPPED
  | RHINO_INV_PARAM | RHINO_NULL_PTR | RHINO_INV_ALIGN | RHINO_KOBJ_TYPE_ERR
  | RHINO_KOBJ_DEL_ERR | RHINO_KOBJ_DOCKER_EXIST | RHINO_KOBJ_BLK | RHINO_KOBJ_SET_FULL
  | RHINO_NOTIFY_FUNC_EXIST
  | RHINO_MM_POOL_SIZE_ERR | RHINO_MM_ALLOC_SIZE_ERR | RHINO_MM_FREE_ADDR_ERR
  | RHINO_MM_CORRUPT_ERR | RHINO_DYN_MEM_PROC_ERR | RHINO_NO_MEM | RHINO_RINGBUF_FULL
  | RHINO_RINGBUF_EMPTY
  | RHINO_SCHED_DISABLE | RHINO_SCHED_ALREADY_ENABLED | RHINO_SCHED_LOCK_COUNT_OVF
  | RHINO_INV_SCHED_WAY
  | RHINO_TASK_INV_STACK_SIZE | RHINO_TASK_NOT_SUSPENDED | RHINO_TASK_DEL_NOT_ALLOWED
  | RHINO_TASK_SUSPEND_NOT_ALLOWED | RHINO_SUSPENDED_COUNT_OVF | RHINO_BEYOND_MAX_PRI
  | RHINO_PRI_CHG_NOT_ALLOWED | RHINO_INV_TASK_STATE | RHINO_IDLE_TASK_EXIST
  | RHINO_NO_PEND_WAIT | RHINO_BLK_ABORT | RHINO_BLK_TIMEOUT | RHINO_BLK_DEL
  | RHINO_BLK_INV_STATE | RHINO_BLK_POOL_SIZE_ERR
  | RHINO_TIMER_STATE_INV | RHINO_NO_THIS_EVENT_OPT
  | RHINO_BUF_QUEUE_INV_SIZE | RHINO_BUF_QUEUE_SIZE_ZERO | RHINO_BUF_QUEUE_FULL
  | RHINO_BUF_QUEUE_MSG_SIZE_OVERFLOW | RHINO_QUEUE_FULL | RHINO_QUEUE_NOT_FULL
  | RHINO_SEM_OVF | RHINO_SEM_TASK_WAITING
  | RHINO_MUTEX_NOT_RELEASED_BY_OWNER | RHINO_MUTEX_OWNER_NESTED | RHINO_MUTEX_NESTED_OVF
  | RHINO_INTRPT_NESTED_LEVEL_OVERFLOW | RHINO_INV_INTRPT_NESTED_LEVEL
  | RHINO_NOT_CALLED_BY_INTRPT | RHINO_TRY_AGAIN
  | RHINO_WORKQUEUE_EXIST | RHINO_WORKQUEUE_NOT_EXIST | RHINO_WORKQUEUE_WORK_EXIST
  | RHINO_WORKQUEUE_BUSY | RHINO_WORKQUEUE_WORK_RUNNING
  | RHINO_TASK_STACK_OVF | RHINO_INTRPT_STACK_OVF

datatype task_stat =
    K_SEED | K_RDY | K_PEND | K_SUSPENDED | K_PEND_SUSPENDED | K_SLEEP
  | K_SLEEP_SUSPENDED | K_DELETED

datatype blk_state = BLK_FINISH | BLK_ABORT | BLK_TIMEOUT | BLK_DEL | BLK_INVALID

datatype blk_policy = BLK_POLICY_PRI | BLK_POLICY_FIFO

datatype kobj_type =
    RHINO_OBJ_TYPE_NONE | RHINO_SEM_OBJ_TYPE | RHINO_MUTEX_OBJ_TYPE | RHINO_QUEUE_OBJ_TYPE
  | RHINO_BUF_QUEUE_OBJ_TYPE | RHINO_TIMER_OBJ_TYPE | RHINO_EVENT_OBJ_TYPE
  | RHINO_MM_BLK_OBJ_TYPE | RHINO_MM_OBJ_TYPE

text \<open>
  A call returns a status, or leaves its caller blocked: the part of the call after
  \<^verbatim>\<open>RHINO_CRITICAL_EXIT_SCHED()\<close> then runs when the caller is scheduled again.
\<close>

datatype outcome = Ret kstat | Blocked

section \<open>Configuration constants\<close>

definition RHINO_CONFIG_PRI_MAX :: nat where
  "RHINO_CONFIG_PRI_MAX = 62"

definition RHINO_IDLE_PRI :: nat where
  "RHINO_IDLE_PRI = RHINO_CONFIG_PRI_MAX - 1"

definition NUM_WORDS :: nat where
  "NUM_WORDS = (RHINO_CONFIG_PRI_MAX + 31) div 32"

definition RHINO_NO_WAIT :: u64 where
  "RHINO_NO_WAIT = 0"

definition RHINO_WAIT_FOREVER :: u64 where
  "RHINO_WAIT_FOREVER = - 1"

definition SCHED_MAX_LOCK_COUNT :: u8 where
  "SCHED_MAX_LOCK_COUNT = 200"

definition RHINO_CONFIG_INTRPT_MAX_NESTED_LEVEL :: u8 where
  "RHINO_CONFIG_INTRPT_MAX_NESTED_LEVEL = 188"

definition RHINO_CONFIG_TIME_SLICE_DEFAULT :: u32 where
  "RHINO_CONFIG_TIME_SLICE_DEFAULT = 50"

definition RHINO_CONFIG_TICKS_PER_SECOND :: nat where
  "RHINO_CONFIG_TICKS_PER_SECOND = 100"

definition K_OBJ_STATIC_ALLOC :: u8 where
  "K_OBJ_STATIC_ALLOC = 1"

definition K_OBJ_DYN_ALLOC :: u8 where
  "K_OBJ_DYN_ALLOC = 2"

definition KSCHED_FIFO :: u8 where
  "KSCHED_FIFO = 0"

definition KSCHED_RR :: u8 where
  "KSCHED_RR = 1"

named_theorems konst "unfolding of the configuration constants"

lemmas [konst] =
  RHINO_CONFIG_PRI_MAX_def RHINO_IDLE_PRI_def NUM_WORDS_def RHINO_NO_WAIT_def
  RHINO_WAIT_FOREVER_def SCHED_MAX_LOCK_COUNT_def RHINO_CONFIG_INTRPT_MAX_NESTED_LEVEL_def
  RHINO_CONFIG_TIME_SLICE_DEFAULT_def RHINO_CONFIG_TICKS_PER_SECOND_def
  K_OBJ_STATIC_ALLOC_def K_OBJ_DYN_ALLOC_def KSCHED_FIFO_def KSCHED_RR_def

lemma idle_pri_less [simp]: "RHINO_IDLE_PRI < RHINO_CONFIG_PRI_MAX"
  by (simp add: konst)

section \<open>Lists\<close>

lemma remove1_split:
  "distinct (xs @ x # ys) \<Longrightarrow> remove1 x (xs @ x # ys) = xs @ ys"
  by (simp add: remove1_append)

lemma length_1_iff: "length xs = 1 \<longleftrightarrow> (\<exists>x. xs = [x])"
  by (cases xs) auto

text \<open>Insertion in front of the first element that satisfies \<open>P\<close>, at the end if there is
  none: what the ordered-insertion loops of the kernel do to a list.\<close>

definition insert_before :: "('a \<Rightarrow> bool) \<Rightarrow> 'a \<Rightarrow> 'a list \<Rightarrow> 'a list" where
  "insert_before P e xs = takeWhile (\<lambda>x. \<not> P x) xs @ e # dropWhile (\<lambda>x. \<not> P x) xs"

lemma insert_before_Nil [simp]: "insert_before P e [] = [e]"
  by (simp add: insert_before_def)

lemma insert_before_Cons [simp]:
  "insert_before P e (x # xs) = (if P x then e # x # xs else x # insert_before P e xs)"
  by (simp add: insert_before_def)

lemma set_insert_before [simp]: "set (insert_before P e xs) = insert e (set xs)"
  by (induction xs) auto

lemma distinct_insert_before [simp]:
  "distinct (insert_before P e xs) \<longleftrightarrow> distinct xs \<and> e \<notin> set xs"
  by (induction xs) auto

lemma insert_before_not_Nil [simp]: "insert_before P e xs \<noteq> []"
  by (simp add: insert_before_def)

text \<open>With the break condition "greater key", the loop keeps a list sorted by the key.\<close>

lemma sorted_insert_before:
  assumes "sorted (map f xs)"
  shows "sorted (map f (insert_before (\<lambda>x. f x > f e) e xs))"
  using assms by (induction xs) auto

lemma remove1_insert_before:
  "e \<notin> set xs \<Longrightarrow> remove1 e (insert_before P e xs) = xs"
  by (induction xs) auto

section \<open>Words\<close>

lemma unat_one_less:
  fixes x :: "'a::len word"
  assumes "unat x = Suc n"
  shows "unat (x - 1) = n"
  using assms by (simp add: unat_sub_if')

end
