(* ===== verification/Rhino_KList.thy ===== *)
theory Rhino_KList
  imports Rhino_Prelude
begin

text \<open>
  The intrusive doubly linked lists of \<^verbatim>\<open>k_list.h\<close>. The two link fields of every node are
  two maps of a heap, and each operation assigns them in the source's order. The kernel
  theories use plain lists for the ready, pending, tick and timer lists; \<open>is_klist\<close> says
  when a heap holds such a list behind a head node, and the theorems say that every
  operation of \<^verbatim>\<open>k_list.h\<close> is the list operation the kernel theories use for it.
\<close>

record klist_heap =
  next_of :: "addr \<Rightarrow> addr"
  prev_of :: "addr \<Rightarrow> addr"

section \<open>Operations\<close>

definition set_next :: "addr \<Rightarrow> addr \<Rightarrow> klist_heap \<Rightarrow> klist_heap" where
  "set_next a b h = h\<lparr>next_of := (next_of h)(a := b)\<rparr>"

definition set_prev :: "addr \<Rightarrow> addr \<Rightarrow> klist_heap \<Rightarrow> klist_heap" where
  "set_prev a b h = h\<lparr>prev_of := (prev_of h)(a := b)\<rparr>"

definition klist_init :: "addr \<Rightarrow> klist_heap \<Rightarrow> klist_heap" where
  "klist_init list_head h = set_prev list_head list_head (set_next list_head list_head h)"

definition is_klist_empty :: "addr \<Rightarrow> klist_heap \<Rightarrow> bool" where
  "is_klist_empty list h \<longleftrightarrow> next_of h list = list"

definition klist_insert :: "addr \<Rightarrow> addr \<Rightarrow> klist_heap \<Rightarrow> klist_heap" where
  "klist_insert head element h =
     (let h1 = set_prev element (prev_of h head) h;
          h2 = set_next element head h1;
          h3 = set_next (prev_of h2 head) element h2
      in set_prev head element h3)"

definition klist_add :: "addr \<Rightarrow> addr \<Rightarrow> klist_heap \<Rightarrow> klist_heap" where
  "klist_add head element h =
     (let h1 = set_prev element head h;
          h2 = set_next element (next_of h1 head) h1;
          h3 = set_prev (next_of h2 head) element h2
      in set_next head element h3)"

definition klist_rm :: "addr \<Rightarrow> klist_heap \<Rightarrow> klist_heap" where
  "klist_rm element h =
     (let h1 = set_next (prev_of h element) (next_of h element) h
      in set_prev (next_of h1 element) (prev_of h1 element) h1)"

definition klist_rm_init :: "addr \<Rightarrow> klist_heap \<Rightarrow> klist_heap" where
  "klist_rm_init element h =
     (let h1 = set_next (prev_of h element) (next_of h element) h;
          h2 = set_prev (next_of h1 element) (prev_of h1 element) h1;
          h3 = set_prev element element h2
      in set_next element (prev_of h3 element) h3)"

lemmas klist_defs =
  klist_init_def klist_insert_def klist_add_def klist_rm_def klist_rm_init_def
  set_next_def set_prev_def

section \<open>Lists in the heap\<close>

fun path :: "klist_heap \<Rightarrow> addr \<Rightarrow> addr list \<Rightarrow> addr \<Rightarrow> bool" where
  "path h a [] b \<longleftrightarrow> next_of h a = b \<and> prev_of h b = a"
| "path h a (x # xs) b \<longleftrightarrow> next_of h a = x \<and> prev_of h x = a \<and> path h x xs b"

definition is_klist :: "klist_heap \<Rightarrow> addr \<Rightarrow> addr list \<Rightarrow> bool" where
  "is_klist h c0 xs \<longleftrightarrow> distinct (c0 # xs) \<and> path h c0 xs c0"

lemma path_append:
  "path h a (xs @ x # ys) b \<longleftrightarrow> path h a xs x \<and> path h x ys b"
  by (induction xs arbitrary: a) auto

text \<open>The links a path reads: the forward links of its first nodes, the backward links of
  its last ones. Two heaps that agree on them hold the same path.\<close>

lemma path_cong:
  assumes "\<And>c. c = a \<or> c \<in> set xs \<Longrightarrow> next_of h' c = next_of h c"
    and "\<And>c. c = b \<or> c \<in> set xs \<Longrightarrow> prev_of h' c = prev_of h c"
  shows "path h' a xs b = path h a xs b"
  using assms by (induction xs arbitrary: a) auto

lemma path_snoc: "path h a (xs @ [x]) b \<longleftrightarrow> path h a xs x \<and> next_of h x = b \<and> prev_of h b = x"
  by (simp add: path_append)

text \<open>The last forward link and the last backward link of a path.\<close>

lemma path_last:
  "path h a xs b \<Longrightarrow> prev_of h b = last (a # xs) \<and> next_of h (last (a # xs)) = b"
  by (induction xs arbitrary: a) auto

lemma path_last_redirect:
  assumes "path h a xs b" and "distinct (a # xs)" and "e \<notin> set xs" and "b \<notin> set xs"
    and "\<And>c. c \<in> set (butlast (a # xs)) \<Longrightarrow> next_of h' c = next_of h c"
    and "\<And>c. c \<in> set xs \<Longrightarrow> prev_of h' c = prev_of h c"
    and "next_of h' (last (a # xs)) = e" and "prev_of h' e = last (a # xs)"
  shows "path h' a xs e"
  using assms
proof (induction xs arbitrary: a)
  case (Cons x xs)
  have "next_of h' a = x" using Cons.prems(1,5) by auto
  moreover have "prev_of h' x = a" using Cons.prems(1,6) by auto
  moreover have "path h' x xs e" using Cons.prems by (intro Cons.IH) auto
  ultimately show ?case by simp
qed simp

section \<open>What the operations do to the list\<close>

lemma is_klist_init: "is_klist (klist_init c0 h) c0 []"
  by (simp add: is_klist_def klist_defs)

lemma is_klist_empty_iff: "is_klist h c0 xs \<Longrightarrow> is_klist_empty c0 h \<longleftrightarrow> xs = []"
  by (cases xs) (auto simp: is_klist_def is_klist_empty_def)

text \<open>
  Insertion before a node \<open>y\<close> that splits the list in two: \<open>y\<close> is the first node of \<open>ys\<close>,
  or the head when \<open>ys\<close> is empty (insertion at the end).
\<close>

lemma klist_insert_before:
  assumes l: "is_klist h c0 (xs @ ys)" and e: "e \<notin> set (c0 # xs @ ys)"
    and y: "y = (case ys of [] \<Rightarrow> c0 | z # _ \<Rightarrow> z)"
  shows "is_klist (klist_insert y e h) c0 (xs @ e # ys)"
proof -
  let ?h = "klist_insert y e h"
  let ?p = "last (c0 # xs)"
  from l have d: "distinct (c0 # xs @ ys)" and p: "path h c0 (xs @ ys) c0"
    by (auto simp: is_klist_def)
  from p y have px: "path h c0 xs y" by (cases ys) (auto simp: path_append)
  then have prev_y: "prev_of h y = ?p" using path_last by metis
  have pin: "?p \<in> set (c0 # xs)" by (rule last_in_set) simp
  have y_in: "y = c0 \<or> y \<in> set ys" using y by (cases ys) auto
  have y_xs: "y \<notin> set xs" using y_in d by auto
  have ne: "e \<noteq> y" "e \<noteq> ?p" using e y_in pin by auto
  have nx: "next_of ?h = (next_of h)(e := y, ?p := e)"
    using ne by (simp add: klist_insert_def set_next_def set_prev_def prev_y Let_def)
  have pv: "prev_of ?h = (prev_of h)(e := ?p, y := e)"
    using ne by (simp add: klist_insert_def set_next_def set_prev_def prev_y Let_def)
  have "path ?h c0 xs e"
  proof (rule path_last_redirect [OF px])
    fix c assume c: "c \<in> set (butlast (c0 # xs))"
    have "distinct (butlast (c0 # xs) @ [?p])"
      using d by (subst append_butlast_last_id) auto
    then have "c \<noteq> ?p" using c by auto
    moreover have "c \<noteq> e" using c e by (auto dest: in_set_butlastD split: if_splits)
    ultimately show "next_of ?h c = next_of h c" by (simp add: nx)
  qed (use d e y_xs ne in \<open>auto simp: nx pv\<close>)
  moreover have "path ?h e ys c0"
  proof (cases ys)
    case Nil
    have "next_of ?h e = y" "prev_of ?h y = e" using ne by (simp_all add: nx pv)
    with Nil y show ?thesis by simp
  next
    case (Cons z zs)
    with y have z: "y = z" by simp
    have "path h z zs c0" using p Cons by (simp add: path_append)
    moreover have "path ?h z zs c0 = path h z zs c0"
    proof (rule path_cong)
      fix c assume "c = z \<or> c \<in> set zs"
      then have "c \<noteq> e" "c \<noteq> ?p" using d e pin Cons by auto
      then show "next_of ?h c = next_of h c" by (simp add: nx)
    next
      fix c assume "c = c0 \<or> c \<in> set zs"
      then have "c \<noteq> e" "c \<noteq> y" using d e Cons z by auto
      then show "prev_of ?h c = prev_of h c" by (simp add: pv)
    qed
    moreover have "next_of ?h e = y" "prev_of ?h y = e" using ne by (simp_all add: nx pv)
    ultimately show ?thesis using Cons z by simp
  qed
  ultimately show ?thesis using d e by (simp add: is_klist_def path_append)
qed

lemma klist_add_front:
  assumes l: "is_klist h c0 xs" and e: "e \<notin> set (c0 # xs)"
  shows "is_klist (klist_add c0 e h) c0 (e # xs)"
proof -
  have "klist_add c0 e h = klist_insert (case xs of [] \<Rightarrow> c0 | z # _ \<Rightarrow> z) e h"
    using l e by (cases xs) (auto simp: is_klist_def klist_defs Let_def fun_upd_twist)
  then show ?thesis using klist_insert_before [of h c0 "[]" xs e] l e by simp
qed

lemma klist_rm_from:
  assumes l: "is_klist h c0 (xs @ e # ys)"
  shows "is_klist (klist_rm e h) c0 (xs @ ys)"
proof -
  let ?h = "klist_rm e h"
  let ?p = "last (c0 # xs)" and ?n = "case ys of [] \<Rightarrow> c0 | z # _ \<Rightarrow> z"
  from l have d: "distinct (c0 # xs @ e # ys)" and px: "path h c0 xs e" and pe: "path h e ys c0"
    by (auto simp: is_klist_def path_append)
  from px have prev_e: "prev_of h e = ?p" using path_last by metis
  from pe have next_e: "next_of h e = ?n" by (cases ys) auto
  have pin: "?p \<in> set (c0 # xs)" by (rule last_in_set) simp
  then have pe_ne: "?p \<noteq> e" using d by auto
  have nx: "next_of ?h = (next_of h)(?p := ?n)"
    using pe_ne by (simp add: klist_rm_def set_next_def set_prev_def prev_e next_e Let_def)
  have pv: "prev_of ?h = (prev_of h)(?n := ?p)"
    using pe_ne by (simp add: klist_rm_def set_next_def set_prev_def prev_e next_e Let_def)
  have nn: "?n = c0 \<or> ?n \<in> set ys" by (cases ys) auto
  have left: "path ?h c0 xs ?n"
  proof (rule path_last_redirect [OF px])
    fix c assume c: "c \<in> set (butlast (c0 # xs))"
    have "distinct (butlast (c0 # xs) @ [?p])"
      using d by (subst append_butlast_last_id) auto
    then have "c \<noteq> ?p" using c by auto
    then show "next_of ?h c = next_of h c" by (simp add: nx)
  next
    fix c assume "c \<in> set xs"
    then have "c \<noteq> ?n" using nn d by auto
    then show "prev_of ?h c = prev_of h c" by (simp add: pv)
  qed (use d nn in \<open>auto simp: nx pv\<close>)
  show ?thesis
  proof (cases ys)
    case Nil
    with left d show ?thesis by (simp add: is_klist_def)
  next
    case (Cons z zs)
    have "path ?h z zs c0 = path h z zs c0"
    proof (rule path_cong)
      fix c assume "c = z \<or> c \<in> set zs"
      then have "c \<noteq> ?p" using d pin Cons by auto
      then show "next_of ?h c = next_of h c" by (simp add: nx)
    next
      fix c assume "c = c0 \<or> c \<in> set zs"
      then have "c \<noteq> ?n" using d Cons by auto
      then show "prev_of ?h c = prev_of h c" by (simp add: pv)
    qed
    with left pe Cons d show ?thesis by (simp add: is_klist_def path_append)
  qed
qed

text \<open>A list without a head node, as the ready lists are: any node can serve as the head,
  and moving the entry pointer one node on rotates the list.\<close>

lemma is_klist_rotate: "is_klist h x (y # ys) \<Longrightarrow> is_klist h y (ys @ [x])"
  by (auto simp: is_klist_def path_append)

text \<open>\<^verbatim>\<open>klist_rm_init\<close> also leaves the removed node as an empty list of its own.\<close>

lemma klist_rm_init_from:
  assumes l: "is_klist h c0 (xs @ e # ys)"
  shows "is_klist (klist_rm_init e h) c0 (xs @ ys)" and "is_klist (klist_rm_init e h) e []"
proof -
  have eq: "klist_rm_init e h = set_next e e (set_prev e e (klist_rm e h))"
    by (simp add: klist_rm_init_def klist_rm_def set_next_def set_prev_def Let_def)
  from l have e: "e \<notin> set (c0 # xs @ ys)" by (auto simp: is_klist_def)
  then have "path (klist_rm_init e h) c0 (xs @ ys) c0 = path (klist_rm e h) c0 (xs @ ys) c0"
    by (intro path_cong) (auto simp: eq set_next_def set_prev_def)
  with klist_rm_from [OF l] show "is_klist (klist_rm_init e h) c0 (xs @ ys)"
    by (simp add: is_klist_def)
  show "is_klist (klist_rm_init e h) e []"
    by (simp add: eq is_klist_def set_next_def set_prev_def)
qed

section \<open>Ordered insertion\<close>

text \<open>
  The loop the kernel uses three times (\<^verbatim>\<open>pend_list_add\<close>, \<^verbatim>\<open>tick_list_pri_insert\<close>,
  \<^verbatim>\<open>timer_list_pri_insert\<close>): walk from the first node to the first one that satisfies the
  break condition \<open>P\<close>, or back to the head, and insert before it. On a corrupted list the
  walk need not come back to the head, so it is a partial function: \<open>None\<close> is a walk that
  does not end.
\<close>

partial_function (option) klist_scan :: "(addr \<Rightarrow> bool) \<Rightarrow> addr \<Rightarrow> klist_heap \<Rightarrow> addr \<Rightarrow> addr option" where
  "klist_scan P c0 h tmp =
     (if tmp = c0 then Some tmp
      else if P tmp then Some tmp
      else klist_scan P c0 h (next_of h tmp))"

definition klist_ordered_insert ::
  "(addr \<Rightarrow> bool) \<Rightarrow> addr \<Rightarrow> addr \<Rightarrow> klist_heap \<Rightarrow> klist_heap option" where
  "klist_ordered_insert P c0 e h =
     (case klist_scan P c0 h (next_of h c0) of
        None \<Rightarrow> None
      | Some tmp \<Rightarrow> Some (klist_insert tmp e h))"

lemma klist_scan_path:
  assumes "path h a xs c0" and "distinct (c0 # xs)"
  shows "klist_scan P c0 h (next_of h a) =
    Some (case dropWhile (\<lambda>x. \<not> P x) xs of [] \<Rightarrow> c0 | z # _ \<Rightarrow> z)"
  using assms
proof (induction xs arbitrary: a)
  case Nil
  then show ?case by (simp add: klist_scan.simps)
next
  case (Cons x xs)
  then have IH: "klist_scan P c0 h (next_of h x) =
    Some (case dropWhile (\<lambda>x. \<not> P x) xs of [] \<Rightarrow> c0 | z # _ \<Rightarrow> z)" by simp
  from Cons.prems have "next_of h a = x" "x \<noteq> c0" by auto
  then show ?case by (subst klist_scan.simps) (simp add: IH)
qed

text \<open>
  C30. On every well-formed list the ordered insertion loop ends and links the new node in
  front of the first node that satisfies the break condition, keeping the order of all the
  other nodes; the heap afterwards holds the list \<open>insert_before P e xs\<close> that the kernel
  theories use for it.
\<close>

theorem klist_ordered_insert_correct:
  assumes l: "is_klist h c0 xs" and e: "e \<notin> set (c0 # xs)"
  shows "\<exists>h'. klist_ordered_insert P c0 e h = Some h' \<and> is_klist h' c0 (insert_before P e xs)"
proof -
  let ?t = "takeWhile (\<lambda>x. \<not> P x) xs" and ?d = "dropWhile (\<lambda>x. \<not> P x) xs"
  let ?y = "case ?d of [] \<Rightarrow> c0 | z # _ \<Rightarrow> z"
  have scan: "klist_scan P c0 h (next_of h c0) = Some ?y"
    using l klist_scan_path [of h c0 xs c0 P] by (simp add: is_klist_def)
  have "is_klist (klist_insert ?y e h) c0 (?t @ e # ?d)"
    using l e by (intro klist_insert_before) (simp_all add: takeWhile_dropWhile_id)
  with scan show ?thesis by (simp add: klist_ordered_insert_def insert_before_def)
qed

definition ex_heap :: klist_heap where
  "ex_heap = klist_insert 0 2 (klist_insert 0 1 (klist_init 0
     \<lparr>next_of = (\<lambda>a. a), prev_of = (\<lambda>a. a)\<rparr>))"

lemma klist_ordered_insert_correct_witness:
  "\<exists>h'. klist_ordered_insert (\<lambda>x. x = 2) 0 5 ex_heap = Some h' \<and> is_klist h' 0 [1, 5, 2]"
proof -
  have l: "is_klist ex_heap 0 [1, 2]"
    by (simp add: ex_heap_def is_klist_def klist_defs Let_def)
  have e: "5 \<notin> set (0 # [1, 2::nat])" by simp
  have "insert_before (\<lambda>x. x = 2) 5 [1, 2::nat] = [1, 5, 2]" by (simp add: insert_before_def)
  with klist_ordered_insert_correct [OF l e, of "\<lambda>x. x = 2"] show ?thesis by simp
qed

end
