(* ===== verification/Rhino_Ringbuf.thy ===== *)
theory Rhino_Ringbuf
  imports Rhino_Prelude
begin

text \<open>
  The byte ring buffer of \<^verbatim>\<open>k_ringbuf.c\<close>, which carries the message queues and the buffer
  queues. The memory between \<^verbatim>\<open>buf\<close> and \<^verbatim>\<open>end\<close> is a list of bytes and the pointers
  \<^verbatim>\<open>head\<close> and \<^verbatim>\<open>tail\<close> are offsets from \<^verbatim>\<open>buf\<close>, both between 0 and the size of the
  memory: the source wraps a pointer that has reached \<^verbatim>\<open>end\<close> only when it next uses it.
  Fixed-size buffers hold blocks of \<^verbatim>\<open>blk_size\<close> bytes; dynamic ones put a length header of
  one to three bytes in front of every message.
\<close>

section \<open>State\<close>

record k_ringbuf =
  rb_mem :: "u8 list"
  rb_head :: nat
  rb_tail :: nat
  freesize :: nat
  rb_type :: nat
  blk_size :: nat

definition RINGBUF_TYPE_FIX :: nat where
  "RINGBUF_TYPE_FIX = 0"

definition RINGBUF_TYPE_DYN :: nat where
  "RINGBUF_TYPE_DYN = 1"

definition RINGBUF_LEN_MAX_SIZE :: nat where
  "RINGBUF_LEN_MAX_SIZE = 3"

definition RINGBUF_LEN_1BYTE_MAXVALUE :: nat where
  "RINGBUF_LEN_1BYTE_MAXVALUE = 0x7f"

definition RINGBUF_LEN_2BYTES_MAXVALUE :: nat where
  "RINGBUF_LEN_2BYTES_MAXVALUE = 0x3fff"

definition RINGBUF_LEN_3BYTES_MAXVALUE :: nat where
  "RINGBUF_LEN_3BYTES_MAXVALUE = 0x3fffff"

lemmas rb_konst = RINGBUF_TYPE_FIX_def RINGBUF_TYPE_DYN_def RINGBUF_LEN_MAX_SIZE_def
  RINGBUF_LEN_1BYTE_MAXVALUE_def RINGBUF_LEN_2BYTES_MAXVALUE_def RINGBUF_LEN_3BYTES_MAXVALUE_def

text \<open>The offset of \<^verbatim>\<open>end\<close>.\<close>

abbreviation rb_end :: "k_ringbuf \<Rightarrow> nat" where
  "rb_end r \<equiv> length (rb_mem r)"

text \<open>
  \<^verbatim>\<open>memcpy\<close> into and out of the buffer memory. A copy that would leave the memory makes the
  list longer than the buffer (or the result shorter than asked for), which the invariant
  below excludes.
\<close>

definition mem_write :: "nat \<Rightarrow> 'a list \<Rightarrow> 'a list \<Rightarrow> 'a list" where
  "mem_write off bs mem = take off mem @ bs @ drop (off + length bs) mem"

definition mem_read :: "nat \<Rightarrow> nat \<Rightarrow> 'a list \<Rightarrow> 'a list" where
  "mem_read off n mem = take n (drop off mem)"

section \<open>The length header\<close>

definition krhino_ntohl :: "u32 \<Rightarrow> u32" where
  "krhino_ntohl x = push_bit 24 (x AND 0x000000ff) OR push_bit 8 (x AND 0x0000ff00) OR
     drop_bit 8 (x AND 0x00ff0000) OR drop_bit 24 (x AND 0xff000000)"

text \<open>The bytes of a word as a little-endian memory holds them, and back.\<close>

definition le_byte :: "nat \<Rightarrow> u32 \<Rightarrow> u8" where
  "le_byte i w = ucast (drop_bit (8 * i) w)"

definition of_le_bytes :: "u8 list \<Rightarrow> u32" where
  "of_le_bytes bs = ucast (bs ! 0) OR push_bit 8 (ucast (bs ! 1)) OR
     push_bit 16 (ucast (bs ! 2)) OR push_bit 24 (ucast (bs ! 3))"

text \<open>The last alternative is the number of the status code \<^verbatim>\<open>RHINO_INV_PARAM\<close>.\<close>

definition COMPRESS_LEN :: "nat \<Rightarrow> nat" where
  "COMPRESS_LEN x =
     (if x \<le> RINGBUF_LEN_1BYTE_MAXVALUE then 1
      else if x \<le> RINGBUF_LEN_2BYTES_MAXVALUE then 2
      else if x \<le> RINGBUF_LEN_3BYTES_MAXVALUE then 3
      else 5)"

definition ringbuf_headlen_compress :: "nat \<Rightarrow> nat \<times> u8 list" where
  "ringbuf_headlen_compress head_len =
     (let be_len = krhino_ntohl (word_of_nat head_len);
          p_len = (\<lambda>i. le_byte i be_len);
          len_bytes = COMPRESS_LEN head_len;
          cmp_buf = [0, 0, 0]
      in (len_bytes,
          if len_bytes = 1 then cmp_buf[0 := 0x7f AND p_len 3]
          else if len_bytes = 2 then cmp_buf[0 := 0x80 OR p_len 2, 1 := p_len 3]
          else if len_bytes = 3 then cmp_buf[0 := 0xC0 OR p_len 1, 1 := p_len 2, 2 := p_len 3]
          else cmp_buf))"

definition ringbuf_headlen_decompress :: "nat \<Rightarrow> u8 list \<Rightarrow> nat" where
  "ringbuf_headlen_decompress buf_len cmp_buf =
     (let len_buf = mem_write (4 - buf_len) (take buf_len cmp_buf) [0, 0, 0, 0];
          len_buf = (if buf_len > 1
            then len_buf[4 - buf_len := len_buf ! (4 - buf_len) AND 0x3f] else len_buf)
      in unat (krhino_ntohl (of_le_bytes len_buf)))"

section \<open>Operations\<close>

definition ringbuf_reset :: "k_ringbuf \<Rightarrow> kstat \<times> k_ringbuf" where
  "ringbuf_reset r = (RHINO_SUCCESS, r\<lparr>rb_head := 0, rb_tail := 0, freesize := rb_end r\<rparr>)"

definition ringbuf_init :: "u8 list \<Rightarrow> nat \<Rightarrow> nat \<Rightarrow> kstat \<times> k_ringbuf" where
  "ringbuf_init buf type block_size =
     (RHINO_SUCCESS,
      snd (ringbuf_reset \<lparr>rb_mem = buf, rb_head = 0, rb_tail = 0, freesize = 0,
        rb_type = type, blk_size = block_size\<rparr>))"

definition ringbuf_is_full :: "k_ringbuf \<Rightarrow> bool" where
  "ringbuf_is_full r \<longleftrightarrow>
     rb_type r = RINGBUF_TYPE_DYN \<and> freesize r < 2 \<or>
     rb_type r = RINGBUF_TYPE_FIX \<and> freesize r < blk_size r"

definition ringbuf_is_empty :: "k_ringbuf \<Rightarrow> bool" where
  "ringbuf_is_empty r \<longleftrightarrow> freesize r = rb_end r"

text \<open>
  The steps the operations are made of: wrap a pointer that stands at \<^verbatim>\<open>end\<close>; copy bytes to
  the tail (\<open>rb_put\<close>), in front of the head (\<open>rb_put_front\<close>) or from the head (\<open>rb_get\<close>),
  with the accompanying updates of the pointer and of \<^verbatim>\<open>freesize\<close>.
\<close>

definition rb_wrap_tail :: "k_ringbuf \<Rightarrow> k_ringbuf" where
  "rb_wrap_tail r = (if rb_tail r = rb_end r then r\<lparr>rb_tail := 0\<rparr> else r)"

definition rb_wrap_head :: "k_ringbuf \<Rightarrow> k_ringbuf" where
  "rb_wrap_head r = (if rb_head r = rb_end r then r\<lparr>rb_head := 0\<rparr> else r)"

definition rb_unwrap_head :: "k_ringbuf \<Rightarrow> k_ringbuf" where
  "rb_unwrap_head r = (if rb_head r = 0 then r\<lparr>rb_head := rb_end r\<rparr> else r)"

definition rb_put :: "u8 list \<Rightarrow> k_ringbuf \<Rightarrow> k_ringbuf" where
  "rb_put bs r = r\<lparr>rb_mem := mem_write (rb_tail r) bs (rb_mem r),
     rb_tail := rb_tail r + length bs, freesize := freesize r - length bs\<rparr>"

definition rb_put_front :: "u8 list \<Rightarrow> k_ringbuf \<Rightarrow> k_ringbuf" where
  "rb_put_front bs r = r\<lparr>rb_mem := mem_write (rb_head r - length bs) bs (rb_mem r),
     rb_head := rb_head r - length bs, freesize := freesize r - length bs\<rparr>"

definition rb_get :: "nat \<Rightarrow> k_ringbuf \<Rightarrow> u8 list \<times> k_ringbuf" where
  "rb_get n r = (mem_read (rb_head r) n (rb_mem r),
     r\<lparr>rb_head := rb_head r + n, freesize := freesize r + n\<rparr>)"

text \<open>
  One copy to the tail as \<^verbatim>\<open>ringbuf_push\<close> writes it, for the header and then for the data:
  when the bytes do not fit between the tail and \<^verbatim>\<open>end\<close>, a first part fills the memory up
  to \<^verbatim>\<open>end\<close> and the rest starts at \<^verbatim>\<open>buf\<close>.
\<close>

definition rb_put_split :: "u8 list \<Rightarrow> k_ringbuf \<Rightarrow> k_ringbuf" where
  "rb_put_split bs r =
     (let split_len = rb_end r - rb_tail r
      in if rb_tail r \<ge> rb_head r \<and> split_len < length bs \<and> split_len > 0
         then rb_put (drop split_len bs) ((rb_put (take split_len bs) r)\<lparr>rb_tail := 0\<rparr>)
         else rb_put bs r)"

definition ringbuf_push :: "k_ringbuf \<Rightarrow> u8 list \<Rightarrow> nat \<Rightarrow> kstat \<times> k_ringbuf" where
  "ringbuf_push r data len =
     (if ringbuf_is_full r then (RHINO_RINGBUF_FULL, r)
      else if rb_type r = RINGBUF_TYPE_FIX then
        (RHINO_SUCCESS, rb_put (take (blk_size r) data) (rb_wrap_tail r))
      else
        let (len_bytes, c_len) = ringbuf_headlen_compress len
        in if len_bytes = 0 \<or> len_bytes > RINGBUF_LEN_MAX_SIZE then (RHINO_INV_PARAM, r)
           else if freesize r < len_bytes + len then (RHINO_RINGBUF_FULL, r)
           else
             let r1 = rb_put_split (take len_bytes c_len) (rb_wrap_tail r);
                 r2 = rb_put_split (take len data) (rb_wrap_tail r1)
             in (RHINO_SUCCESS, r2))"

text \<open>
  One copy in front of the head as \<^verbatim>\<open>ringbuf_head_push\<close> writes it. The two calls differ in
  which end of the source goes to the start of the memory when the copy is split: for the
  data, the \<^emph>\<open>first\<close> \<^verbatim>\<open>split_len\<close> bytes (\<^verbatim>\<open>memcpy(p_ringbuf->buf, data, split_len)\<close>); for
  the header, the last ones (\<^verbatim>\<open>&c_len[len_bytes - split_len]\<close>).
\<close>

definition rb_put_front_data :: "u8 list \<Rightarrow> k_ringbuf \<Rightarrow> k_ringbuf" where
  "rb_put_front_data bs r =
     (let split_len = rb_head r
      in if rb_head r \<le> rb_tail r \<and> split_len < length bs \<and> split_len > 0
         then rb_put_front (drop split_len bs)
           ((rb_put_front (take split_len bs) r)\<lparr>rb_head := rb_end r\<rparr>)
         else rb_put_front bs r)"

definition rb_put_front_hdr :: "u8 list \<Rightarrow> k_ringbuf \<Rightarrow> k_ringbuf" where
  "rb_put_front_hdr bs r =
     (let split_len = rb_head r
      in if rb_head r \<le> rb_tail r \<and> split_len < length bs \<and> split_len > 0
         then rb_put_front (take (length bs - split_len) bs)
           ((rb_put_front (drop (length bs - split_len) bs) r)\<lparr>rb_head := rb_end r\<rparr>)
         else rb_put_front bs r)"

definition ringbuf_head_push :: "k_ringbuf \<Rightarrow> u8 list \<Rightarrow> nat \<Rightarrow> kstat \<times> k_ringbuf" where
  "ringbuf_head_push r data len =
     (if ringbuf_is_full r then (RHINO_RINGBUF_FULL, r)
      else if rb_type r = RINGBUF_TYPE_FIX then
        (RHINO_SUCCESS, rb_put_front (take len data) (rb_unwrap_head r))
      else
        let (len_bytes, c_len) = ringbuf_headlen_compress len
        in if len_bytes = 0 \<or> len_bytes > RINGBUF_LEN_MAX_SIZE then (RHINO_INV_PARAM, r)
           else if freesize r < len_bytes + len then (RHINO_RINGBUF_FULL, r)
           else
             let r1 = rb_put_front_data (take len data) (rb_unwrap_head r);
                 r2 = rb_put_front_hdr (take len_bytes c_len) (rb_unwrap_head r1)
             in (RHINO_SUCCESS, r2))"

text \<open>
  The two reads of \<^verbatim>\<open>ringbuf_pop\<close>: the header splits whenever it does not fit before
  \<^verbatim>\<open>end\<close>, the data only when the head is also beyond the tail.
\<close>

definition rb_get_hdr :: "nat \<Rightarrow> k_ringbuf \<Rightarrow> u8 list \<times> k_ringbuf" where
  "rb_get_hdr n r =
     (let split_len = rb_end r - rb_head r
      in if split_len < n \<and> split_len > 0
         then let (a, r1) = rb_get split_len r; (b, r2) = rb_get (n - split_len) (r1\<lparr>rb_head := 0\<rparr>)
              in (a @ b, r2)
         else rb_get n r)"

definition rb_get_data :: "nat \<Rightarrow> k_ringbuf \<Rightarrow> u8 list \<times> k_ringbuf" where
  "rb_get_data n r =
     (let split_len = rb_end r - rb_head r
      in if rb_head r > rb_tail r \<and> split_len < n
         then let (a, r1) = rb_get split_len r; (b, r2) = rb_get (n - split_len) (r1\<lparr>rb_head := 0\<rparr>)
              in (a @ b, r2)
         else rb_get n r)"

text \<open>The result carries the bytes copied to \<^verbatim>\<open>pdata\<close> and the value stored to \<^verbatim>\<open>*plen\<close>.\<close>

definition ringbuf_pop :: "k_ringbuf \<Rightarrow> kstat \<times> u8 list \<times> nat \<times> k_ringbuf" where
  "ringbuf_pop r =
     (if ringbuf_is_empty r then (RHINO_RINGBUF_EMPTY, [], 0, r)
      else
        let r1 = rb_wrap_head r
        in if rb_type r = RINGBUF_TYPE_FIX then
             let (d, r2) = rb_get (blk_size r1) r1 in (RHINO_SUCCESS, d, blk_size r1, r2)
           else
             let b = rb_mem r1 ! rb_head r1;
                 len_bytes =
                   (if b AND 0x80 = 0 then 1
                    else if b AND 0xC0 = 0x80 then 2
                    else if b AND 0xC0 = 0xC0 then 3
                    else 0)
             in if len_bytes = 0 then (RHINO_INV_PARAM, [], 0, r1)
                else
                  let (c_len, r2) = rb_get_hdr len_bytes r1;
                      len = ringbuf_headlen_decompress len_bytes c_len;
                      (d, r3) = rb_get_data len (rb_wrap_head r2)
                  in (RHINO_SUCCESS, d, len, r3))"

text \<open>The public functions: argument checks around the operations above. The buffer pointer
  is an option; the memory handed to \<^verbatim>\<open>krhino_ringbuf_init\<close> is its list of bytes.\<close>

definition krhino_ringbuf_reset :: "k_ringbuf option \<Rightarrow> kstat \<times> k_ringbuf option" where
  "krhino_ringbuf_reset p =
     (case p of None \<Rightarrow> (RHINO_NULL_PTR, p)
      | Some r \<Rightarrow> (let (err, r') = ringbuf_reset r in (err, Some r')))"

definition krhino_ringbuf_init ::
  "k_ringbuf option \<Rightarrow> u8 list option \<Rightarrow> nat \<Rightarrow> nat \<Rightarrow> kstat \<times> k_ringbuf option" where
  "krhino_ringbuf_init p buf type block_size =
     (case (p, buf) of
        (None, _) \<Rightarrow> (RHINO_NULL_PTR, p)
      | (_, None) \<Rightarrow> (RHINO_NULL_PTR, p)
      | (Some r, Some b) \<Rightarrow>
          if length b = 0 \<or> type \<noteq> RINGBUF_TYPE_DYN \<and> type \<noteq> RINGBUF_TYPE_FIX
          then (RHINO_INV_PARAM, p)
          else if type = RINGBUF_TYPE_FIX \<and>
            (length b = 0 \<or> block_size = 0 \<or> length b mod block_size \<noteq> 0)
          then (RHINO_INV_PARAM, p)
          else (let (err, r') = ringbuf_init b type block_size in (err, Some r')))"

definition krhino_ringbuf_push ::
  "k_ringbuf option \<Rightarrow> u8 list option \<Rightarrow> nat \<Rightarrow> kstat \<times> k_ringbuf option" where
  "krhino_ringbuf_push p data len =
     (case (p, data) of
        (None, _) \<Rightarrow> (RHINO_NULL_PTR, p)
      | (_, None) \<Rightarrow> (RHINO_NULL_PTR, p)
      | (Some r, Some d) \<Rightarrow>
          if len \<le> 0 \<or> len > RINGBUF_LEN_3BYTES_MAXVALUE \<or>
            rb_type r = RINGBUF_TYPE_FIX \<and> len \<noteq> blk_size r
          then (RHINO_INV_PARAM, p)
          else (let (err, r') = ringbuf_push r d len in (err, Some r')))"

definition krhino_ringbuf_head_push ::
  "k_ringbuf option \<Rightarrow> u8 list option \<Rightarrow> nat \<Rightarrow> kstat \<times> k_ringbuf option" where
  "krhino_ringbuf_head_push p data len =
     (case (p, data) of
        (None, _) \<Rightarrow> (RHINO_NULL_PTR, p)
      | (_, None) \<Rightarrow> (RHINO_NULL_PTR, p)
      | (Some r, Some d) \<Rightarrow>
          if len \<le> 0 \<or> len > RINGBUF_LEN_3BYTES_MAXVALUE \<or>
            rb_type r = RINGBUF_TYPE_FIX \<and> len \<noteq> blk_size r
          then (RHINO_INV_PARAM, p)
          else (let (err, r') = ringbuf_head_push r d len in (err, Some r')))"

definition krhino_ringbuf_pop ::
  "k_ringbuf option \<Rightarrow> bool \<Rightarrow> bool \<Rightarrow> kstat \<times> u8 list \<times> nat \<times> k_ringbuf option" where
  "krhino_ringbuf_pop p pdata_given plen_given =
     (case p of
        None \<Rightarrow> (RHINO_NULL_PTR, [], 0, p)
      | Some r \<Rightarrow>
          if \<not> pdata_given then (RHINO_NULL_PTR, [], 0, p)
          else if rb_type r = RINGBUF_TYPE_DYN \<and> \<not> plen_given then (RHINO_INV_PARAM, [], 0, p)
          else (let (err, d, n, r') = ringbuf_pop r in (err, d, n, Some r')))"

definition krhino_ringbuf_is_empty :: "k_ringbuf option \<Rightarrow> u8" where
  "krhino_ringbuf_is_empty p =
     (case p of None \<Rightarrow> 6 | Some r \<Rightarrow> (if ringbuf_is_empty r then 1 else 0))"

definition krhino_ringbuf_is_full :: "k_ringbuf option \<Rightarrow> u8" where
  "krhino_ringbuf_is_full p =
     (case p of None \<Rightarrow> 6 | Some r \<Rightarrow> (if ringbuf_is_full r then 1 else 0))"

section \<open>The bytes in the buffer\<close>

text \<open>
  \<open>rb_bytes r\<close>: the bytes a reader will see, from the head on and around the end of the
  memory. The invariant ties the two pointers to \<^verbatim>\<open>freesize\<close>.
\<close>

definition rb_used :: "k_ringbuf \<Rightarrow> nat" where
  "rb_used r = rb_end r - freesize r"

definition rb_bytes :: "k_ringbuf \<Rightarrow> u8 list" where
  "rb_bytes r = map (\<lambda>i. rb_mem r ! ((rb_head r + i) mod rb_end r)) [0..<rb_used r]"

definition rb_inv :: "k_ringbuf \<Rightarrow> bool" where
  "rb_inv r \<longleftrightarrow> 0 < rb_end r \<and> rb_head r \<le> rb_end r \<and> rb_tail r \<le> rb_end r \<and>
     freesize r \<le> rb_end r \<and> rb_tail r mod rb_end r = (rb_head r + rb_used r) mod rb_end r"

lemma length_rb_bytes [simp]: "length (rb_bytes r) = rb_used r"
  by (simp add: rb_bytes_def)

lemma nth_rb_bytes [simp]:
  "i < rb_used r \<Longrightarrow> rb_bytes r ! i = rb_mem r ! ((rb_head r + i) mod rb_end r)"
  by (simp add: rb_bytes_def)

lemma length_mem_write:
  "off + length bs \<le> length mem \<Longrightarrow> length (mem_write off bs mem) = length mem"
  by (simp add: mem_write_def)

lemma nth_mem_write:
  assumes "off + length bs \<le> length mem" and "i < length mem"
  shows "mem_write off bs mem ! i =
    (if off \<le> i \<and> i < off + length bs then bs ! (i - off) else mem ! i)"
  using assms by (auto simp: mem_write_def nth_append min_def)

lemma length_mem_read: "off + n \<le> length mem \<Longrightarrow> length (mem_read off n mem) = n"
  by (simp add: mem_read_def)

lemma nth_mem_read: "i < n \<Longrightarrow> off + n \<le> length mem \<Longrightarrow> mem_read off n mem ! i = mem ! (off + i)"
  by (simp add: mem_read_def)

lemma rb_wrap_tail_props [simp]:
  "rb_mem (rb_wrap_tail r) = rb_mem r" "rb_head (rb_wrap_tail r) = rb_head r"
  "freesize (rb_wrap_tail r) = freesize r" "rb_type (rb_wrap_tail r) = rb_type r"
  "blk_size (rb_wrap_tail r) = blk_size r" "rb_used (rb_wrap_tail r) = rb_used r"
  "rb_bytes (rb_wrap_tail r) = rb_bytes r"
  by (simp_all add: rb_wrap_tail_def rb_used_def rb_bytes_def)

lemma rb_wrap_tail_inv: "rb_inv r \<Longrightarrow> rb_inv (rb_wrap_tail r)"
  by (auto simp: rb_inv_def rb_wrap_tail_def rb_used_def)

lemma rb_wrap_tail_less: "rb_inv r \<Longrightarrow> rb_tail (rb_wrap_tail r) < rb_end r"
  by (auto simp: rb_inv_def rb_wrap_tail_def)

lemma rb_wrap_head_props [simp]:
  "rb_mem (rb_wrap_head r) = rb_mem r" "rb_tail (rb_wrap_head r) = rb_tail r"
  "freesize (rb_wrap_head r) = freesize r" "rb_type (rb_wrap_head r) = rb_type r"
  "blk_size (rb_wrap_head r) = blk_size r" "rb_used (rb_wrap_head r) = rb_used r"
  "rb_bytes (rb_wrap_head r) = rb_bytes r"
  by (auto simp add: rb_wrap_head_def rb_used_def rb_bytes_def)

lemma rb_wrap_head_inv: "rb_inv r \<Longrightarrow> rb_inv (rb_wrap_head r)"
proof -
  have "rb_head (rb_wrap_head r) = (if rb_head r = rb_end r then 0 else rb_head r)"
    by (simp add: rb_wrap_head_def)
  then show "rb_inv r \<Longrightarrow> ?thesis" by (auto simp: rb_inv_def)
qed

lemma rb_wrap_head_less: "rb_inv r \<Longrightarrow> rb_head (rb_wrap_head r) < rb_end r"
  by (auto simp: rb_inv_def rb_wrap_head_def)

lemma rb_unwrap_head_props [simp]:
  "rb_mem (rb_unwrap_head r) = rb_mem r" "rb_tail (rb_unwrap_head r) = rb_tail r"
  "freesize (rb_unwrap_head r) = freesize r" "rb_type (rb_unwrap_head r) = rb_type r"
  "blk_size (rb_unwrap_head r) = blk_size r" "rb_used (rb_unwrap_head r) = rb_used r"
  "rb_bytes (rb_unwrap_head r) = rb_bytes r"
  by (auto simp add: rb_unwrap_head_def rb_used_def rb_bytes_def)

lemma rb_unwrap_head_inv: "rb_inv r \<Longrightarrow> rb_inv (rb_unwrap_head r)"
proof -
  have "rb_head (rb_unwrap_head r) = (if rb_head r = 0 then rb_end r else rb_head r)"
    by (simp add: rb_unwrap_head_def)
  then show "rb_inv r \<Longrightarrow> ?thesis" by (auto simp: rb_inv_def)
qed

lemma rb_unwrap_head_pos: "rb_inv r \<Longrightarrow> 0 < rb_head (rb_unwrap_head r)"
  by (auto simp: rb_inv_def rb_unwrap_head_def)

text \<open>Positions modulo the size: the tail stands behind the used bytes, so a copy of at most
  \<^verbatim>\<open>freesize\<close> bytes at the tail touches none of them.\<close>

lemma mod_add_cong_less:
  "a mod n = b mod n \<Longrightarrow> a \<le> b \<Longrightarrow> b < a + n \<Longrightarrow> a = (b::nat)"
proof -
  assume m: "a mod n = b mod n" and "a \<le> b" and "b < a + n"
  then have "n dvd b - a" using mod_eq_dvd_iff_nat [of a b n] by simp
  moreover have "b - a < n" using \<open>a \<le> b\<close> \<open>b < a + n\<close> by linarith
  ultimately have "b - a = 0" by (meson nat_dvd_not_less neq0_conv)
  with \<open>a \<le> b\<close> show "a = b" by simp
qed

lemma rb_put_ok:
  assumes inv: "rb_inv r" and fit: "rb_tail r + length bs \<le> rb_end r"
    and free: "length bs \<le> freesize r"
  shows "rb_inv (rb_put bs r)" and "rb_bytes (rb_put bs r) = rb_bytes r @ bs"
proof -
  let ?N = "rb_end r" and ?r = "rb_put bs r" and ?u = "rb_used r" and ?h = "rb_head r"
  have N: "0 < ?N" and eq: "rb_tail r mod ?N = (?h + ?u) mod ?N" and fs: "freesize r \<le> ?N"
    using inv by (auto simp: rb_inv_def)
  have len: "rb_end ?r = ?N" using fit by (simp add: rb_put_def length_mem_write)
  have used: "rb_used ?r = ?u + length bs" using len free fs by (simp add: rb_put_def rb_used_def)
  have "(rb_tail r + length bs) mod ?N = (?h + (?u + length bs)) mod ?N"
    using eq by (metis add.assoc mod_add_left_eq)
  then show "rb_inv ?r"
    using inv fit free unfolding rb_inv_def len used by (auto simp: rb_put_def)
  show "rb_bytes ?r = rb_bytes r @ bs"
  proof (rule nth_equalityI)
    show "length (rb_bytes ?r) = length (rb_bytes r @ bs)" by (simp add: used)
  next
    fix i assume "i < length (rb_bytes ?r)"
    then have i: "i < ?u + length bs" by (simp add: used)
    let ?p = "(?h + i) mod ?N"
    have p: "?p < ?N" using N by simp
    have mem: "rb_bytes ?r ! i = mem_write (rb_tail r) bs (rb_mem r) ! ?p"
      using i used len by (simp add: rb_put_def)
    show "rb_bytes ?r ! i = (rb_bytes r @ bs) ! i"
    proof (cases "i < ?u")
      case True
      have "\<not> (rb_tail r \<le> ?p \<and> ?p < rb_tail r + length bs)"
      proof
        assume a: "rb_tail r \<le> ?p \<and> ?p < rb_tail r + length bs"
        then obtain d where d: "?p = rb_tail r + d" "d < length bs" by (metis le_iff_add nat_add_left_cancel_less)
        have "(?h + i) mod ?N = (?h + ?u + d) mod ?N"
          using d eq by (metis mod_add_left_eq mod_mod_trivial)
        then have "(?h + i) mod ?N = (?h + (?u + d)) mod ?N" by (simp add: add.assoc)
        moreover have "?h + i \<le> ?h + (?u + d)" using True by simp
        moreover have "?h + (?u + d) < ?h + i + ?N" using d free fs by (simp add: rb_used_def)
        ultimately have "?h + i = ?h + (?u + d)" by (rule mod_add_cong_less)
        with True show False by simp
      qed
      with True p fit mem show ?thesis by (simp add: nth_mem_write nth_append)
    next
      case False
      then obtain d where d: "i = ?u + d" "d < length bs" using i by (metis le_iff_add nat_add_left_cancel_less not_le)
      have "?p = (rb_tail r + d) mod ?N" using d eq by (metis add.assoc mod_add_left_eq)
      moreover have "rb_tail r + d < ?N" using d fit by simp
      ultimately have "?p = rb_tail r + d" by simp
      with d p fit mem show ?thesis by (simp add: nth_mem_write nth_append)
    qed
  qed
qed

lemma rb_put_front_ok:
  assumes inv: "rb_inv r" and fit: "length bs \<le> rb_head r" and free: "length bs \<le> freesize r"
  shows "rb_inv (rb_put_front bs r)" and "rb_bytes (rb_put_front bs r) = bs @ rb_bytes r"
proof -
  let ?N = "rb_end r" and ?r = "rb_put_front bs r" and ?u = "rb_used r"
  let ?h = "rb_head r - length bs"
  have N: "0 < ?N" and h: "rb_head r \<le> ?N" and fs: "freesize r \<le> ?N"
    using inv by (auto simp: rb_inv_def)
  have len: "rb_end ?r = ?N" using fit h by (simp add: rb_put_front_def length_mem_write)
  have used: "rb_used ?r = ?u + length bs"
    using len free fs by (simp add: rb_put_front_def rb_used_def)
  show "rb_inv ?r"
    using inv fit free unfolding rb_inv_def len used by (auto simp: rb_put_front_def add.commute)
  show "rb_bytes ?r = bs @ rb_bytes r"
  proof (rule nth_equalityI)
    show "length (rb_bytes ?r) = length (bs @ rb_bytes r)" by (simp add: used)
  next
    fix i assume "i < length (rb_bytes ?r)"
    then have i: "i < ?u + length bs" by (simp add: used)
    let ?p = "(?h + i) mod ?N"
    have p: "?p < ?N" using N by simp
    have fit': "?h + length bs \<le> ?N" using fit h by simp
    have mem: "rb_bytes ?r ! i = mem_write ?h bs (rb_mem r) ! ?p"
      using i used len by (simp add: rb_put_front_def)
    show "rb_bytes ?r ! i = (bs @ rb_bytes r) ! i"
    proof (cases "i < length bs")
      case True
      then have "?p = ?h + i" using fit' by simp
      with True p fit' mem show ?thesis by (simp add: nth_mem_write nth_append)
    next
      case False
      then obtain d where d: "i = length bs + d" "d < ?u" using i
        by (metis add.commute le_iff_add nat_add_left_cancel_less not_le)
      have pd: "?p = (rb_head r + d) mod ?N" using d fit by simp
      have "\<not> (?h \<le> ?p \<and> ?p < ?h + length bs)"
      proof
        assume a: "?h \<le> ?p \<and> ?p < ?h + length bs"
        then obtain e where e: "?p = ?h + e" "e < length bs"
          by (metis le_iff_add nat_add_left_cancel_less)
        have "(?h + e) mod ?N = (?h + i) mod ?N" using e p by (metis mod_mod_trivial)
        moreover have "?h + e \<le> ?h + i" using False e by simp
        moreover have "?h + i < ?h + e + ?N" using i free fs by (simp add: rb_used_def)
        ultimately have "?h + e = ?h + i" by (rule mod_add_cong_less)
        with False e show False by simp
      qed
      with False p fit' mem d pd show ?thesis by (auto simp: nth_mem_write nth_append)
    qed
  qed
qed

lemma rb_get_ok:
  assumes inv: "rb_inv r" and fit: "rb_head r + n \<le> rb_end r" and n: "n \<le> rb_used r"
  shows "rb_inv (snd (rb_get n r))" and "fst (rb_get n r) = take n (rb_bytes r)"
    and "rb_bytes (snd (rb_get n r)) = drop n (rb_bytes r)"
proof -
  let ?N = "rb_end r" and ?r = "snd (rb_get n r)"
  have N: "0 < ?N" and fs: "freesize r \<le> ?N" using inv by (auto simp: rb_inv_def)
  have used: "rb_used ?r = rb_used r - n" using n fs by (simp add: rb_get_def rb_used_def)
  have "rb_head r + n + (rb_used r - n) = rb_head r + rb_used r" using n by simp
  then show "rb_inv ?r"
    using inv fit n unfolding rb_inv_def used by (auto simp: rb_get_def rb_used_def)
  show "fst (rb_get n r) = take n (rb_bytes r)"
    by (rule nth_equalityI) (use fit n in \<open>auto simp: rb_get_def length_mem_read nth_mem_read\<close>)
  show "rb_bytes ?r = drop n (rb_bytes r)"
  proof (rule nth_equalityI)
    fix i assume "i < length (rb_bytes ?r)"
    then have i: "i < rb_used r - n" by (simp add: used)
    then show "rb_bytes ?r ! i = drop n (rb_bytes r) ! i"
      using used by (simp add: rb_get_def add.assoc)
  qed (simp add: used)
qed

text \<open>Setting a pointer from \<^verbatim>\<open>end\<close> to \<^verbatim>\<open>buf\<close>, or back, changes nothing a reader sees.\<close>

lemma rb_tail_to_0:
  assumes "rb_inv r" and "rb_tail r = rb_end r"
  shows "rb_inv (r\<lparr>rb_tail := 0\<rparr>)" and "rb_bytes (r\<lparr>rb_tail := 0\<rparr>) = rb_bytes r"
  using rb_wrap_tail_inv [OF assms(1)] rb_wrap_tail_props(7) [of r] assms(2)
  by (simp_all add: rb_wrap_tail_def)

lemma rb_head_to_0:
  assumes "rb_inv r" and "rb_head r = rb_end r"
  shows "rb_inv (r\<lparr>rb_head := 0\<rparr>)" and "rb_bytes (r\<lparr>rb_head := 0\<rparr>) = rb_bytes r"
  using rb_wrap_head_inv [OF assms(1)] rb_wrap_head_props(7) [of r] assms(2)
  by (simp_all add: rb_wrap_head_def)

lemma rb_head_to_end:
  assumes "rb_inv r" and "rb_head r = 0"
  shows "rb_inv (r\<lparr>rb_head := rb_end r\<rparr>)" and "rb_bytes (r\<lparr>rb_head := rb_end r\<rparr>) = rb_bytes r"
  using rb_unwrap_head_inv [OF assms(1)] rb_unwrap_head_props(7) [of r] assms(2)
  by (simp_all add: rb_unwrap_head_def)

text \<open>Where the free space lies: with the tail below the head it is the gap between them.\<close>

lemma rb_gap:
  assumes inv: "rb_inv r" and lt: "rb_tail r < rb_head r" and n: "n \<le> freesize r"
  shows "rb_tail r + n \<le> rb_head r"
proof -
  let ?N = "rb_end r"
  have h: "rb_head r \<le> ?N" and f: "freesize r \<le> ?N" and u: "rb_used r = ?N - freesize r"
    and eq: "rb_tail r mod ?N = (rb_head r + rb_used r) mod ?N"
    using inv by (auto simp: rb_inv_def rb_used_def)
  show ?thesis
  proof (rule ccontr)
    assume "\<not> ?thesis"
    then have "rb_head r + rb_used r < rb_tail r + ?N" using n f u by linarith
    moreover have "rb_tail r \<le> rb_head r + rb_used r" using lt by simp
    ultimately have "rb_tail r = rb_head r + rb_used r" using mod_add_cong_less [OF eq] by simp
    with lt show False by simp
  qed
qed

lemma rb_used_before_tail:
  assumes inv: "rb_inv r" and le: "rb_head r \<le> rb_tail r" and u: "rb_used r < rb_end r"
    and n: "n \<le> rb_used r" and hl: "rb_head r < rb_end r"
  shows "rb_head r + n \<le> rb_end r"
proof (rule ccontr)
  let ?N = "rb_end r"
  assume "\<not> ?thesis"
  with n have gt: "?N < rb_head r + rb_used r" by simp
  have t: "rb_tail r \<le> ?N" and eq: "rb_tail r mod ?N = (rb_head r + rb_used r) mod ?N"
    using inv by (auto simp: rb_inv_def)
  have "rb_tail r \<le> rb_head r + rb_used r" and "rb_head r + rb_used r < rb_tail r + ?N"
    using t gt u le by simp_all
  then have "rb_tail r = rb_head r + rb_used r" by (rule mod_add_cong_less [OF eq])
  with gt t show False by simp
qed

lemma rb_put_split_ok:
  assumes inv: "rb_inv r" and lt: "rb_tail r < rb_end r" and free: "length bs \<le> freesize r"
  shows "rb_inv (rb_put_split bs r)" and "rb_bytes (rb_put_split bs r) = rb_bytes r @ bs"
proof -
  let ?s = "rb_end r - rb_tail r"
  have "rb_inv (rb_put_split bs r) \<and> rb_bytes (rb_put_split bs r) = rb_bytes r @ bs"
  proof (cases "rb_tail r \<ge> rb_head r \<and> ?s < length bs \<and> ?s > 0")
    case True
    let ?a = "rb_put (take ?s bs) r"
    have fs: "freesize r \<le> rb_end r" using inv by (simp add: rb_inv_def)
    have a: "rb_inv ?a" "rb_bytes ?a = rb_bytes r @ take ?s bs"
      using rb_put_ok [OF inv, of "take ?s bs"] lt free True by simp_all
    have e: "rb_end ?a = rb_end r" "rb_tail ?a = rb_end r" "freesize ?a = freesize r - ?s"
      using lt True by (simp_all add: rb_put_def length_mem_write)
    let ?b = "?a\<lparr>rb_tail := 0\<rparr>"
    have b: "rb_inv ?b" "rb_bytes ?b = rb_bytes r @ take ?s bs"
      using rb_tail_to_0 [OF a(1)] a(2) e by simp_all
    have "length (drop ?s bs) \<le> freesize ?b" using e free by simp
    moreover have "rb_tail ?b + length (drop ?s bs) \<le> rb_end ?b" using e free fs by simp
    ultimately have "rb_inv (rb_put (drop ?s bs) ?b)"
      "rb_bytes (rb_put (drop ?s bs) ?b) = (rb_bytes r @ take ?s bs) @ drop ?s bs"
      using rb_put_ok [OF b(1), of "drop ?s bs"] b(2) by simp_all
    with True show ?thesis by (simp add: rb_put_split_def Let_def)
  next
    case False
    have fit: "rb_tail r + length bs \<le> rb_end r"
    proof (cases "rb_tail r < rb_head r")
      case True
      then have "rb_tail r + length bs \<le> rb_head r" using rb_gap [OF inv] free by simp
      then show ?thesis using inv by (simp add: rb_inv_def)
    next
      case F: False
      with False lt show ?thesis by linarith
    qed
    have "rb_put_split bs r = rb_put bs r" using False unfolding rb_put_split_def Let_def by argo
    with rb_put_ok [OF inv fit free] show ?thesis by simp
  qed
  then show "rb_inv (rb_put_split bs r)" and "rb_bytes (rb_put_split bs r) = rb_bytes r @ bs"
    by auto
qed

lemma rb_put_split_frame [simp]:
  "rb_head (rb_put_split bs r) = rb_head r" "rb_type (rb_put_split bs r) = rb_type r"
  "blk_size (rb_put_split bs r) = blk_size r"
  by (simp_all add: rb_put_split_def rb_put_def Let_def)

lemma rb_put_split_size:
  assumes "rb_inv r" and "rb_tail r < rb_end r" and "length bs \<le> freesize r"
  shows "rb_end (rb_put_split bs r) = rb_end r"
    and "freesize (rb_put_split bs r) = freesize r - length bs"
proof -
  let ?s = "rb_end r - rb_tail r"
  have fs: "freesize r \<le> rb_end r" and h: "rb_head r \<le> rb_end r" using assms by (simp_all add: rb_inv_def)
  have fit: "rb_tail r + length bs \<le> rb_end r" if "\<not> (rb_tail r \<ge> rb_head r \<and> ?s < length bs \<and> ?s > 0)"
    using that rb_gap [OF assms(1), of "length bs"] assms(2,3) h by linarith
  then show "rb_end (rb_put_split bs r) = rb_end r"
    using assms(2,3) fs by (auto simp: rb_put_split_def rb_put_def Let_def length_mem_write)
  show "freesize (rb_put_split bs r) = freesize r - length bs"
    using assms(3) by (auto simp: rb_put_split_def rb_put_def Let_def)
qed

section \<open>The header code\<close>

text \<open>The header of a message of \<open>n\<close> bytes, as \<^verbatim>\<open>ringbuf_push\<close> stores it.\<close>

definition len_hdr :: "nat \<Rightarrow> u8 list" where
  "len_hdr n = take (fst (ringbuf_headlen_compress n)) (snd (ringbuf_headlen_compress n))"

lemma bit_le_byte: "bit (le_byte i w) j \<longleftrightarrow> j < 8 \<and> bit w (8 * i + j)"
  by (simp add: le_byte_def bit_simps)

lemma bit_krhino_ntohl:
  assumes "j < 8" and "q < 4"
  shows "bit (krhino_ntohl x) (8 * q + j) \<longleftrightarrow> bit x (8 * (3 - q) + j)"
proof -
  have m: "(0xff::u32) = mask 8" "(0xff00::u32) = push_bit 8 (mask 8)"
    "(0xff0000::u32) = push_bit 16 (mask 8)" "(0xff000000::u32) = push_bit 24 (mask 8)"
    by (simp_all add: mask_eq_exp_minus_1)
  from assms(2) consider "q = 0" | "q = 1" | "q = 2" | "q = 3" by linarith
  then show ?thesis
    using assms(1) unfolding krhino_ntohl_def m by cases (auto simp: bit_simps)
qed

lemma le_byte_ntohl: "i < 4 \<Longrightarrow> le_byte i (krhino_ntohl w) = le_byte (3 - i) w"
  by (rule bit_eqI) (auto simp: bit_le_byte bit_krhino_ntohl)

lemma bit_of_le_bytes:
  assumes "j < 8" and "q < 4" and "length bs = 4"
  shows "bit (of_le_bytes bs) (8 * q + j) \<longleftrightarrow> bit (bs ! q) j"
proof -
  from assms(2) consider "q = 0" | "q = 1" | "q = 2" | "q = 3" by linarith
  then show ?thesis
    using assms(1) unfolding of_le_bytes_def
    by cases (auto simp: bit_simps dest: bit_imp_le_length)
qed

lemma ntohl_of_le_bytes:
  assumes "length bs = 4"
  shows "krhino_ntohl (of_le_bytes bs) = of_le_bytes (rev bs)"
proof (rule bit_eqI)
  fix n assume "possible_bit TYPE(u32) n"
  then have n: "n < 32" by simp
  define q j where "q = n div 8" and "j = n mod 8"
  have qj: "n = 8 * q + j" "j < 8" "q < 4" using n by (simp_all add: q_def j_def)
  have "bit (krhino_ntohl (of_le_bytes bs)) n \<longleftrightarrow> bit (bs ! (3 - q)) j"
    using qj assms by (simp add: bit_krhino_ntohl bit_of_le_bytes)
  also have "\<dots> \<longleftrightarrow> bit (rev bs ! q) j" using qj assms by (simp add: rev_nth)
  also have "\<dots> \<longleftrightarrow> bit (of_le_bytes (rev bs)) n" using qj assms by (simp add: bit_of_le_bytes)
  finally show "bit (krhino_ntohl (of_le_bytes bs)) n = bit (of_le_bytes (rev bs)) n" .
qed

lemma of_le_bytes_le_byte: "of_le_bytes [le_byte 0 w, le_byte 1 w, le_byte 2 w, le_byte 3 w] = w"
  (is "of_le_bytes ?bs = w")
proof (rule bit_eqI)
  fix n assume "possible_bit TYPE(u32) n"
  then have n: "n < 32" by simp
  define q j where "q = n div 8" and "j = n mod 8"
  have qj: "n = 8 * q + j" "j < 8" "q < 4" using n by (simp_all add: q_def j_def)
  then have "bit (of_le_bytes ?bs) n \<longleftrightarrow> bit (?bs ! q) j" by (simp add: bit_of_le_bytes)
  also have "?bs ! q = le_byte q w" using qj(3) by (auto simp: less_Suc_eq numeral_eq_Suc)
  finally show "bit (of_le_bytes ?bs) n = bit w n" using qj by (simp add: bit_le_byte)
qed

text \<open>A length of at most \<open>2^22 - 1\<close> has no bit in the places the header marks use.\<close>

lemma word_small_bit:
  assumes "n < 2 ^ k" and "k \<le> i"
  shows "\<not> bit (word_of_nat n :: u32) i"
proof
  assume b: "bit (word_of_nat n :: u32) i"
  have "unat (word_of_nat n :: u32) \<le> n" by (simp add: unsigned_of_nat take_bit_eq_mod)
  also have "n < 2 ^ i" using assms by (meson less_le_trans one_le_numeral power_increasing)
  finally have "\<not> bit (unat (word_of_nat n :: u32)) i" by (simp add: bit_iff_odd)
  with b show False by (simp add: bit_unsigned_iff bit_imp_le_length)
qed

lemma le_byte_small:
  assumes "n < 2 ^ (8 * i + m)" and "m \<le> j"
  shows "\<not> bit (le_byte i (word_of_nat n)) j"
  using word_small_bit [OF assms(1), of "8 * i + j"] assms(2) by (simp add: bit_le_byte)

lemma le_byte_small_mask:
  assumes "n < 2 ^ (8 * i + m)"
  shows "le_byte i (word_of_nat n) AND mask m = le_byte i (word_of_nat n)"
  using le_byte_small [OF assms] by (intro bit_eqI) (auto simp: bit_simps, meson not_le)

lemma le_byte_small_0:
  assumes "n < 2 ^ (8 * i)"
  shows "le_byte i (word_of_nat n) = 0"
  using le_byte_small_mask [of n i 0] assms by simp

lemmas hdr_konst = ringbuf_headlen_compress_def COMPRESS_LEN_def rb_konst

text \<open>The three shapes of a header.\<close>

lemma len_hdr_cases:
  assumes "n \<le> RINGBUF_LEN_3BYTES_MAXVALUE"
  defines "w \<equiv> word_of_nat n :: u32"
  shows "n \<le> 0x7f \<Longrightarrow> len_hdr n = [0x7f AND le_byte 0 w]"
    and "0x7f < n \<Longrightarrow> n \<le> 0x3fff \<Longrightarrow> len_hdr n = [0x80 OR le_byte 1 w, le_byte 0 w]"
    and "0x3fff < n \<Longrightarrow> len_hdr n = [0xC0 OR le_byte 2 w, le_byte 1 w, le_byte 0 w]"
  using assms(1) by (simp_all add: len_hdr_def hdr_konst le_byte_ntohl Let_def w_def)

definition hdr_class :: "u8 \<Rightarrow> nat" where
  "hdr_class b = (if b AND 0x80 = 0 then 1 else if b AND 0xC0 = 0x80 then 2
     else if b AND 0xC0 = 0xC0 then 3 else 0)"

lemma hdr_class_values:
  "hdr_class (x AND 0x7f) = 1"
  "x AND 0x3f = x \<Longrightarrow> hdr_class (0x80 OR x) = 2"
  "hdr_class (0xC0 OR x) = 3"
proof -
  have k: "(0x7f::u8) AND 0x80 = 0" "(0x3f::u8) AND 0xC0 = 0" by simp_all
  then have "(x AND 0x7f) AND 0x80 = 0" by (metis and.assoc and.right_neutral bit.conj_zero_right)
  then show "hdr_class (x AND 0x7f) = 1" unfolding hdr_class_def by (rule if_P)
  have a: "(0x80 OR x) AND 0x80 = (0x80 :: u8)" by (simp add: bit.conj_disj_distrib2 or.commute)
  show "hdr_class (0x80 OR x) = 2" if "x AND 0x3f = x"
  proof -
    have "x AND 0xC0 = (x AND 0x3f) AND 0xC0" using that by simp
    also have "\<dots> = 0" by (metis k(2) and.assoc bit.conj_zero_right)
    finally have "(0x80 OR x) AND 0xC0 = 0x80" by (simp add: bit.conj_disj_distrib2)
    with a show ?thesis by (simp add: hdr_class_def)
  qed
  have "(0xC0 OR x) AND 0xC0 = (0xC0 :: u8)" by (simp add: bit.conj_disj_distrib2 or.commute)
  moreover have "(0xC0 OR x) AND 0x80 \<noteq> 0"
  proof -
    have "bit ((0xC0 OR x) AND 0x80) 7" by (simp add: bit_simps)
    then show ?thesis by (metis bit_0_eq bot_apply bot_bool_def)
  qed
  ultimately show "hdr_class (0xC0 OR x) = 3" by (simp add: hdr_class_def)
qed

lemma decompress_bytes:
  "ringbuf_headlen_decompress 1 [a] = unat (of_le_bytes [a, 0, 0, 0])"
  "ringbuf_headlen_decompress 2 [b, a] = unat (of_le_bytes [a, b AND 0x3f, 0, 0])"
  "ringbuf_headlen_decompress 3 [c, b, a] = unat (of_le_bytes [a, b, c AND 0x3f, 0])"
  by (simp_all add: ringbuf_headlen_decompress_def mem_write_def ntohl_of_le_bytes)

lemma headlen_ok:
  assumes "n \<le> RINGBUF_LEN_3BYTES_MAXVALUE"
  shows "hdr_class (len_hdr n ! 0) = length (len_hdr n)"
    and "ringbuf_headlen_decompress (length (len_hdr n)) (len_hdr n) = n"
    and "len_hdr n \<noteq> [] \<and> length (len_hdr n) \<le> RINGBUF_LEN_MAX_SIZE"
proof -
  let ?w = "word_of_nat n :: u32"
  have nlt: "n < 2 ^ 22" using assms by (simp add: rb_konst)
  have m6: "(0x3f::u8) = mask 6" and m7: "(0x7f::u8) = mask 7" by (simp_all add: mask_eq_exp_minus_1)
  have uw: "unat ?w = n" using nlt by (simp add: unsigned_of_nat take_bit_nat_eq_self)
  have z: "le_byte 3 ?w = 0" using nlt by (intro le_byte_small_0) simp
  have all: "of_le_bytes [le_byte 0 ?w, le_byte 1 ?w, le_byte 2 ?w, 0] = ?w"
    using of_le_bytes_le_byte [of ?w] z by simp
  have strip: "(c OR x) AND 0x3f = (x::u8)" if "x AND 0x3f = x" "c AND 0x3f = 0" for c x
    using that by (simp add: bit.conj_disj_distrib2)
  consider (one) "n \<le> 0x7f" | (two) "0x7f < n" "n \<le> 0x3fff" | (three) "0x3fff < n" by linarith
  then have "hdr_class (len_hdr n ! 0) = length (len_hdr n) \<and>
    ringbuf_headlen_decompress (length (len_hdr n)) (len_hdr n) = n \<and>
    len_hdr n \<noteq> [] \<and> length (len_hdr n) \<le> RINGBUF_LEN_MAX_SIZE"
  proof cases
    case one
    have h: "len_hdr n = [0x7f AND le_byte 0 ?w]" by (rule len_hdr_cases(1) [OF assms one])
    have "le_byte 0 ?w AND 0x7f = le_byte 0 ?w" unfolding m7 using one by (intro le_byte_small_mask) simp
    moreover have "le_byte 1 ?w = 0" "le_byte 2 ?w = 0" using one by (auto intro: le_byte_small_0)
    ultimately show ?thesis
      using all uw hdr_class_values(1) [of "le_byte 0 ?w"] decompress_bytes(1) [of "le_byte 0 ?w"]
      by (simp add: h and.commute rb_konst)
  next
    case two
    have h: "len_hdr n = [0x80 OR le_byte 1 ?w, le_byte 0 ?w]" by (rule len_hdr_cases(2) [OF assms two])
    have s: "le_byte 1 ?w AND 0x3f = le_byte 1 ?w" unfolding m6 using two by (intro le_byte_small_mask) simp
    have "le_byte 2 ?w = 0" using two by (auto intro: le_byte_small_0)
    then show ?thesis
      using all uw hdr_class_values(2) [OF s] strip [OF s, where c = "0x80"]
        decompress_bytes(2) [where b = "0x80 OR le_byte 1 ?w" and a = "le_byte 0 ?w"]
      by (simp add: h rb_konst numeral_2_eq_2)
  next
    case three
    have h: "len_hdr n = [0xC0 OR le_byte 2 ?w, le_byte 1 ?w, le_byte 0 ?w]"
      by (rule len_hdr_cases(3) [OF assms three])
    have s: "le_byte 2 ?w AND 0x3f = le_byte 2 ?w" unfolding m6 using nlt by (intro le_byte_small_mask) simp
    show ?thesis
      using all uw hdr_class_values(3) [of "le_byte 2 ?w"] strip [OF s, where c = "0xC0"]
        decompress_bytes(3) [where c = "0xC0 OR le_byte 2 ?w" and b = "le_byte 1 ?w" and a = "le_byte 0 ?w"]
      by (simp add: h rb_konst numeral_3_eq_3)
  qed
  then show "hdr_class (len_hdr n ! 0) = length (len_hdr n)"
    and "ringbuf_headlen_decompress (length (len_hdr n)) (len_hdr n) = n"
    and "len_hdr n \<noteq> [] \<and> length (len_hdr n) \<le> RINGBUF_LEN_MAX_SIZE" by auto
qed

text \<open>
  C28. The length header round trip: for every length a header can hold (up to
  \<open>2^22 - 1\<close>), the first byte tells the number of header bytes, of which there are one to
  three, and decompressing them gives the length back.
\<close>

theorem headlen_roundtrip:
  assumes "n \<le> RINGBUF_LEN_3BYTES_MAXVALUE"
  shows "hdr_class (len_hdr n ! 0) = length (len_hdr n) \<and>
    ringbuf_headlen_decompress (length (len_hdr n)) (len_hdr n) = n \<and>
    len_hdr n \<noteq> [] \<and> length (len_hdr n) \<le> RINGBUF_LEN_MAX_SIZE"
  using headlen_ok [OF assms] by simp

theorem headlen_roundtrip_witness:
  "ringbuf_headlen_decompress (length (len_hdr 300)) (len_hdr 300) = 300"
  using headlen_roundtrip [of 300] by (simp add: rb_konst)

end
