(* ===== verification/Rhino_Bitmap.thy ===== *)
theory Rhino_Bitmap
  imports Rhino_Prelude
begin

text \<open>
  The priority bitmap of \<^verbatim>\<open>k_bitmap.h\<close>: an array of 32-bit words in which bit 31 of word
  0 stands for position 0. \<open>bitmap_test\<close> reads a position; the theorems say what setting
  and clearing do to every position and that the branching search returns the first set
  position, or runs off the array exactly when no position is set.
\<close>

section \<open>Operations\<close>

definition BITMAP_MASK :: "nat \<Rightarrow> u32" where
  "BITMAP_MASK nr = push_bit (31 - nr mod 32) 1"

definition BITMAP_WORD :: "nat \<Rightarrow> nat" where
  "BITMAP_WORD nr = nr div 32"

definition krhino_bitmap_set :: "u32 list \<Rightarrow> nat \<Rightarrow> u32 list" where
  "krhino_bitmap_set bitmap nr =
     bitmap[BITMAP_WORD nr := bitmap ! BITMAP_WORD nr OR BITMAP_MASK nr]"

definition krhino_bitmap_clear :: "u32 list \<Rightarrow> nat \<Rightarrow> u32 list" where
  "krhino_bitmap_clear bitmap nr =
     bitmap[BITMAP_WORD nr := bitmap ! BITMAP_WORD nr AND NOT (BITMAP_MASK nr)]"

text \<open>
  The five tests on one word: \<open>clz_stage m s\<close> is one
  \<^verbatim>\<open>if (!(tmp & m)) { tmp <<= s; nr += s; }\<close> of the source.
\<close>

definition clz_stage :: "u32 \<Rightarrow> nat \<Rightarrow> u32 \<times> nat \<Rightarrow> u32 \<times> nat" where
  "clz_stage m s = (\<lambda>(tmp, nr). if tmp AND m = 0 then (push_bit s tmp, nr + s) else (tmp, nr))"

definition find_first_in_word :: "u32 \<Rightarrow> nat \<Rightarrow> nat" where
  "find_first_in_word w nr0 =
     (let (tmp, nr) =
        clz_stage 0xC0000000 2 (clz_stage 0xF0000000 4 (clz_stage 0xFF000000 8
          (clz_stage 0xFFFF0000 16 (w, nr0))))
      in if tmp AND 0x80000000 = 0 then nr + 1 else nr)"

text \<open>
  The scan over the words. The source has no bound: with every word zero it reads past the
  array, which is the result \<open>None\<close> here.
\<close>

fun find_first_bit_from :: "u32 list \<Rightarrow> nat \<Rightarrow> nat option" where
  "find_first_bit_from [] nr = None"
| "find_first_bit_from (w # ws) nr =
     (if w = 0 then find_first_bit_from ws (nr + 32) else Some (find_first_in_word w nr))"

definition krhino_find_first_bit :: "u32 list \<Rightarrow> nat option" where
  "krhino_find_first_bit bitmap = find_first_bit_from bitmap 0"

section \<open>Reading a position\<close>

definition bitmap_test :: "u32 list \<Rightarrow> nat \<Rightarrow> bool" where
  "bitmap_test bitmap nr \<longleftrightarrow> bit (bitmap ! (nr div 32)) (31 - nr mod 32)"

lemma bit_BITMAP_MASK:
  "bit (BITMAP_MASK nr) i \<longleftrightarrow> i = 31 - nr mod 32"
  unfolding BITMAP_MASK_def by (auto simp: bit_simps)

lemma length_bitmap_set [simp]: "length (krhino_bitmap_set bm nr) = length bm"
  by (simp add: krhino_bitmap_set_def)

lemma length_bitmap_clear [simp]: "length (krhino_bitmap_clear bm nr) = length bm"
  by (simp add: krhino_bitmap_clear_def)

lemma same_position: "m div 32 = n div 32 \<Longrightarrow> 31 - m mod 32 = 31 - n mod 32 \<Longrightarrow> m = (n::nat)"
proof -
  assume d: "m div 32 = n div 32" and e: "31 - m mod 32 = 31 - n mod 32"
  have "m mod 32 < 32" "n mod 32 < 32" by simp_all
  with e have "m mod 32 = n mod 32" by linarith
  with d show "m = n" by (metis div_mult_mod_eq)
qed

lemma bitmap_test_set:
  assumes "nr < 32 * length bm"
  shows "bitmap_test (krhino_bitmap_set bm nr) m \<longleftrightarrow> m = nr \<or> bitmap_test bm m"
proof (cases "m div 32 = nr div 32")
  case True
  moreover have "nr div 32 < length bm" using assms by (simp add: less_mult_imp_div_less mult.commute)
  ultimately show ?thesis
    using same_position [of m nr]
    by (auto simp: bitmap_test_def krhino_bitmap_set_def BITMAP_WORD_def bit_or_iff bit_BITMAP_MASK)
next
  case False
  then show ?thesis by (auto simp: bitmap_test_def krhino_bitmap_set_def BITMAP_WORD_def)
qed

lemma bitmap_test_clear:
  assumes "nr < 32 * length bm"
  shows "bitmap_test (krhino_bitmap_clear bm nr) m \<longleftrightarrow> m \<noteq> nr \<and> bitmap_test bm m"
proof (cases "m div 32 = nr div 32")
  case True
  moreover have "nr div 32 < length bm" using assms by (simp add: less_mult_imp_div_less mult.commute)
  moreover have "31 - m mod 32 < (32::nat)" by simp
  ultimately show ?thesis
    using same_position [of m nr]
    by (auto simp: bitmap_test_def krhino_bitmap_clear_def BITMAP_WORD_def bit_and_iff
      bit_not_iff bit_BITMAP_MASK)
next
  case False
  then show ?thesis by (auto simp: bitmap_test_def krhino_bitmap_clear_def BITMAP_WORD_def)
qed

section \<open>The search in one word\<close>

text \<open>
  \<open>top_bits s w\<close>: one of the \<open>s\<close> most significant bits is set. Every stage halves the
  width in which a set bit is known to be, and counts the zero bits it shifts out.
\<close>

definition top_bits :: "nat \<Rightarrow> u32 \<Rightarrow> bool" where
  "top_bits s w \<longleftrightarrow> (\<exists>i < 32. 32 - s \<le> i \<and> bit w i)"

lemma top_bits_32: "w \<noteq> 0 \<Longrightarrow> top_bits 32 w"
  by (auto simp: top_bits_def bit_eq_iff dest: bit_imp_le_length)

lemma mask_top_bits:
  fixes m w :: u32
  assumes "m = push_bit (32 - s) (mask s)" and "s \<le> 32"
  shows "w AND m = 0 \<longleftrightarrow> \<not> top_bits s w"
proof -
  have "bit m i \<longleftrightarrow> 32 - s \<le> i \<and> i < 32" for i
    using assms by (auto simp: bit_simps)
  then show ?thesis
    unfolding top_bits_def by (auto simp: bit_eq_iff bit_and_iff)
qed

lemma stage_masks:
  "w AND 0xFFFF0000 = (0::u32) \<longleftrightarrow> \<not> top_bits 16 w"
  "w AND 0xFF000000 = (0::u32) \<longleftrightarrow> \<not> top_bits 8 w"
  "w AND 0xF0000000 = (0::u32) \<longleftrightarrow> \<not> top_bits 4 w"
  "w AND 0xC0000000 = (0::u32) \<longleftrightarrow> \<not> top_bits 2 w"
  "w AND 0x80000000 = (0::u32) \<longleftrightarrow> \<not> top_bits 1 w"
  by (rule mask_top_bits; simp add: mask_eq_exp_minus_1)+

text \<open>
  \<open>clz_inv w nr0 s (tmp, nr)\<close>: the search has skipped \<open>nr - nr0\<close> leading zero bits of
  \<open>w\<close>, holds the rest in \<open>tmp\<close>, and knows a set bit in the top \<open>s\<close> of it.
\<close>

definition clz_inv :: "u32 \<Rightarrow> nat \<Rightarrow> nat \<Rightarrow> u32 \<times> nat \<Rightarrow> bool" where
  "clz_inv w nr0 s = (\<lambda>(tmp, nr). nr0 \<le> nr \<and> tmp = push_bit (nr - nr0) w \<and>
     (\<forall>i < 32. 32 - (nr - nr0) \<le> i \<longrightarrow> \<not> bit w i) \<and> top_bits s tmp)"

lemma clz_stage_inv:
  assumes inv: "clz_inv w nr0 (2 * s) p" and s: "s \<le> 16"
    and m: "\<And>x. x AND m = 0 \<longleftrightarrow> \<not> top_bits s x"
  shows "clz_inv w nr0 s (clz_stage m s p)"
proof -
  obtain tmp nr where p: "p = (tmp, nr)" by (cases p)
  show ?thesis
  proof (cases "top_bits s tmp")
    case True
    with inv m show ?thesis by (simp add: p clz_inv_def clz_stage_def)
  next
    case False
    from inv have nr: "nr0 \<le> nr" and tmp: "tmp = push_bit (nr - nr0) w"
      and z: "\<forall>i < 32. 32 - (nr - nr0) \<le> i \<longrightarrow> \<not> bit w i" and t: "top_bits (2 * s) tmp"
      by (auto simp: p clz_inv_def)
    let ?n = "nr - nr0"
    from t False obtain i where i: "i < 32 - s" "32 - 2 * s \<le> i" "bit tmp i"
      unfolding top_bits_def by (meson not_le)
    have top: "top_bits s (push_bit s tmp)"
      unfolding top_bits_def using i s
      by (intro exI [of _ "i + s"]) (auto simp: bit_simps)
    have zero: "\<not> bit w j" if j: "j < 32" "32 - (?n + s) \<le> j" for j
    proof (cases "32 - ?n \<le> j")
      case True
      with z j show ?thesis by blast
    next
      case F: False
      then have "j + ?n < 32" "32 - s \<le> j + ?n" using j by auto
      with False have "\<not> bit tmp (j + ?n)" unfolding top_bits_def by blast
      with \<open>j + ?n < 32\<close> show ?thesis by (simp add: tmp bit_simps)
    qed
    have "push_bit s tmp = push_bit (?n + s) w" by (simp add: tmp push_bit_push_bit add.commute)
    with top zero nr False m show ?thesis
      by (simp add: p clz_inv_def clz_stage_def)
  qed
qed

lemma find_first_in_word_correct:
  assumes "w \<noteq> 0"
  obtains n where "find_first_in_word w nr0 = nr0 + n" "n < 32" "bit w (31 - n)"
    "\<forall>m < n. \<not> bit w (31 - m)"
proof -
  obtain tmp nr where st: "clz_stage 0xC0000000 2 (clz_stage 0xF0000000 4 (clz_stage 0xFF000000 8
          (clz_stage 0xFFFF0000 16 (w, nr0)))) = (tmp, nr)" by (rule prod.exhaust)
  have "clz_inv w nr0 32 (w, nr0)" using assms by (simp add: clz_inv_def top_bits_32)
  then have "clz_inv w nr0 16 (clz_stage 0xFFFF0000 16 (w, nr0))"
    by (intro clz_stage_inv) (simp_all add: stage_masks)
  then have "clz_inv w nr0 8 (clz_stage 0xFF000000 8 (clz_stage 0xFFFF0000 16 (w, nr0)))"
    by (intro clz_stage_inv) (simp_all add: stage_masks)
  then have "clz_inv w nr0 4 (clz_stage 0xF0000000 4 (clz_stage 0xFF000000 8
      (clz_stage 0xFFFF0000 16 (w, nr0))))"
    by (intro clz_stage_inv) (simp_all add: stage_masks)
  then have "clz_inv w nr0 2 (tmp, nr)"
    unfolding st [symmetric] by (intro clz_stage_inv) (simp_all add: stage_masks)
  then have "clz_inv w nr0 1 (clz_stage 0x80000000 1 (tmp, nr))"
    by (intro clz_stage_inv) (simp_all add: stage_masks)
  moreover have "find_first_in_word w nr0 = snd (clz_stage 0x80000000 1 (tmp, nr))"
    unfolding find_first_in_word_def st by (simp add: clz_stage_def)
  moreover obtain x nr1 where r: "clz_stage 0x80000000 1 (tmp, nr) = (x, nr1)"
    by (rule prod.exhaust)
  ultimately have le: "nr0 \<le> nr1" and f1: "find_first_in_word w nr0 = nr1"
    and z1: "\<forall>i < 32. 32 - (nr1 - nr0) \<le> i \<longrightarrow> \<not> bit w i"
    and t1: "top_bits 1 (push_bit (nr1 - nr0) w)"
    by (auto simp: clz_inv_def)
  define n where "n = nr1 - nr0"
  have f: "find_first_in_word w nr0 = nr0 + n"
    and z: "\<forall>i < 32. 32 - n \<le> i \<longrightarrow> \<not> bit w i" and t: "top_bits 1 (push_bit n w)"
    using le f1 z1 t1 by (simp_all add: n_def)
  from t obtain i where "i < 32" "31 \<le> i" "bit (push_bit n w) i"
    by (auto simp: top_bits_def)
  moreover from this have "i = 31" by linarith
  ultimately have b: "n < 32" "bit w (31 - n)"
    by (simp_all add: bit_push_bit_iff)
  moreover have "\<forall>m < n. \<not> bit w (31 - m)" using z b by simp
  ultimately show thesis using f that by blast
qed

section \<open>The search over the array\<close>

lemma bitmap_test_Cons:
  "bitmap_test (w # ws) n \<longleftrightarrow> (if n < 32 then bit w (31 - n) else bitmap_test ws (n - 32))"
proof (cases "n < 32")
  case False
  then have "n div 32 = Suc ((n - 32) div 32)" "n mod 32 = (n - 32) mod 32"
    by (simp_all add: le_div_geq le_mod_geq)
  with False show ?thesis by (simp add: bitmap_test_def)
qed (simp add: bitmap_test_def)

lemma find_first_bit_from_correct:
  "case find_first_bit_from bm nr of
     None \<Rightarrow> \<forall>m < 32 * length bm. \<not> bitmap_test bm m
   | Some r \<Rightarrow> \<exists>n. r = nr + n \<and> n < 32 * length bm \<and> bitmap_test bm n \<and>
       (\<forall>m < n. \<not> bitmap_test bm m)"
proof (induction bm nr rule: find_first_bit_from.induct)
  case (2 w ws nr)
  show ?case
  proof (cases "w = 0")
    case False
    then obtain n where "find_first_in_word w nr = nr + n" "n < 32" "bit w (31 - n)"
      "\<forall>m < n. \<not> bit w (31 - m)" by (rule find_first_in_word_correct)
    with False show ?thesis by (auto simp: bitmap_test_Cons intro!: exI [of _ n])
  next
    case True
    with 2 have IH: "case find_first_bit_from ws (nr + 32) of
     None \<Rightarrow> \<forall>m < 32 * length ws. \<not> bitmap_test ws m
   | Some r \<Rightarrow> \<exists>n. r = nr + 32 + n \<and> n < 32 * length ws \<and> bitmap_test ws n \<and>
       (\<forall>m < n. \<not> bitmap_test ws m)" by simp
    show ?thesis
    proof (cases "find_first_bit_from ws (nr + 32)")
      case None
      with IH True show ?thesis by (auto simp: bitmap_test_Cons)
    next
      case (Some r)
      with IH obtain n where "r = nr + 32 + n" "n < 32 * length ws" "bitmap_test ws n"
        "\<forall>m < n. \<not> bitmap_test ws m" by auto
      with Some True show ?thesis by (auto simp: bitmap_test_Cons intro!: exI [of _ "n + 32"])
    qed
  qed
qed simp

lemma find_first_bit_Some:
  assumes "bitmap_test bm n" and "n < 32 * length bm" and "\<forall>m < n. \<not> bitmap_test bm m"
  shows "krhino_find_first_bit bm = Some n"
proof -
  from find_first_bit_from_correct [of bm 0] assms
  have "case krhino_find_first_bit bm of None \<Rightarrow> False
    | Some r \<Rightarrow> bitmap_test bm r \<and> (\<forall>m < r. \<not> bitmap_test bm m)"
    by (auto simp: krhino_find_first_bit_def split: option.splits)
  then show ?thesis using assms
    by (auto split: option.splits) (meson linorder_neqE_nat)
qed

text \<open>
  C29. The priority search returns the first set position of the bitmap: it finds \<open>n\<close> if
  and only if \<open>n\<close> lies in the array, is set, and no smaller position is set. (It runs off
  the array, the result \<open>None\<close>, exactly when no position is set.)
\<close>

theorem krhino_find_first_bit_correct:
  "krhino_find_first_bit bm = Some n \<longleftrightarrow>
     n < 32 * length bm \<and> bitmap_test bm n \<and> (\<forall>m < n. \<not> bitmap_test bm m)"
  using find_first_bit_from_correct [of bm 0] find_first_bit_Some [of bm n]
  by (auto simp: krhino_find_first_bit_def)

theorem krhino_find_first_bit_correct_witness:
  "krhino_find_first_bit [0x20000000, 0] = Some 2"
proof -
  have "bitmap_test [0x20000000, 0] 2" "\<not> bitmap_test [0x20000000, 0] 0"
    "\<not> bitmap_test [0x20000000, 0] 1"
    by code_simp+
  then show ?thesis
    using krhino_find_first_bit_correct [of "[0x20000000, 0]" 2] by (auto simp: less_2_cases_iff)
qed

lemma krhino_find_first_bit_None:
  "krhino_find_first_bit bm = None \<longleftrightarrow> (\<forall>m < 32 * length bm. \<not> bitmap_test bm m)"
  using find_first_bit_from_correct [of bm 0]
  by (auto simp: krhino_find_first_bit_def split: option.splits)

end
