(* ===== verification/Rhino_State.thy ===== *)
theory Rhino_State
  imports Rhino_Ringbuf Rhino_Bitmap
begin

text \<open>
  The state of the kernel: the control blocks of tasks and of kernel objects
  (\<^verbatim>\<open>k_task.h\<close>, \<^verbatim>\<open>k_obj.h\<close>, \<^verbatim>\<open>k_mutex.h\<close>, \<^verbatim>\<open>k_sem.h\<close>, \<^verbatim>\<open>k_event.h\<close>, \<^verbatim>\<open>k_queue.h\<close>,
  \<^verbatim>\<open>k_buf_queue.h\<close>) and the globals of \<^verbatim>\<open>k_obj.c\<close>.

  A control block is named by its address, a natural number, and \<open>NULL\<close> is 0. A blocking
  object and its header \<^verbatim>\<open>blk_obj_t\<close>, its first member, have one address. The lists threaded
  through the control blocks are the lists of addresses they represent: \<open>Rhino_KList\<close>
  relates the two for the operations the kernel uses. Where the C code would follow a null
  pointer, unlink a node that is not on the list, or not return, the model sets \<open>g_fault\<close>.
\<close>

section \<open>Control blocks\<close>

abbreviation (input) NULL :: nat where
  "NULL \<equiv> 0"

record ktask =
  suspend_count :: u8
  mutex_list :: "oid list"
  tick_match :: u64
  tick_remain :: u64
  tick_head :: bool
  task_msg :: u32
  bq_msg_size :: nat
  task_state :: task_stat
  blk_state :: blk_state
  blk_obj :: oid
  task_sem_obj :: oid
  task_time_slice :: u32
  time_total :: u32
  pend_flags :: u32
  pend_info :: u32
  pend_option :: u8
  sched_policy :: u8
  prio :: nat
  b_prio :: nat
  task_mm_alloc_flag :: u8
  user_info :: "u32 list"

record blk_obj =
  blk_list :: "tid list"
  blk_policy :: blk_policy
  obj_type :: kobj_type

record kmutex =
  mutex_task :: tid
  owner_nested :: u32
  mutex_mm_alloc_flag :: u8

record ksem =
  sem_count :: u32
  sem_peak_count :: u32
  sem_mm_alloc_flag :: u8

record kevent =
  event_flags :: u32
  event_mm_alloc_flag :: u8

record kqueue =
  q_ringbuf :: k_ringbuf
  q_size :: nat
  q_cur_num :: nat
  q_peak_num :: nat
  queue_mm_alloc_flag :: u8

record kbuf_queue =
  bq_ringbuf :: k_ringbuf
  max_msg_size :: nat
  bq_cur_num :: nat
  bq_peak_num :: nat
  min_free_buf_size :: nat
  bq_mm_alloc_flag :: u8

section \<open>The kernel\<close>

text \<open>
  \<open>cur_list_item p\<close> is the circular ready list of priority \<open>p\<close> read from the current item
  on; an empty list is the null pointer. \<open>mem\<close> is the byte-addressed memory of the callers,
  where results are stored through pointer arguments. \<open>g_err_log\<close> records the calls of
  \<^verbatim>\<open>k_err_proc\<close>.
\<close>

record kernel =
  g_sys_stat :: kstat
  g_idle_task_spawned :: u8
  cur_list_item :: "nat \<Rightarrow> tid list"
  task_bit_map :: "u32 list"
  highest_pri :: nat
  g_sched_lock :: u8
  g_intrpt_nested_level :: u8
  g_preferred_ready_task :: tid
  g_active_task :: tid
  g_tick_count :: u64
  g_tick_head :: "tid list"
  g_sys_time_tick :: u64
  tasks :: "tid \<Rightarrow> ktask"
  blk_objs :: "oid \<Rightarrow> blk_obj"
  mutexes :: "oid \<Rightarrow> kmutex"
  sems :: "oid \<Rightarrow> ksem"
  events :: "oid \<Rightarrow> kevent"
  queues :: "oid \<Rightarrow> kqueue"
  buf_queues :: "oid \<Rightarrow> kbuf_queue"
  g_res_list :: "tid list"
  mem :: "u32 \<Rightarrow> u8"
  g_err_log :: "kstat list"
  g_fault :: bool

section \<open>Access\<close>

text \<open>Writing a member through a pointer.\<close>

definition fault :: "kernel \<Rightarrow> kernel" where
  "fault k = k\<lparr>g_fault := True\<rparr>"

definition upd_task :: "tid \<Rightarrow> (ktask \<Rightarrow> ktask) \<Rightarrow> kernel \<Rightarrow> kernel" where
  "upd_task t f k = k\<lparr>tasks := (tasks k)(t := f (tasks k t)), g_fault := g_fault k \<or> t = NULL\<rparr>"

definition upd_blk :: "oid \<Rightarrow> (blk_obj \<Rightarrow> blk_obj) \<Rightarrow> kernel \<Rightarrow> kernel" where
  "upd_blk b f k =
     k\<lparr>blk_objs := (blk_objs k)(b := f (blk_objs k b)), g_fault := g_fault k \<or> b = NULL\<rparr>"

definition upd_mutex :: "oid \<Rightarrow> (kmutex \<Rightarrow> kmutex) \<Rightarrow> kernel \<Rightarrow> kernel" where
  "upd_mutex m f k =
     k\<lparr>mutexes := (mutexes k)(m := f (mutexes k m)), g_fault := g_fault k \<or> m = NULL\<rparr>"

definition upd_sem :: "oid \<Rightarrow> (ksem \<Rightarrow> ksem) \<Rightarrow> kernel \<Rightarrow> kernel" where
  "upd_sem s f k = k\<lparr>sems := (sems k)(s := f (sems k s)), g_fault := g_fault k \<or> s = NULL\<rparr>"

definition upd_event :: "oid \<Rightarrow> (kevent \<Rightarrow> kevent) \<Rightarrow> kernel \<Rightarrow> kernel" where
  "upd_event e f k =
     k\<lparr>events := (events k)(e := f (events k e)), g_fault := g_fault k \<or> e = NULL\<rparr>"

definition upd_queue :: "oid \<Rightarrow> (kqueue \<Rightarrow> kqueue) \<Rightarrow> kernel \<Rightarrow> kernel" where
  "upd_queue q f k =
     k\<lparr>queues := (queues k)(q := f (queues k q)), g_fault := g_fault k \<or> q = NULL\<rparr>"

definition upd_buf_queue :: "oid \<Rightarrow> (kbuf_queue \<Rightarrow> kbuf_queue) \<Rightarrow> kernel \<Rightarrow> kernel" where
  "upd_buf_queue q f k =
     k\<lparr>buf_queues := (buf_queues k)(q := f (buf_queues k q)), g_fault := g_fault k \<or> q = NULL\<rparr>"

definition k_err_proc :: "kstat \<Rightarrow> kernel \<Rightarrow> kernel" where
  "k_err_proc e k = k\<lparr>g_err_log := g_err_log k @ [e]\<rparr>"

text \<open>Stores through the pointer arguments of the calls: bytes, and 32-bit little-endian
  words.\<close>

definition store_bytes :: "u32 \<Rightarrow> u8 list \<Rightarrow> kernel \<Rightarrow> kernel" where
  "store_bytes a bs k =
     k\<lparr>mem := (\<lambda>x. if unat (x - a) < length bs then bs ! unat (x - a) else mem k x),
       g_fault := g_fault k \<or> a = 0\<rparr>"

definition word_bytes :: "u32 \<Rightarrow> u8 list" where
  "word_bytes w = [le_byte 0 w, le_byte 1 w, le_byte 2 w, le_byte 3 w]"

definition store32 :: "u32 \<Rightarrow> u32 \<Rightarrow> kernel \<Rightarrow> kernel" where
  "store32 a v k = store_bytes a (word_bytes v) k"

definition load_bytes :: "u32 \<Rightarrow> nat \<Rightarrow> kernel \<Rightarrow> u8 list" where
  "load_bytes a n k = map (\<lambda>i. mem k (a + word_of_nat i)) [0..<n]"

definition load32 :: "u32 \<Rightarrow> kernel \<Rightarrow> u32" where
  "load32 a k = of_le_bytes (load_bytes a 4 k)"

section \<open>What an update leaves alone\<close>

lemma fault_sel [simp]:
  "g_sys_stat (fault k) = g_sys_stat k" "g_idle_task_spawned (fault k) = g_idle_task_spawned k"
  "cur_list_item (fault k) = cur_list_item k" "task_bit_map (fault k) = task_bit_map k"
  "highest_pri (fault k) = highest_pri k" "g_sched_lock (fault k) = g_sched_lock k"
  "g_intrpt_nested_level (fault k) = g_intrpt_nested_level k"
  "g_preferred_ready_task (fault k) = g_preferred_ready_task k"
  "g_active_task (fault k) = g_active_task k" "g_tick_count (fault k) = g_tick_count k"
  "g_tick_head (fault k) = g_tick_head k" "g_sys_time_tick (fault k) = g_sys_time_tick k"
  "tasks (fault k) = tasks k" "blk_objs (fault k) = blk_objs k" "mutexes (fault k) = mutexes k"
  "sems (fault k) = sems k" "events (fault k) = events k" "queues (fault k) = queues k"
  "buf_queues (fault k) = buf_queues k" "g_res_list (fault k) = g_res_list k"
  "mem (fault k) = mem k" "g_err_log (fault k) = g_err_log k" "g_fault (fault k) = True"
  by (simp_all add: fault_def)

lemma upd_task_sel [simp]:
  "g_sys_stat (upd_task t f k) = g_sys_stat k"
  "g_idle_task_spawned (upd_task t f k) = g_idle_task_spawned k"
  "cur_list_item (upd_task t f k) = cur_list_item k"
  "task_bit_map (upd_task t f k) = task_bit_map k" "highest_pri (upd_task t f k) = highest_pri k"
  "g_sched_lock (upd_task t f k) = g_sched_lock k"
  "g_intrpt_nested_level (upd_task t f k) = g_intrpt_nested_level k"
  "g_preferred_ready_task (upd_task t f k) = g_preferred_ready_task k"
  "g_active_task (upd_task t f k) = g_active_task k"
  "g_tick_count (upd_task t f k) = g_tick_count k" "g_tick_head (upd_task t f k) = g_tick_head k"
  "g_sys_time_tick (upd_task t f k) = g_sys_time_tick k"
  "tasks (upd_task t f k) = (tasks k)(t := f (tasks k t))"
  "blk_objs (upd_task t f k) = blk_objs k" "mutexes (upd_task t f k) = mutexes k"
  "sems (upd_task t f k) = sems k" "events (upd_task t f k) = events k"
  "queues (upd_task t f k) = queues k" "buf_queues (upd_task t f k) = buf_queues k"
  "g_res_list (upd_task t f k) = g_res_list k" "mem (upd_task t f k) = mem k"
  "g_err_log (upd_task t f k) = g_err_log k"
  "g_fault (upd_task t f k) = (g_fault k \<or> t = NULL)"
  by (simp_all add: upd_task_def)

lemma upd_blk_sel [simp]:
  "g_sys_stat (upd_blk b g k) = g_sys_stat k"
  "g_idle_task_spawned (upd_blk b g k) = g_idle_task_spawned k"
  "cur_list_item (upd_blk b g k) = cur_list_item k"
  "task_bit_map (upd_blk b g k) = task_bit_map k" "highest_pri (upd_blk b g k) = highest_pri k"
  "g_sched_lock (upd_blk b g k) = g_sched_lock k"
  "g_intrpt_nested_level (upd_blk b g k) = g_intrpt_nested_level k"
  "g_preferred_ready_task (upd_blk b g k) = g_preferred_ready_task k"
  "g_active_task (upd_blk b g k) = g_active_task k"
  "g_tick_count (upd_blk b g k) = g_tick_count k" "g_tick_head (upd_blk b g k) = g_tick_head k"
  "g_sys_time_tick (upd_blk b g k) = g_sys_time_tick k" "tasks (upd_blk b g k) = tasks k"
  "blk_objs (upd_blk b g k) = (blk_objs k)(b := g (blk_objs k b))"
  "mutexes (upd_blk b g k) = mutexes k" "sems (upd_blk b g k) = sems k"
  "events (upd_blk b g k) = events k" "queues (upd_blk b g k) = queues k"
  "buf_queues (upd_blk b g k) = buf_queues k" "g_res_list (upd_blk b g k) = g_res_list k"
  "mem (upd_blk b g k) = mem k" "g_err_log (upd_blk b g k) = g_err_log k"
  "g_fault (upd_blk b g k) = (g_fault k \<or> b = NULL)"
  by (simp_all add: upd_blk_def)

lemma upd_mutex_sel [simp]:
  "g_sys_stat (upd_mutex m h k) = g_sys_stat k"
  "g_idle_task_spawned (upd_mutex m h k) = g_idle_task_spawned k"
  "cur_list_item (upd_mutex m h k) = cur_list_item k"
  "task_bit_map (upd_mutex m h k) = task_bit_map k"
  "highest_pri (upd_mutex m h k) = highest_pri k"
  "g_sched_lock (upd_mutex m h k) = g_sched_lock k"
  "g_intrpt_nested_level (upd_mutex m h k) = g_intrpt_nested_level k"
  "g_preferred_ready_task (upd_mutex m h k) = g_preferred_ready_task k"
  "g_active_task (upd_mutex m h k) = g_active_task k"
  "g_tick_count (upd_mutex m h k) = g_tick_count k"
  "g_tick_head (upd_mutex m h k) = g_tick_head k"
  "g_sys_time_tick (upd_mutex m h k) = g_sys_time_tick k" "tasks (upd_mutex m h k) = tasks k"
  "blk_objs (upd_mutex m h k) = blk_objs k"
  "mutexes (upd_mutex m h k) = (mutexes k)(m := h (mutexes k m))"
  "sems (upd_mutex m h k) = sems k" "events (upd_mutex m h k) = events k"
  "queues (upd_mutex m h k) = queues k" "buf_queues (upd_mutex m h k) = buf_queues k"
  "g_res_list (upd_mutex m h k) = g_res_list k" "mem (upd_mutex m h k) = mem k"
  "g_err_log (upd_mutex m h k) = g_err_log k"
  "g_fault (upd_mutex m h k) = (g_fault k \<or> m = NULL)"
  by (simp_all add: upd_mutex_def)

lemma upd_sem_sel [simp]:
  "g_sys_stat (upd_sem s h k) = g_sys_stat k"
  "g_idle_task_spawned (upd_sem s h k) = g_idle_task_spawned k"
  "cur_list_item (upd_sem s h k) = cur_list_item k"
  "task_bit_map (upd_sem s h k) = task_bit_map k" "highest_pri (upd_sem s h k) = highest_pri k"
  "g_sched_lock (upd_sem s h k) = g_sched_lock k"
  "g_intrpt_nested_level (upd_sem s h k) = g_intrpt_nested_level k"
  "g_preferred_ready_task (upd_sem s h k) = g_preferred_ready_task k"
  "g_active_task (upd_sem s h k) = g_active_task k"
  "g_tick_count (upd_sem s h k) = g_tick_count k" "g_tick_head (upd_sem s h k) = g_tick_head k"
  "g_sys_time_tick (upd_sem s h k) = g_sys_time_tick k" "tasks (upd_sem s h k) = tasks k"
  "blk_objs (upd_sem s h k) = blk_objs k" "mutexes (upd_sem s h k) = mutexes k"
  "sems (upd_sem s h k) = (sems k)(s := h (sems k s))" "events (upd_sem s h k) = events k"
  "queues (upd_sem s h k) = queues k" "buf_queues (upd_sem s h k) = buf_queues k"
  "g_res_list (upd_sem s h k) = g_res_list k" "mem (upd_sem s h k) = mem k"
  "g_err_log (upd_sem s h k) = g_err_log k"
  "g_fault (upd_sem s h k) = (g_fault k \<or> s = NULL)"
  by (simp_all add: upd_sem_def)

lemma upd_event_sel [simp]:
  "g_sys_stat (upd_event e h k) = g_sys_stat k"
  "g_idle_task_spawned (upd_event e h k) = g_idle_task_spawned k"
  "cur_list_item (upd_event e h k) = cur_list_item k"
  "task_bit_map (upd_event e h k) = task_bit_map k"
  "highest_pri (upd_event e h k) = highest_pri k"
  "g_sched_lock (upd_event e h k) = g_sched_lock k"
  "g_intrpt_nested_level (upd_event e h k) = g_intrpt_nested_level k"
  "g_preferred_ready_task (upd_event e h k) = g_preferred_ready_task k"
  "g_active_task (upd_event e h k) = g_active_task k"
  "g_tick_count (upd_event e h k) = g_tick_count k"
  "g_tick_head (upd_event e h k) = g_tick_head k"
  "g_sys_time_tick (upd_event e h k) = g_sys_time_tick k" "tasks (upd_event e h k) = tasks k"
  "blk_objs (upd_event e h k) = blk_objs k" "mutexes (upd_event e h k) = mutexes k"
  "sems (upd_event e h k) = sems k" "events (upd_event e h k) = (events k)(e := h (events k e))"
  "queues (upd_event e h k) = queues k" "buf_queues (upd_event e h k) = buf_queues k"
  "g_res_list (upd_event e h k) = g_res_list k" "mem (upd_event e h k) = mem k"
  "g_err_log (upd_event e h k) = g_err_log k"
  "g_fault (upd_event e h k) = (g_fault k \<or> e = NULL)"
  by (simp_all add: upd_event_def)

lemma upd_queue_sel [simp]:
  "g_sys_stat (upd_queue q h k) = g_sys_stat k"
  "g_idle_task_spawned (upd_queue q h k) = g_idle_task_spawned k"
  "cur_list_item (upd_queue q h k) = cur_list_item k"
  "task_bit_map (upd_queue q h k) = task_bit_map k"
  "highest_pri (upd_queue q h k) = highest_pri k"
  "g_sched_lock (upd_queue q h k) = g_sched_lock k"
  "g_intrpt_nested_level (upd_queue q h k) = g_intrpt_nested_level k"
  "g_preferred_ready_task (upd_queue q h k) = g_preferred_ready_task k"
  "g_active_task (upd_queue q h k) = g_active_task k"
  "g_tick_count (upd_queue q h k) = g_tick_count k"
  "g_tick_head (upd_queue q h k) = g_tick_head k"
  "g_sys_time_tick (upd_queue q h k) = g_sys_time_tick k" "tasks (upd_queue q h k) = tasks k"
  "blk_objs (upd_queue q h k) = blk_objs k" "mutexes (upd_queue q h k) = mutexes k"
  "sems (upd_queue q h k) = sems k" "events (upd_queue q h k) = events k"
  "queues (upd_queue q h k) = (queues k)(q := h (queues k q))"
  "buf_queues (upd_queue q h k) = buf_queues k" "g_res_list (upd_queue q h k) = g_res_list k"
  "mem (upd_queue q h k) = mem k" "g_err_log (upd_queue q h k) = g_err_log k"
  "g_fault (upd_queue q h k) = (g_fault k \<or> q = NULL)"
  by (simp_all add: upd_queue_def)

lemma upd_buf_queue_sel [simp]:
  "g_sys_stat (upd_buf_queue q h k) = g_sys_stat k"
  "g_idle_task_spawned (upd_buf_queue q h k) = g_idle_task_spawned k"
  "cur_list_item (upd_buf_queue q h k) = cur_list_item k"
  "task_bit_map (upd_buf_queue q h k) = task_bit_map k"
  "highest_pri (upd_buf_queue q h k) = highest_pri k"
  "g_sched_lock (upd_buf_queue q h k) = g_sched_lock k"
  "g_intrpt_nested_level (upd_buf_queue q h k) = g_intrpt_nested_level k"
  "g_preferred_ready_task (upd_buf_queue q h k) = g_preferred_ready_task k"
  "g_active_task (upd_buf_queue q h k) = g_active_task k"
  "g_tick_count (upd_buf_queue q h k) = g_tick_count k"
  "g_tick_head (upd_buf_queue q h k) = g_tick_head k"
  "g_sys_time_tick (upd_buf_queue q h k) = g_sys_time_tick k"
  "tasks (upd_buf_queue q h k) = tasks k" "blk_objs (upd_buf_queue q h k) = blk_objs k"
  "mutexes (upd_buf_queue q h k) = mutexes k" "sems (upd_buf_queue q h k) = sems k"
  "events (upd_buf_queue q h k) = events k" "queues (upd_buf_queue q h k) = queues k"
  "buf_queues (upd_buf_queue q h k) = (buf_queues k)(q := h (buf_queues k q))"
  "g_res_list (upd_buf_queue q h k) = g_res_list k" "mem (upd_buf_queue q h k) = mem k"
  "g_err_log (upd_buf_queue q h k) = g_err_log k"
  "g_fault (upd_buf_queue q h k) = (g_fault k \<or> q = NULL)"
  by (simp_all add: upd_buf_queue_def)

lemma k_err_proc_sel [simp]:
  "g_sys_stat (k_err_proc e k) = g_sys_stat k"
  "g_idle_task_spawned (k_err_proc e k) = g_idle_task_spawned k"
  "cur_list_item (k_err_proc e k) = cur_list_item k"
  "task_bit_map (k_err_proc e k) = task_bit_map k" "highest_pri (k_err_proc e k) = highest_pri k"
  "g_sched_lock (k_err_proc e k) = g_sched_lock k"
  "g_intrpt_nested_level (k_err_proc e k) = g_intrpt_nested_level k"
  "g_preferred_ready_task (k_err_proc e k) = g_preferred_ready_task k"
  "g_active_task (k_err_proc e k) = g_active_task k"
  "g_tick_count (k_err_proc e k) = g_tick_count k" "g_tick_head (k_err_proc e k) = g_tick_head k"
  "g_sys_time_tick (k_err_proc e k) = g_sys_time_tick k" "tasks (k_err_proc e k) = tasks k"
  "blk_objs (k_err_proc e k) = blk_objs k" "mutexes (k_err_proc e k) = mutexes k"
  "sems (k_err_proc e k) = sems k" "events (k_err_proc e k) = events k"
  "queues (k_err_proc e k) = queues k" "buf_queues (k_err_proc e k) = buf_queues k"
  "g_res_list (k_err_proc e k) = g_res_list k" "mem (k_err_proc e k) = mem k"
  "g_err_log (k_err_proc e k) = g_err_log k @ [e]" "g_fault (k_err_proc e k) = g_fault k"
  by (simp_all add: k_err_proc_def)

lemma store_bytes_sel [simp]:
  "g_sys_stat (store_bytes a bs k) = g_sys_stat k"
  "g_idle_task_spawned (store_bytes a bs k) = g_idle_task_spawned k"
  "cur_list_item (store_bytes a bs k) = cur_list_item k"
  "task_bit_map (store_bytes a bs k) = task_bit_map k"
  "highest_pri (store_bytes a bs k) = highest_pri k"
  "g_sched_lock (store_bytes a bs k) = g_sched_lock k"
  "g_intrpt_nested_level (store_bytes a bs k) = g_intrpt_nested_level k"
  "g_preferred_ready_task (store_bytes a bs k) = g_preferred_ready_task k"
  "g_active_task (store_bytes a bs k) = g_active_task k"
  "g_tick_count (store_bytes a bs k) = g_tick_count k"
  "g_tick_head (store_bytes a bs k) = g_tick_head k"
  "g_sys_time_tick (store_bytes a bs k) = g_sys_time_tick k"
  "tasks (store_bytes a bs k) = tasks k" "blk_objs (store_bytes a bs k) = blk_objs k"
  "mutexes (store_bytes a bs k) = mutexes k" "sems (store_bytes a bs k) = sems k"
  "events (store_bytes a bs k) = events k" "queues (store_bytes a bs k) = queues k"
  "buf_queues (store_bytes a bs k) = buf_queues k"
  "g_res_list (store_bytes a bs k) = g_res_list k" "g_err_log (store_bytes a bs k) = g_err_log k"
  "g_fault (store_bytes a bs k) = (g_fault k \<or> a = 0)"
  by (simp_all add: store_bytes_def)

lemma store32_sel [simp]:
  "g_sys_stat (store32 a v k) = g_sys_stat k"
  "g_idle_task_spawned (store32 a v k) = g_idle_task_spawned k"
  "cur_list_item (store32 a v k) = cur_list_item k"
  "task_bit_map (store32 a v k) = task_bit_map k" "highest_pri (store32 a v k) = highest_pri k"
  "g_sched_lock (store32 a v k) = g_sched_lock k"
  "g_intrpt_nested_level (store32 a v k) = g_intrpt_nested_level k"
  "g_preferred_ready_task (store32 a v k) = g_preferred_ready_task k"
  "g_active_task (store32 a v k) = g_active_task k"
  "g_tick_count (store32 a v k) = g_tick_count k" "g_tick_head (store32 a v k) = g_tick_head k"
  "g_sys_time_tick (store32 a v k) = g_sys_time_tick k" "tasks (store32 a v k) = tasks k"
  "blk_objs (store32 a v k) = blk_objs k" "mutexes (store32 a v k) = mutexes k"
  "sems (store32 a v k) = sems k" "events (store32 a v k) = events k"
  "queues (store32 a v k) = queues k" "buf_queues (store32 a v k) = buf_queues k"
  "g_res_list (store32 a v k) = g_res_list k" "g_err_log (store32 a v k) = g_err_log k"
  "g_fault (store32 a v k) = (g_fault k \<or> a = 0)"
  by (simp_all add: store32_def store_bytes_def)

section \<open>Event flags\<close>

definition RHINO_FLAGS_AND_MASK :: u8 where
  "RHINO_FLAGS_AND_MASK = 2"

definition RHINO_FLAGS_CLEAR_MASK :: u8 where
  "RHINO_FLAGS_CLEAR_MASK = 1"

text \<open>Whether the flags of an event meet what a caller or a waiting task asks for.\<close>

definition flags_met :: "u8 \<Rightarrow> u32 \<Rightarrow> u32 \<Rightarrow> bool" where
  "flags_met opt flags cur_flags =
     (if opt AND RHINO_FLAGS_AND_MASK \<noteq> 0 then (cur_flags AND flags) = flags
      else (cur_flags AND flags) \<noteq> 0)"

section \<open>Memory\<close>

text \<open>What is stored is read back, and other addresses keep their contents.\<close>

lemma length_word_bytes [simp]: "length (word_bytes v) = 4"
  by (simp add: word_bytes_def)

lemma load_store_bytes: "length bs \<le> 2 ^ 32 \<Longrightarrow> load_bytes a (length bs) (store_bytes a bs k) = bs"
  by (rule nth_equalityI) (simp_all add: load_bytes_def store_bytes_def unat_of_nat)

lemma load_store32: "load32 a (store_bytes a (word_bytes w) k) = w"
proof -
  have "of_le_bytes (word_bytes w) = w" unfolding word_bytes_def by (rule of_le_bytes_le_byte)
  then show ?thesis using load_store_bytes [of "word_bytes w" a k] by (simp add: load32_def)
qed

lemma load_bytes_store32:
  assumes "\<forall>i < n. 4 \<le> unat (a + word_of_nat i - b)"
  shows "load_bytes a n (store32 b v k) = load_bytes a n k"
  using assms by (auto simp: load_bytes_def store32_def store_bytes_def word_bytes_def)

definition apart :: "u32 \<Rightarrow> nat \<Rightarrow> u32 \<Rightarrow> nat \<Rightarrow> bool" where
  "apart a n b m \<longleftrightarrow> unat a + n \<le> 2 ^ 32 \<and> unat b + m \<le> 2 ^ 32 \<and> (unat a + n \<le> unat b \<or> unat b + m \<le> unat a)"

lemma mem_apart:
  assumes "apart a n b (length bs)" and "i < n"
  shows "mem (store_bytes b bs k) (a + word_of_nat i) = mem k (a + word_of_nat i)"
proof -
  have i: "unat (word_of_nat i :: u32) = i" "unat (a + word_of_nat i) = unat a + i"
    using assms by (auto simp: apart_def unat_of_nat unat_word_ariths)
  have "length bs \<le> unat (a + word_of_nat i - b)"
    using assms i by (auto simp: apart_def unat_sub_if')
  then show ?thesis by (simp add: store_bytes_def)
qed

lemma load32_apart: "apart a 4 b (length bs) \<Longrightarrow> load32 a (store_bytes b bs k) = load32 a k"
  unfolding load32_def load_bytes_def by (rule arg_cong [of _ _ of_le_bytes]) (simp add: mem_apart [of a 4])

lemma load32_store32: "load32 a (store32 a v k) = v"
  by (simp add: store32_def load_store32)

lemma load32_store32_apart: "apart a 4 b 4 \<Longrightarrow> load32 a (store32 b v k) = load32 a k"
  by (simp add: store32_def load32_apart)

end
