(* ===== verification/Rhino_Sched.thy ===== *)
theory Rhino_Sched
  imports Rhino_State
begin

text \<open>
  The ready queue and the scheduler of \<^verbatim>\<open>k_sched.c\<close>, in the single-CPU configuration with
  round-robin time slices. \<open>rq_ok A k\<close> says that the ready queue of \<open>k\<close> holds exactly the
  tasks in \<open>A\<close>: the component promises it to the blocking and waking operations, which are
  stated in terms of the set only.
\<close>

section \<open>The ready queue\<close>

definition set_cur_list_item :: "nat \<Rightarrow> tid list \<Rightarrow> kernel \<Rightarrow> kernel" where
  "set_cur_list_item p xs k = k\<lparr>cur_list_item := (cur_list_item k)(p := xs)\<rparr>"

definition runqueue_init :: "kernel \<Rightarrow> kernel" where
  "runqueue_init k = k\<lparr>highest_pri := RHINO_CONFIG_PRI_MAX,
     cur_list_item := (\<lambda>p. if p < RHINO_CONFIG_PRI_MAX then [] else cur_list_item k p)\<rparr>"

definition ready_list_init :: "tid \<Rightarrow> kernel \<Rightarrow> kernel" where
  "ready_list_init t k =
     (let p = prio (tasks k t);
          k = set_cur_list_item p [t] k;
          k = k\<lparr>task_bit_map := krhino_bitmap_set (task_bit_map k) p\<rparr>
      in if p < highest_pri k then k\<lparr>highest_pri := p\<rparr> else k)"

definition is_ready_list_empty :: "nat \<Rightarrow> kernel \<Rightarrow> bool" where
  "is_ready_list_empty p k \<longleftrightarrow> cur_list_item k p = []"

definition ready_list_add_tail :: "tid \<Rightarrow> kernel \<Rightarrow> kernel" where
  "ready_list_add_tail t k =
     (let p = prio (tasks k t)
      in if is_ready_list_empty p k then ready_list_init t k
         else set_cur_list_item p (cur_list_item k p @ [t]) k)"

definition ready_list_add_head :: "tid \<Rightarrow> kernel \<Rightarrow> kernel" where
  "ready_list_add_head t k =
     (let p = prio (tasks k t)
      in if is_ready_list_empty p k then ready_list_init t k
         else set_cur_list_item p (t # cur_list_item k p) k)"

definition ready_list_add :: "tid \<Rightarrow> kernel \<Rightarrow> kernel" where
  "ready_list_add t k =
     (if g_active_task k = NULL then fault k
      else if prio (tasks k t) = prio (tasks k (g_active_task k)) then ready_list_add_tail t k
      else ready_list_add_head t k)"

text \<open>
  \<^verbatim>\<open>ready_list_rm\<close> looks at the list of the task's priority: a list with one item becomes
  empty whatever the item is, a longer one loses the task. The search for the next bit does
  not stop when no bit is set.
\<close>

definition ready_list_rm :: "tid \<Rightarrow> kernel \<Rightarrow> kernel" where
  "ready_list_rm t k =
     (let pri = prio (tasks k t)
      in if t \<notin> set (cur_list_item k pri) then fault k
         else if length (cur_list_item k pri) \<noteq> 1
         then set_cur_list_item pri (remove1 t (cur_list_item k pri)) k
         else
           let k = set_cur_list_item pri [] k;
               k = k\<lparr>task_bit_map := krhino_bitmap_clear (task_bit_map k) pri\<rparr>
           in if pri \<noteq> highest_pri k then k
              else (case krhino_find_first_bit (task_bit_map k) of
                      Some i \<Rightarrow> k\<lparr>highest_pri := i\<rparr>
                    | None \<Rightarrow> fault k))"

definition ready_list_head_to_tail :: "tid \<Rightarrow> kernel \<Rightarrow> kernel" where
  "ready_list_head_to_tail t k =
     (let p = prio (tasks k t)
      in if cur_list_item k p = [] then fault k
         else set_cur_list_item p (rotate1 (cur_list_item k p)) k)"

section \<open>Scheduling\<close>

definition preferred_cpu_ready_task_get :: "kernel \<Rightarrow> kernel" where
  "preferred_cpu_ready_task_get k =
     (case cur_list_item k (highest_pri k) of
        [] \<Rightarrow> fault k
      | t # _ \<Rightarrow> k\<lparr>g_preferred_ready_task := t\<rparr>)"

text \<open>The context switch of the port runs the preferred task.\<close>

definition cpu_task_switch :: "kernel \<Rightarrow> kernel" where
  "cpu_task_switch k = k\<lparr>g_active_task := g_preferred_ready_task k\<rparr>"

definition core_sched :: "kernel \<Rightarrow> kernel" where
  "core_sched k =
     (if g_intrpt_nested_level k > 0 then k
      else if g_sched_lock k > 0 then k
      else
        let k = preferred_cpu_ready_task_get k
        in if g_preferred_ready_task k = g_active_task k then k else cpu_task_switch k)"

definition krhino_sched_disable :: "kernel \<Rightarrow> kstat \<times> kernel" where
  "krhino_sched_disable k =
     (if g_intrpt_nested_level k > 0 then (RHINO_NOT_CALLED_BY_INTRPT, k)
      else if g_sched_lock k \<ge> SCHED_MAX_LOCK_COUNT then (RHINO_SCHED_LOCK_COUNT_OVF, k)
      else (RHINO_SUCCESS, k\<lparr>g_sched_lock := g_sched_lock k + 1\<rparr>))"

definition krhino_sched_enable :: "kernel \<Rightarrow> kstat \<times> kernel" where
  "krhino_sched_enable k =
     (if g_intrpt_nested_level k > 0 then (RHINO_NOT_CALLED_BY_INTRPT, k)
      else if g_sched_lock k = 0 then (RHINO_SCHED_ALREADY_ENABLED, k)
      else
        let k = k\<lparr>g_sched_lock := g_sched_lock k - 1\<rparr>
        in if g_sched_lock k > 0 then (RHINO_SCHED_DISABLE, k)
           else (RHINO_SUCCESS, core_sched k))"

definition time_slice_update :: "nat \<Rightarrow> kernel \<Rightarrow> kernel" where
  "time_slice_update task_pri k =
     (case cur_list_item k task_pri of
        [] \<Rightarrow> k
      | task # rest \<Rightarrow>
          if sched_policy (tasks k task) = KSCHED_FIFO then k
          else if rest = [] then k
          else
            let k = (if task_time_slice (tasks k task) > 0
                     then upd_task task (\<lambda>t. t\<lparr>task_time_slice := task_time_slice t - 1\<rparr>) k else k)
            in if task_time_slice (tasks k task) > 0 then k
               else
                 let k = ready_list_head_to_tail task k
                 in upd_task task (\<lambda>t. t\<lparr>task_time_slice := time_total t\<rparr>) k)"

section \<open>Frame\<close>

lemma set_cur_list_item_frame [simp]:
  "g_sys_stat (set_cur_list_item p xs k) = g_sys_stat k"
  "g_idle_task_spawned (set_cur_list_item p xs k) = g_idle_task_spawned k"
  "task_bit_map (set_cur_list_item p xs k) = task_bit_map k"
  "highest_pri (set_cur_list_item p xs k) = highest_pri k"
  "g_sched_lock (set_cur_list_item p xs k) = g_sched_lock k"
  "g_intrpt_nested_level (set_cur_list_item p xs k) = g_intrpt_nested_level k"
  "g_preferred_ready_task (set_cur_list_item p xs k) = g_preferred_ready_task k"
  "g_active_task (set_cur_list_item p xs k) = g_active_task k"
  "g_tick_count (set_cur_list_item p xs k) = g_tick_count k"
  "g_tick_head (set_cur_list_item p xs k) = g_tick_head k"
  "g_sys_time_tick (set_cur_list_item p xs k) = g_sys_time_tick k"
  "tasks (set_cur_list_item p xs k) = tasks k" "blk_objs (set_cur_list_item p xs k) = blk_objs k"
  "mutexes (set_cur_list_item p xs k) = mutexes k" "sems (set_cur_list_item p xs k) = sems k"
  "events (set_cur_list_item p xs k) = events k" "queues (set_cur_list_item p xs k) = queues k"
  "buf_queues (set_cur_list_item p xs k) = buf_queues k"
  "g_res_list (set_cur_list_item p xs k) = g_res_list k" "mem (set_cur_list_item p xs k) = mem k"
  "g_err_log (set_cur_list_item p xs k) = g_err_log k"
  "g_fault (set_cur_list_item p xs k) = g_fault k"
  by (simp_all add: set_cur_list_item_def)

lemma set_cur_list_item_same [simp]:
  "cur_list_item (set_cur_list_item p xs k) = (cur_list_item k)(p := xs)"
  by (simp add: set_cur_list_item_def)

lemma ready_list_init_frame [simp]:
  "g_sys_stat (ready_list_init t k) = g_sys_stat k"
  "g_idle_task_spawned (ready_list_init t k) = g_idle_task_spawned k"
  "g_sched_lock (ready_list_init t k) = g_sched_lock k"
  "g_intrpt_nested_level (ready_list_init t k) = g_intrpt_nested_level k"
  "g_preferred_ready_task (ready_list_init t k) = g_preferred_ready_task k"
  "g_active_task (ready_list_init t k) = g_active_task k"
  "g_tick_count (ready_list_init t k) = g_tick_count k"
  "g_tick_head (ready_list_init t k) = g_tick_head k"
  "g_sys_time_tick (ready_list_init t k) = g_sys_time_tick k"
  "tasks (ready_list_init t k) = tasks k" "blk_objs (ready_list_init t k) = blk_objs k"
  "mutexes (ready_list_init t k) = mutexes k" "sems (ready_list_init t k) = sems k"
  "events (ready_list_init t k) = events k" "queues (ready_list_init t k) = queues k"
  "buf_queues (ready_list_init t k) = buf_queues k"
  "g_res_list (ready_list_init t k) = g_res_list k" "mem (ready_list_init t k) = mem k"
  "g_err_log (ready_list_init t k) = g_err_log k" "g_fault (ready_list_init t k) = g_fault k"
  by (simp_all add: ready_list_init_def Let_def)

lemma ready_list_add_tail_frame [simp]:
  "g_sys_stat (ready_list_add_tail t k) = g_sys_stat k"
  "g_idle_task_spawned (ready_list_add_tail t k) = g_idle_task_spawned k"
  "g_sched_lock (ready_list_add_tail t k) = g_sched_lock k"
  "g_intrpt_nested_level (ready_list_add_tail t k) = g_intrpt_nested_level k"
  "g_preferred_ready_task (ready_list_add_tail t k) = g_preferred_ready_task k"
  "g_active_task (ready_list_add_tail t k) = g_active_task k"
  "g_tick_count (ready_list_add_tail t k) = g_tick_count k"
  "g_tick_head (ready_list_add_tail t k) = g_tick_head k"
  "g_sys_time_tick (ready_list_add_tail t k) = g_sys_time_tick k"
  "tasks (ready_list_add_tail t k) = tasks k" "blk_objs (ready_list_add_tail t k) = blk_objs k"
  "mutexes (ready_list_add_tail t k) = mutexes k" "sems (ready_list_add_tail t k) = sems k"
  "events (ready_list_add_tail t k) = events k" "queues (ready_list_add_tail t k) = queues k"
  "buf_queues (ready_list_add_tail t k) = buf_queues k"
  "g_res_list (ready_list_add_tail t k) = g_res_list k" "mem (ready_list_add_tail t k) = mem k"
  "g_err_log (ready_list_add_tail t k) = g_err_log k"
  "g_fault (ready_list_add_tail t k) = g_fault k"
  by (simp_all add: ready_list_add_tail_def Let_def)

lemma ready_list_add_head_frame [simp]:
  "g_sys_stat (ready_list_add_head t k) = g_sys_stat k"
  "g_idle_task_spawned (ready_list_add_head t k) = g_idle_task_spawned k"
  "g_sched_lock (ready_list_add_head t k) = g_sched_lock k"
  "g_intrpt_nested_level (ready_list_add_head t k) = g_intrpt_nested_level k"
  "g_preferred_ready_task (ready_list_add_head t k) = g_preferred_ready_task k"
  "g_active_task (ready_list_add_head t k) = g_active_task k"
  "g_tick_count (ready_list_add_head t k) = g_tick_count k"
  "g_tick_head (ready_list_add_head t k) = g_tick_head k"
  "g_sys_time_tick (ready_list_add_head t k) = g_sys_time_tick k"
  "tasks (ready_list_add_head t k) = tasks k" "blk_objs (ready_list_add_head t k) = blk_objs k"
  "mutexes (ready_list_add_head t k) = mutexes k" "sems (ready_list_add_head t k) = sems k"
  "events (ready_list_add_head t k) = events k" "queues (ready_list_add_head t k) = queues k"
  "buf_queues (ready_list_add_head t k) = buf_queues k"
  "g_res_list (ready_list_add_head t k) = g_res_list k" "mem (ready_list_add_head t k) = mem k"
  "g_err_log (ready_list_add_head t k) = g_err_log k"
  "g_fault (ready_list_add_head t k) = g_fault k"
  by (simp_all add: ready_list_add_head_def Let_def)

lemma ready_list_add_frame [simp]:
  "g_sys_stat (ready_list_add t k) = g_sys_stat k"
  "g_idle_task_spawned (ready_list_add t k) = g_idle_task_spawned k"
  "g_sched_lock (ready_list_add t k) = g_sched_lock k"
  "g_intrpt_nested_level (ready_list_add t k) = g_intrpt_nested_level k"
  "g_preferred_ready_task (ready_list_add t k) = g_preferred_ready_task k"
  "g_active_task (ready_list_add t k) = g_active_task k"
  "g_tick_count (ready_list_add t k) = g_tick_count k"
  "g_tick_head (ready_list_add t k) = g_tick_head k"
  "g_sys_time_tick (ready_list_add t k) = g_sys_time_tick k"
  "tasks (ready_list_add t k) = tasks k" "blk_objs (ready_list_add t k) = blk_objs k"
  "mutexes (ready_list_add t k) = mutexes k" "sems (ready_list_add t k) = sems k"
  "events (ready_list_add t k) = events k" "queues (ready_list_add t k) = queues k"
  "buf_queues (ready_list_add t k) = buf_queues k"
  "g_res_list (ready_list_add t k) = g_res_list k" "mem (ready_list_add t k) = mem k"
  "g_err_log (ready_list_add t k) = g_err_log k"
  by (simp_all add: ready_list_add_def)

lemma ready_list_add_fault [simp]:
  "g_fault (ready_list_add t k) \<longleftrightarrow> g_fault k \<or> g_active_task k = NULL"
  by (simp add: ready_list_add_def)

lemma ready_list_rm_frame [simp]:
  "g_sys_stat (ready_list_rm t k) = g_sys_stat k"
  "g_idle_task_spawned (ready_list_rm t k) = g_idle_task_spawned k"
  "g_sched_lock (ready_list_rm t k) = g_sched_lock k"
  "g_intrpt_nested_level (ready_list_rm t k) = g_intrpt_nested_level k"
  "g_preferred_ready_task (ready_list_rm t k) = g_preferred_ready_task k"
  "g_active_task (ready_list_rm t k) = g_active_task k"
  "g_tick_count (ready_list_rm t k) = g_tick_count k"
  "g_tick_head (ready_list_rm t k) = g_tick_head k"
  "g_sys_time_tick (ready_list_rm t k) = g_sys_time_tick k" "tasks (ready_list_rm t k) = tasks k"
  "blk_objs (ready_list_rm t k) = blk_objs k" "mutexes (ready_list_rm t k) = mutexes k"
  "sems (ready_list_rm t k) = sems k" "events (ready_list_rm t k) = events k"
  "queues (ready_list_rm t k) = queues k" "buf_queues (ready_list_rm t k) = buf_queues k"
  "g_res_list (ready_list_rm t k) = g_res_list k" "mem (ready_list_rm t k) = mem k"
  "g_err_log (ready_list_rm t k) = g_err_log k"
  by (simp_all add: ready_list_rm_def Let_def split: option.split)

lemma ready_list_head_to_tail_frame [simp]:
  "g_sys_stat (ready_list_head_to_tail t k) = g_sys_stat k"
  "g_idle_task_spawned (ready_list_head_to_tail t k) = g_idle_task_spawned k"
  "task_bit_map (ready_list_head_to_tail t k) = task_bit_map k"
  "highest_pri (ready_list_head_to_tail t k) = highest_pri k"
  "g_sched_lock (ready_list_head_to_tail t k) = g_sched_lock k"
  "g_intrpt_nested_level (ready_list_head_to_tail t k) = g_intrpt_nested_level k"
  "g_preferred_ready_task (ready_list_head_to_tail t k) = g_preferred_ready_task k"
  "g_active_task (ready_list_head_to_tail t k) = g_active_task k"
  "g_tick_count (ready_list_head_to_tail t k) = g_tick_count k"
  "g_tick_head (ready_list_head_to_tail t k) = g_tick_head k"
  "g_sys_time_tick (ready_list_head_to_tail t k) = g_sys_time_tick k"
  "tasks (ready_list_head_to_tail t k) = tasks k"
  "blk_objs (ready_list_head_to_tail t k) = blk_objs k"
  "mutexes (ready_list_head_to_tail t k) = mutexes k"
  "sems (ready_list_head_to_tail t k) = sems k" "events (ready_list_head_to_tail t k) = events k"
  "queues (ready_list_head_to_tail t k) = queues k"
  "buf_queues (ready_list_head_to_tail t k) = buf_queues k"
  "g_res_list (ready_list_head_to_tail t k) = g_res_list k"
  "mem (ready_list_head_to_tail t k) = mem k"
  "g_err_log (ready_list_head_to_tail t k) = g_err_log k"
  by (simp_all add: ready_list_head_to_tail_def Let_def)

lemma preferred_get_frame [simp]:
  "g_sys_stat (preferred_cpu_ready_task_get k) = g_sys_stat k"
  "g_idle_task_spawned (preferred_cpu_ready_task_get k) = g_idle_task_spawned k"
  "cur_list_item (preferred_cpu_ready_task_get k) = cur_list_item k"
  "task_bit_map (preferred_cpu_ready_task_get k) = task_bit_map k"
  "highest_pri (preferred_cpu_ready_task_get k) = highest_pri k"
  "g_sched_lock (preferred_cpu_ready_task_get k) = g_sched_lock k"
  "g_intrpt_nested_level (preferred_cpu_ready_task_get k) = g_intrpt_nested_level k"
  "g_active_task (preferred_cpu_ready_task_get k) = g_active_task k"
  "g_tick_count (preferred_cpu_ready_task_get k) = g_tick_count k"
  "g_tick_head (preferred_cpu_ready_task_get k) = g_tick_head k"
  "g_sys_time_tick (preferred_cpu_ready_task_get k) = g_sys_time_tick k"
  "tasks (preferred_cpu_ready_task_get k) = tasks k"
  "blk_objs (preferred_cpu_ready_task_get k) = blk_objs k"
  "mutexes (preferred_cpu_ready_task_get k) = mutexes k"
  "sems (preferred_cpu_ready_task_get k) = sems k"
  "events (preferred_cpu_ready_task_get k) = events k"
  "queues (preferred_cpu_ready_task_get k) = queues k"
  "buf_queues (preferred_cpu_ready_task_get k) = buf_queues k"
  "g_res_list (preferred_cpu_ready_task_get k) = g_res_list k"
  "mem (preferred_cpu_ready_task_get k) = mem k"
  "g_err_log (preferred_cpu_ready_task_get k) = g_err_log k"
  by (simp_all add: preferred_cpu_ready_task_get_def split: list.split)

lemma core_sched_frame [simp]:
  "g_sys_stat (core_sched k) = g_sys_stat k"
  "g_idle_task_spawned (core_sched k) = g_idle_task_spawned k"
  "cur_list_item (core_sched k) = cur_list_item k" "task_bit_map (core_sched k) = task_bit_map k"
  "highest_pri (core_sched k) = highest_pri k" "g_sched_lock (core_sched k) = g_sched_lock k"
  "g_intrpt_nested_level (core_sched k) = g_intrpt_nested_level k"
  "g_tick_count (core_sched k) = g_tick_count k" "g_tick_head (core_sched k) = g_tick_head k"
  "g_sys_time_tick (core_sched k) = g_sys_time_tick k" "tasks (core_sched k) = tasks k"
  "blk_objs (core_sched k) = blk_objs k" "mutexes (core_sched k) = mutexes k"
  "sems (core_sched k) = sems k" "events (core_sched k) = events k"
  "queues (core_sched k) = queues k" "buf_queues (core_sched k) = buf_queues k"
  "g_res_list (core_sched k) = g_res_list k" "mem (core_sched k) = mem k"
  "g_err_log (core_sched k) = g_err_log k"
  by (simp_all add: core_sched_def cpu_task_switch_def Let_def)

section \<open>The contract of the ready queue\<close>

definition rq_ok :: "tid set \<Rightarrow> kernel \<Rightarrow> bool" where
  "rq_ok A k \<longleftrightarrow>
     (\<forall>p. distinct (cur_list_item k p) \<and> set (cur_list_item k p) = {t \<in> A. prio (tasks k t) = p}) \<and>
     (\<forall>t \<in> A. prio (tasks k t) < RHINO_CONFIG_PRI_MAX) \<and>
     length (task_bit_map k) = NUM_WORDS \<and>
     (\<forall>p < 32 * NUM_WORDS. bitmap_test (task_bit_map k) p \<longleftrightarrow> cur_list_item k p \<noteq> []) \<and>
     (if A = {} then highest_pri k = RHINO_CONFIG_PRI_MAX
      else cur_list_item k (highest_pri k) \<noteq> [] \<and> (\<forall>p < highest_pri k. cur_list_item k p = []))"

lemma rq_okD:
  assumes "rq_ok A k"
  shows "distinct (cur_list_item k p)" and "set (cur_list_item k p) = {t \<in> A. prio (tasks k t) = p}"
    and "t \<in> A \<Longrightarrow> prio (tasks k t) < RHINO_CONFIG_PRI_MAX" and "length (task_bit_map k) = NUM_WORDS"
    and "p < 32 * NUM_WORDS \<Longrightarrow> bitmap_test (task_bit_map k) p \<longleftrightarrow> cur_list_item k p \<noteq> []"
    and "A \<noteq> {} \<Longrightarrow> cur_list_item k (highest_pri k) \<noteq> []"
    and "A \<noteq> {} \<Longrightarrow> p < highest_pri k \<Longrightarrow> cur_list_item k p = []"
    and "A = {} \<Longrightarrow> highest_pri k = RHINO_CONFIG_PRI_MAX"
  using assms by (auto simp: rq_ok_def)

lemma pri_max_bits: "p < RHINO_CONFIG_PRI_MAX \<Longrightarrow> p < 32 * NUM_WORDS"
  by (simp add: konst)

lemma rq_ok_cong:
  assumes "cur_list_item k' = cur_list_item k" and "task_bit_map k' = task_bit_map k"
    and "highest_pri k' = highest_pri k" and "\<forall>t \<in> A. prio (tasks k' t) = prio (tasks k t)"
  shows "rq_ok A k' \<longleftrightarrow> rq_ok A k"
proof -
  have "{t \<in> A. prio (tasks k' t) = p} = {t \<in> A. prio (tasks k t) = p}" for p
    using assms(4) by auto
  then show ?thesis using assms by (simp add: rq_ok_def)
qed

lemma rq_ok_mem: "rq_ok A k \<Longrightarrow> t \<in> set (cur_list_item k p) \<longleftrightarrow> t \<in> A \<and> prio (tasks k t) = p"
  using rq_okD(2) by fastforce

lemma rq_highest_le: "rq_ok A k \<Longrightarrow> t \<in> A \<Longrightarrow> highest_pri k \<le> prio (tasks k t)"
proof (rule ccontr)
  assume "rq_ok A k" "t \<in> A" "\<not> highest_pri k \<le> prio (tasks k t)"
  then have "cur_list_item k (prio (tasks k t)) = []" by (intro rq_okD(7)) auto
  moreover have "t \<in> set (cur_list_item k (prio (tasks k t)))"
    using \<open>rq_ok A k\<close> \<open>t \<in> A\<close> by (simp add: rq_ok_mem)
  ultimately show False by simp
qed

text \<open>Replacing the list of one non-empty priority by a list with other elements.\<close>

lemma rq_set_cur:
  assumes rq: "rq_ok A k" and p: "p < RHINO_CONFIG_PRI_MAX" and ne: "cur_list_item k p \<noteq> []"
    and xs: "xs \<noteq> []" "distinct xs" "set xs = {t \<in> B. prio (tasks k t) = p}"
    and other: "\<And>t. prio (tasks k t) \<noteq> p \<Longrightarrow> t \<in> B \<longleftrightarrow> t \<in> A"
  shows "rq_ok B (set_cur_list_item p xs k)"
proof -
  have A: "A \<noteq> {}" using rq_okD(2) [OF rq, of p] ne by fastforce
  have B: "B \<noteq> {}" using xs by force
  have "{t \<in> B. prio (tasks k t) = q} = {t \<in> A. prio (tasks k t) = q}" if "q \<noteq> p" for q
    using that other by blast
  then have lists: "set (((cur_list_item k)(p := xs)) q) = {t \<in> B. prio (tasks k t) = q}" for q
    using rq_okD(2) [OF rq] xs(3) by simp
  have bound: "\<forall>t \<in> B. prio (tasks k t) < RHINO_CONFIG_PRI_MAX"
    using p other rq_okD(3) [OF rq] by metis
  have high: "\<not> p < highest_pri k" using rq_okD(7) [OF rq A] ne by auto
  have "cur_list_item k (highest_pri k) \<noteq> []" "\<forall>q < highest_pri k. cur_list_item k q = []"
    using rq_okD(6,7) [OF rq A] by auto
  then show ?thesis
    using rq lists bound A B xs(1,2) ne high by (simp add: rq_ok_def)
qed

lemma rq_ready_list_init:
  assumes rq: "rq_ok A k" and t: "t \<notin> A" and p: "prio (tasks k t) < RHINO_CONFIG_PRI_MAX"
    and e: "cur_list_item k (prio (tasks k t)) = []"
  shows "rq_ok (insert t A) (ready_list_init t k)"
proof -
  let ?p = "prio (tasks k t)" and ?k = "ready_list_init t k"
  have bm: "length (task_bit_map k) = NUM_WORDS" by (rule rq_okD(4) [OF rq])
  have cur: "cur_list_item ?k = (cur_list_item k)(?p := [t])"
    and bits: "task_bit_map ?k = krhino_bitmap_set (task_bit_map k) ?p"
    and high: "highest_pri ?k = (if ?p < highest_pri k then ?p else highest_pri k)"
    by (simp_all add: ready_list_init_def Let_def set_cur_list_item_def)
  have noA: "u \<in> A \<Longrightarrow> prio (tasks k u) \<noteq> ?p" for u using rq_ok_mem [OF rq, of u ?p] e by auto
  have sets: "set (cur_list_item ?k q) = {u \<in> insert t A. prio (tasks k u) = q}" for q
    using rq_okD(2) [OF rq, of q] noA by (auto simp: cur)
  have hi: "cur_list_item ?k (highest_pri ?k) \<noteq> [] \<and> (\<forall>q < highest_pri ?k. cur_list_item ?k q = [])"
  proof (cases "A = {}")
    case True
    then have "highest_pri k = RHINO_CONFIG_PRI_MAX" and none: "\<And>q. cur_list_item k q = []"
      using rq_okD(2,8) [OF rq] by auto
    with p show ?thesis by (simp add: cur high)
  next
    case False
    with rq_okD(6,7) [OF rq] e show ?thesis by (auto simp: cur high)
  qed
  have "bitmap_test (task_bit_map ?k) q \<longleftrightarrow> cur_list_item ?k q \<noteq> []" if "q < 32 * NUM_WORDS" for q
    using rq_okD(5) [OF rq that] bitmap_test_set [of ?p "task_bit_map k" q] pri_max_bits [OF p] bm
    by (simp add: bits cur)
  then show ?thesis
    using rq p sets hi bm rq_okD(1) [OF rq] unfolding rq_ok_def
    by (simp add: bits) (simp add: cur rq_okD(3) [OF rq])
qed

lemma rq_add_tail:
  assumes rq: "rq_ok A k" and t: "t \<notin> A" and p: "prio (tasks k t) < RHINO_CONFIG_PRI_MAX"
  shows "rq_ok (insert t A) (ready_list_add_tail t k)"
proof (cases "cur_list_item k (prio (tasks k t)) = []")
  case True
  with rq_ready_list_init [OF assms] show ?thesis
    by (simp add: ready_list_add_tail_def is_ready_list_empty_def)
next
  case False
  have "rq_ok (insert t A) (set_cur_list_item (prio (tasks k t)) (cur_list_item k (prio (tasks k t)) @ [t]) k)"
    by (rule rq_set_cur [OF rq p False])
      (use rq_okD(1,2) [OF rq, of "prio (tasks k t)"] t in auto)
  with False show ?thesis by (simp add: ready_list_add_tail_def is_ready_list_empty_def Let_def)
qed

lemma rq_add_head:
  assumes rq: "rq_ok A k" and t: "t \<notin> A" and p: "prio (tasks k t) < RHINO_CONFIG_PRI_MAX"
  shows "rq_ok (insert t A) (ready_list_add_head t k)"
proof (cases "cur_list_item k (prio (tasks k t)) = []")
  case True
  with rq_ready_list_init [OF assms] show ?thesis
    by (simp add: ready_list_add_head_def is_ready_list_empty_def)
next
  case False
  have "rq_ok (insert t A) (set_cur_list_item (prio (tasks k t)) (t # cur_list_item k (prio (tasks k t))) k)"
    by (rule rq_set_cur [OF rq p False])
      (use rq_okD(1,2) [OF rq, of "prio (tasks k t)"] t in auto)
  with False show ?thesis by (simp add: ready_list_add_head_def is_ready_list_empty_def Let_def)
qed

lemma rq_add:
  assumes "rq_ok A k" and "t \<notin> A" and "prio (tasks k t) < RHINO_CONFIG_PRI_MAX"
    and "g_active_task k \<noteq> NULL"
  shows "rq_ok (insert t A) (ready_list_add t k)"
  using rq_add_tail [OF assms(1-3)] rq_add_head [OF assms(1-3)] assms(4)
  by (simp add: ready_list_add_def)


lemma rq_rm:
  assumes rq: "rq_ok A k" and t: "t \<in> A" and rest: "A - {t} \<noteq> {}"
  shows "rq_ok (A - {t}) (ready_list_rm t k)" and "g_fault (ready_list_rm t k) = g_fault k"
proof -
  let ?p = "prio (tasks k t)" and ?k = "ready_list_rm t k"
  have p: "?p < RHINO_CONFIG_PRI_MAX" by (rule rq_okD(3) [OF rq t])
  have mem: "t \<in> set (cur_list_item k ?p)" using t by (simp add: rq_ok_mem [OF rq])
  have "rq_ok (A - {t}) ?k \<and> g_fault ?k = g_fault k"
  proof (cases "length (cur_list_item k ?p) = 1")
    case False
    let ?xs = "remove1 t (cur_list_item k ?p)"
    have "?xs \<noteq> []" using False mem length_remove1 [of t "cur_list_item k ?p"]
      by (metis One_nat_def Suc_pred length_pos_if_in_set list.size(3))
    moreover have "distinct ?xs" "set ?xs = {u \<in> A - {t}. prio (tasks k u) = ?p}"
      using rq_okD(1,2) [OF rq, of ?p] by (auto simp: set_remove1_eq)
    moreover have "cur_list_item k ?p \<noteq> []" using mem by auto
    ultimately have "rq_ok (A - {t}) (set_cur_list_item ?p ?xs k)"
      by (intro rq_set_cur [OF rq p]) auto
    with False mem show ?thesis by (simp add: ready_list_rm_def Let_def)
  next
    case True
    then have one: "cur_list_item k ?p = [t]" using mem by (auto simp: length_Suc_conv)
    let ?bm = "krhino_bitmap_clear (task_bit_map k) ?p"
    let ?cur = "(cur_list_item k)(?p := [])"
    have other: "u \<in> A - {t} \<Longrightarrow> prio (tasks k u) \<noteq> ?p" for u
      using rq_ok_mem [OF rq, of u ?p] one by auto
    have sets: "set (?cur q) = {u \<in> A - {t}. prio (tasks k u) = q}" for q
      using rq_okD(2) [OF rq, of q] other by auto
    have len: "length (task_bit_map k) = NUM_WORDS" by (rule rq_okD(4) [OF rq])
    have bits: "bitmap_test ?bm q \<longleftrightarrow> ?cur q \<noteq> []" if "q < 32 * NUM_WORDS" for q
      using rq_okD(5) [OF rq that] bitmap_test_clear [of ?p "task_bit_map k" q] pri_max_bits [OF p] len
      by simp
    obtain u where u: "u \<in> A" "u \<noteq> t" using rest by auto
    have hi: "cur_list_item k (highest_pri k) \<noteq> []" "\<And>q. q < highest_pri k \<Longrightarrow> cur_list_item k q = []"
      using rq_okD(6,7) [OF rq] t by auto
    have A: "A \<noteq> {}" using t by auto
    show ?thesis
    proof (cases "?p = highest_pri k")
      case False
      have "?k = k\<lparr>cur_list_item := ?cur, task_bit_map := ?bm\<rparr>"
        using False one by (simp add: ready_list_rm_def set_cur_list_item_def Let_def)
      then show ?thesis
        using sets bits len rest hi False rq_okD(1,3) [OF rq] unfolding rq_ok_def by simp
    next
      case True
      define P where "P q \<longleftrightarrow> ?cur q \<noteq> []" for q
      have Pu: "P (prio (tasks k u))"
        using u other [of u] rq_ok_mem [OF rq, of u "prio (tasks k u)"] by (auto simp: P_def)
      let ?n = "LEAST q. P q"
      have n: "P ?n" "\<And>q. q < ?n \<Longrightarrow> \<not> P q" using LeastI [of P, OF Pu] not_less_Least by auto
      obtain v where v: "v \<in> A" "prio (tasks k v) = ?n"
        using n(1) sets [of ?n] unfolding P_def by (metis (mono_tags, lifting) CollectD DiffD1 last_in_set)
      have nb: "?n < 32 * NUM_WORDS" using rq_okD(3) [OF rq v(1)] v(2) pri_max_bits by simp
      have "krhino_find_first_bit ?bm = Some ?n"
        by (rule find_first_bit_Some) (use n nb bits len in \<open>auto simp: P_def\<close>)
      then have "?k = k\<lparr>cur_list_item := ?cur, task_bit_map := ?bm, highest_pri := ?n\<rparr>"
        using True one by (simp add: ready_list_rm_def set_cur_list_item_def Let_def)
      moreover have "?cur ?n \<noteq> [] \<and> (\<forall>q < ?n. ?cur q = [])" using n by (simp add: P_def)
      ultimately show ?thesis
        using sets bits len rest rq_okD(1,3) [OF rq] unfolding rq_ok_def by simp
    qed
  qed
  then show "rq_ok (A - {t}) (ready_list_rm t k)" and "g_fault (ready_list_rm t k) = g_fault k"
    by auto
qed

lemma rq_head_to_tail:
  assumes rq: "rq_ok A k" and ne: "cur_list_item k (prio (tasks k t)) \<noteq> []"
  shows "rq_ok A (ready_list_head_to_tail t k)" and "g_fault (ready_list_head_to_tail t k) = g_fault k"
proof -
  let ?p = "prio (tasks k t)"
  have "?p < RHINO_CONFIG_PRI_MAX"
    using ne rq_okD(2,3) [OF rq] by (metis (mono_tags, lifting) CollectD last_in_set)
  then have "rq_ok A (set_cur_list_item ?p (rotate1 (cur_list_item k ?p)) k)"
    by (rule rq_set_cur [OF rq _ ne]) (use ne rq_okD(1,2) [OF rq, of ?p] in auto)
  with ne show "rq_ok A (ready_list_head_to_tail t k)"
    and "g_fault (ready_list_head_to_tail t k) = g_fault k"
    by (simp_all add: ready_list_head_to_tail_def Let_def)
qed

text \<open>The task the scheduler prefers: the first of the list of the best priority.\<close>

definition top_task :: "kernel \<Rightarrow> tid" where
  "top_task k = hd (cur_list_item k (highest_pri k))"

lemma top_task:
  assumes "rq_ok A k" and "A \<noteq> {}"
  shows "top_task k \<in> A" and "prio (tasks k (top_task k)) = highest_pri k"
    and "t \<in> A \<Longrightarrow> prio (tasks k (top_task k)) \<le> prio (tasks k t)"
proof -
  have "top_task k \<in> set (cur_list_item k (highest_pri k))"
    using rq_okD(6) [OF assms] by (simp add: top_task_def)
  then show "top_task k \<in> A" and p: "prio (tasks k (top_task k)) = highest_pri k"
    by (simp_all add: rq_ok_mem [OF assms(1)])
  show "t \<in> A \<Longrightarrow> prio (tasks k (top_task k)) \<le> prio (tasks k t)"
    using rq_highest_le [OF assms(1)] p by simp
qed

lemma core_sched_active:
  assumes "rq_ok A k" and "A \<noteq> {}"
  shows "g_active_task (core_sched k) =
      (if g_intrpt_nested_level k > 0 \<or> g_sched_lock k > 0 then g_active_task k else top_task k)"
    and "g_fault (core_sched k) = g_fault k"
  using rq_okD(6) [OF assms]
  by (auto simp: core_sched_def preferred_cpu_ready_task_get_def cpu_task_switch_def top_task_def
      Let_def split: list.splits)

lemma top_task_cong:
  "cur_list_item k' = cur_list_item k \<Longrightarrow> highest_pri k' = highest_pri k \<Longrightarrow> top_task k' = top_task k"
  by (simp add: top_task_def)

lemma rq_core_sched [simp]: "rq_ok A (core_sched k) = rq_ok A k"
  by (rule rq_ok_cong) simp_all

end
