(* ===== verification/Rhino_Pend.thy ===== *)
theory Rhino_Pend
  imports Rhino_Sched
begin

text \<open>
  The tick list of \<^verbatim>\<open>k_tick.c\<close> (insertion and removal; the tick itself is in \<open>Rhino_Tick\<close>)
  and the blocking and waking of tasks of \<^verbatim>\<open>k_pend.c\<close>. As for the ready queue, the contracts
  name the sets only: \<open>tq_ok B k\<close> says that the tick list holds the tasks in \<open>B\<close>,
  \<open>bl_ok W k\<close> that the block list of every object \<open>b\<close> holds the tasks in \<open>W b\<close>.
\<close>

section \<open>The tick list\<close>

definition tick_list_init :: "kernel \<Rightarrow> kernel" where
  "tick_list_init k = k\<lparr>g_tick_head := []\<rparr>"

text \<open>The ticks left until the timeout of a task, as the insertion loop computes them.\<close>

definition ticks_left :: "kernel \<Rightarrow> tid \<Rightarrow> u64" where
  "ticks_left k t = tick_match (tasks k t) - g_tick_count k"

definition tick_list_pri_insert :: "tid \<Rightarrow> kernel \<Rightarrow> kernel" where
  "tick_list_pri_insert t k =
     (let val = tick_remain (tasks k t)
      in k\<lparr>g_tick_head := insert_before (\<lambda>u. ticks_left k u > val) t (g_tick_head k)\<rparr>)"

definition tick_list_insert :: "tid \<Rightarrow> u64 \<Rightarrow> kernel \<Rightarrow> kernel" where
  "tick_list_insert t time k =
     (if time > 0 then
        let k = upd_task t (\<lambda>x. x\<lparr>tick_match := g_tick_count k + time, tick_remain := time\<rparr>) k;
            k = tick_list_pri_insert t k
        in upd_task t (\<lambda>x. x\<lparr>tick_head := True\<rparr>) k
      else k)"

definition tick_list_rm :: "tid \<Rightarrow> kernel \<Rightarrow> kernel" where
  "tick_list_rm t k =
     (if tick_head (tasks k t) then
        if t \<notin> set (g_tick_head k) then fault k
        else upd_task t (\<lambda>x. x\<lparr>tick_head := False\<rparr>) (k\<lparr>g_tick_head := remove1 t (g_tick_head k)\<rparr>)
      else k)"

section \<open>Block lists\<close>

definition pend_list_add :: "oid \<Rightarrow> tid \<Rightarrow> kernel \<Rightarrow> kernel" where
  "pend_list_add b t k =
     upd_blk b (\<lambda>x. x\<lparr>blk_list :=
       insert_before (\<lambda>u. prio (tasks k u) > prio (tasks k t)) t (blk_list x)\<rparr>) k"

text \<open>\<^verbatim>\<open>klist_rm(&task->task_list)\<close> of a blocked task: the node is on the list of the object the
  task remembers.\<close>

definition pend_list_rm :: "tid \<Rightarrow> kernel \<Rightarrow> kernel" where
  "pend_list_rm t k =
     (let b = blk_obj (tasks k t)
      in if t \<notin> set (blk_list (blk_objs k b)) then fault k
         else upd_blk b (\<lambda>x. x\<lparr>blk_list := remove1 t (blk_list x)\<rparr>) k)"

definition pend_task_wakeup :: "tid \<Rightarrow> kernel \<Rightarrow> kernel" where
  "pend_task_wakeup t k =
     (let k = (case task_state (tasks k t) of
          K_PEND \<Rightarrow>
            upd_task t (\<lambda>x. x\<lparr>task_state := K_RDY\<rparr>) (ready_list_add t (pend_list_rm t k))
        | K_PEND_SUSPENDED \<Rightarrow>
            upd_task t (\<lambda>x. x\<lparr>task_state := K_SUSPENDED\<rparr>) (pend_list_rm t k)
        | _ \<Rightarrow> k_err_proc RHINO_SYS_FATAL_ERR k);
          k = tick_list_rm t k
      in upd_task t (\<lambda>x. x\<lparr>blk_state := BLK_FINISH, blk_obj := NULL\<rparr>) k)"

definition pend_to_blk_obj :: "oid \<Rightarrow> tid \<Rightarrow> u64 \<Rightarrow> kernel \<Rightarrow> kernel" where
  "pend_to_blk_obj b t timeout k =
     (let k = upd_task t (\<lambda>x. x\<lparr>blk_obj := b\<rparr>) k;
          k = (if timeout \<noteq> RHINO_WAIT_FOREVER then tick_list_insert t timeout k else k);
          k = upd_task t (\<lambda>x. x\<lparr>task_state := K_PEND\<rparr>) k;
          k = ready_list_rm t k
      in if blk_policy (blk_objs k b) = BLK_POLICY_FIFO
         then upd_blk b (\<lambda>x. x\<lparr>blk_list := blk_list x @ [t]\<rparr>) k
         else pend_list_add b t k)"

definition pend_task_rm :: "tid \<Rightarrow> kernel \<Rightarrow> kernel" where
  "pend_task_rm t k =
     (let k = (case task_state (tasks k t) of
          K_PEND \<Rightarrow>
            upd_task t (\<lambda>x. x\<lparr>task_state := K_RDY\<rparr>) (ready_list_add t (pend_list_rm t k))
        | K_PEND_SUSPENDED \<Rightarrow>
            upd_task t (\<lambda>x. x\<lparr>task_state := K_SUSPENDED\<rparr>) (pend_list_rm t k)
        | _ \<Rightarrow> k_err_proc RHINO_SYS_FATAL_ERR k);
          k = tick_list_rm t k
      in upd_task t (\<lambda>x. x\<lparr>blk_state := BLK_DEL, blk_obj := NULL\<rparr>) k)"

definition pend_list_reorder :: "tid \<Rightarrow> kernel \<Rightarrow> kernel" where
  "pend_list_reorder t k =
     (let b = blk_obj (tasks k t)
      in if b = NULL then fault k
         else if blk_policy (blk_objs k b) = BLK_POLICY_PRI
         then pend_list_add b t (pend_list_rm t k)
         else k)"

definition pend_state_end_proc :: "tid \<Rightarrow> kernel \<Rightarrow> kstat \<times> kernel" where
  "pend_state_end_proc t k =
     (case blk_state (tasks k t) of
        BLK_FINISH \<Rightarrow> (RHINO_SUCCESS, k)
      | BLK_ABORT \<Rightarrow> (RHINO_BLK_ABORT, k)
      | BLK_TIMEOUT \<Rightarrow> (RHINO_BLK_TIMEOUT, k)
      | BLK_DEL \<Rightarrow> (RHINO_BLK_DEL, k)
      | BLK_INVALID \<Rightarrow> (RHINO_BLK_INV_STATE, k_err_proc RHINO_BLK_INV_STATE k))"

section \<open>Loops over a block list\<close>

text \<open>
  \<^verbatim>\<open>while (!is_klist_empty(head)) wake(first)\<close>. The number of waiting tasks bounds the number
  of rounds; if a round fails to take its task off the list the loop does not return.
\<close>

fun wake_loop :: "(tid \<Rightarrow> kernel \<Rightarrow> kernel) \<Rightarrow> oid \<Rightarrow> nat \<Rightarrow> kernel \<Rightarrow> kernel" where
  "wake_loop wake b n k =
     (case blk_list (blk_objs k b) of
        [] \<Rightarrow> k
      | t # _ \<Rightarrow> (case n of 0 \<Rightarrow> fault k | Suc m \<Rightarrow> wake_loop wake b m (wake t k)))"

declare wake_loop.simps [simp del]

definition wake_all :: "(tid \<Rightarrow> kernel \<Rightarrow> kernel) \<Rightarrow> oid \<Rightarrow> kernel \<Rightarrow> kernel" where
  "wake_all wake b k = wake_loop wake b (length (blk_list (blk_objs k b))) k"

section \<open>Frame\<close>

lemma tick_list_insert_frame [simp]:
  "g_sys_stat (tick_list_insert t n k) = g_sys_stat k"
  "g_idle_task_spawned (tick_list_insert t n k) = g_idle_task_spawned k"
  "cur_list_item (tick_list_insert t n k) = cur_list_item k"
  "task_bit_map (tick_list_insert t n k) = task_bit_map k"
  "highest_pri (tick_list_insert t n k) = highest_pri k"
  "g_sched_lock (tick_list_insert t n k) = g_sched_lock k"
  "g_intrpt_nested_level (tick_list_insert t n k) = g_intrpt_nested_level k"
  "g_preferred_ready_task (tick_list_insert t n k) = g_preferred_ready_task k"
  "g_active_task (tick_list_insert t n k) = g_active_task k"
  "g_tick_count (tick_list_insert t n k) = g_tick_count k"
  "g_sys_time_tick (tick_list_insert t n k) = g_sys_time_tick k"
  "blk_objs (tick_list_insert t n k) = blk_objs k" "mutexes (tick_list_insert t n k) = mutexes k"
  "sems (tick_list_insert t n k) = sems k" "events (tick_list_insert t n k) = events k"
  "queues (tick_list_insert t n k) = queues k"
  "buf_queues (tick_list_insert t n k) = buf_queues k"
  "g_res_list (tick_list_insert t n k) = g_res_list k" "mem (tick_list_insert t n k) = mem k"
  "g_err_log (tick_list_insert t n k) = g_err_log k"
  by (simp_all add: tick_list_insert_def tick_list_pri_insert_def Let_def)

lemma tick_list_insert_tasks [simp]:
  "0 < n \<Longrightarrow> tasks (tick_list_insert t n k) = (tasks k)(t := (tasks k t)
     \<lparr>tick_match := g_tick_count k + n, tick_remain := n, tick_head := True\<rparr>)"
  "0 < n \<Longrightarrow> g_fault (tick_list_insert t n k) \<longleftrightarrow> g_fault k \<or> t = NULL"
  by (simp_all add: tick_list_insert_def tick_list_pri_insert_def Let_def)

lemma tick_list_rm_frame [simp]:
  "g_sys_stat (tick_list_rm t k) = g_sys_stat k"
  "g_idle_task_spawned (tick_list_rm t k) = g_idle_task_spawned k"
  "cur_list_item (tick_list_rm t k) = cur_list_item k"
  "task_bit_map (tick_list_rm t k) = task_bit_map k"
  "highest_pri (tick_list_rm t k) = highest_pri k"
  "g_sched_lock (tick_list_rm t k) = g_sched_lock k"
  "g_intrpt_nested_level (tick_list_rm t k) = g_intrpt_nested_level k"
  "g_preferred_ready_task (tick_list_rm t k) = g_preferred_ready_task k"
  "g_active_task (tick_list_rm t k) = g_active_task k"
  "g_tick_count (tick_list_rm t k) = g_tick_count k"
  "g_sys_time_tick (tick_list_rm t k) = g_sys_time_tick k"
  "blk_objs (tick_list_rm t k) = blk_objs k" "mutexes (tick_list_rm t k) = mutexes k"
  "sems (tick_list_rm t k) = sems k" "events (tick_list_rm t k) = events k"
  "queues (tick_list_rm t k) = queues k" "buf_queues (tick_list_rm t k) = buf_queues k"
  "g_res_list (tick_list_rm t k) = g_res_list k" "mem (tick_list_rm t k) = mem k"
  "g_err_log (tick_list_rm t k) = g_err_log k"
  by (simp_all add: tick_list_rm_def Let_def)

lemma pend_list_add_frame [simp]:
  "g_sys_stat (pend_list_add b t k) = g_sys_stat k"
  "g_idle_task_spawned (pend_list_add b t k) = g_idle_task_spawned k"
  "cur_list_item (pend_list_add b t k) = cur_list_item k"
  "task_bit_map (pend_list_add b t k) = task_bit_map k"
  "highest_pri (pend_list_add b t k) = highest_pri k"
  "g_sched_lock (pend_list_add b t k) = g_sched_lock k"
  "g_intrpt_nested_level (pend_list_add b t k) = g_intrpt_nested_level k"
  "g_preferred_ready_task (pend_list_add b t k) = g_preferred_ready_task k"
  "g_active_task (pend_list_add b t k) = g_active_task k"
  "g_tick_count (pend_list_add b t k) = g_tick_count k"
  "g_tick_head (pend_list_add b t k) = g_tick_head k"
  "g_sys_time_tick (pend_list_add b t k) = g_sys_time_tick k"
  "tasks (pend_list_add b t k) = tasks k" "mutexes (pend_list_add b t k) = mutexes k"
  "sems (pend_list_add b t k) = sems k" "events (pend_list_add b t k) = events k"
  "queues (pend_list_add b t k) = queues k" "buf_queues (pend_list_add b t k) = buf_queues k"
  "g_res_list (pend_list_add b t k) = g_res_list k" "mem (pend_list_add b t k) = mem k"
  "g_err_log (pend_list_add b t k) = g_err_log k"
  by (simp_all add: pend_list_add_def)

lemma pend_list_rm_frame [simp]:
  "g_sys_stat (pend_list_rm t k) = g_sys_stat k"
  "g_idle_task_spawned (pend_list_rm t k) = g_idle_task_spawned k"
  "cur_list_item (pend_list_rm t k) = cur_list_item k"
  "task_bit_map (pend_list_rm t k) = task_bit_map k"
  "highest_pri (pend_list_rm t k) = highest_pri k"
  "g_sched_lock (pend_list_rm t k) = g_sched_lock k"
  "g_intrpt_nested_level (pend_list_rm t k) = g_intrpt_nested_level k"
  "g_preferred_ready_task (pend_list_rm t k) = g_preferred_ready_task k"
  "g_active_task (pend_list_rm t k) = g_active_task k"
  "g_tick_count (pend_list_rm t k) = g_tick_count k"
  "g_tick_head (pend_list_rm t k) = g_tick_head k"
  "g_sys_time_tick (pend_list_rm t k) = g_sys_time_tick k" "tasks (pend_list_rm t k) = tasks k"
  "mutexes (pend_list_rm t k) = mutexes k" "sems (pend_list_rm t k) = sems k"
  "events (pend_list_rm t k) = events k" "queues (pend_list_rm t k) = queues k"
  "buf_queues (pend_list_rm t k) = buf_queues k" "g_res_list (pend_list_rm t k) = g_res_list k"
  "mem (pend_list_rm t k) = mem k" "g_err_log (pend_list_rm t k) = g_err_log k"
  by (simp_all add: pend_list_rm_def Let_def)

lemma pend_task_wakeup_frame [simp]:
  "g_sys_stat (pend_task_wakeup t k) = g_sys_stat k"
  "g_idle_task_spawned (pend_task_wakeup t k) = g_idle_task_spawned k"
  "g_sched_lock (pend_task_wakeup t k) = g_sched_lock k"
  "g_intrpt_nested_level (pend_task_wakeup t k) = g_intrpt_nested_level k"
  "g_preferred_ready_task (pend_task_wakeup t k) = g_preferred_ready_task k"
  "g_active_task (pend_task_wakeup t k) = g_active_task k"
  "g_tick_count (pend_task_wakeup t k) = g_tick_count k"
  "g_sys_time_tick (pend_task_wakeup t k) = g_sys_time_tick k"
  "mutexes (pend_task_wakeup t k) = mutexes k" "sems (pend_task_wakeup t k) = sems k"
  "events (pend_task_wakeup t k) = events k" "queues (pend_task_wakeup t k) = queues k"
  "buf_queues (pend_task_wakeup t k) = buf_queues k"
  "g_res_list (pend_task_wakeup t k) = g_res_list k" "mem (pend_task_wakeup t k) = mem k"
  by (simp_all add: pend_task_wakeup_def Let_def split: task_stat.split)

lemma pend_task_rm_frame [simp]:
  "g_sys_stat (pend_task_rm t k) = g_sys_stat k"
  "g_idle_task_spawned (pend_task_rm t k) = g_idle_task_spawned k"
  "g_sched_lock (pend_task_rm t k) = g_sched_lock k"
  "g_intrpt_nested_level (pend_task_rm t k) = g_intrpt_nested_level k"
  "g_preferred_ready_task (pend_task_rm t k) = g_preferred_ready_task k"
  "g_active_task (pend_task_rm t k) = g_active_task k"
  "g_tick_count (pend_task_rm t k) = g_tick_count k"
  "g_sys_time_tick (pend_task_rm t k) = g_sys_time_tick k"
  "mutexes (pend_task_rm t k) = mutexes k" "sems (pend_task_rm t k) = sems k"
  "events (pend_task_rm t k) = events k" "queues (pend_task_rm t k) = queues k"
  "buf_queues (pend_task_rm t k) = buf_queues k" "g_res_list (pend_task_rm t k) = g_res_list k"
  "mem (pend_task_rm t k) = mem k"
  by (simp_all add: pend_task_rm_def Let_def split: task_stat.split)

lemma pend_list_reorder_frame [simp]:
  "g_sys_stat (pend_list_reorder t k) = g_sys_stat k"
  "g_idle_task_spawned (pend_list_reorder t k) = g_idle_task_spawned k"
  "cur_list_item (pend_list_reorder t k) = cur_list_item k"
  "task_bit_map (pend_list_reorder t k) = task_bit_map k"
  "highest_pri (pend_list_reorder t k) = highest_pri k"
  "g_sched_lock (pend_list_reorder t k) = g_sched_lock k"
  "g_intrpt_nested_level (pend_list_reorder t k) = g_intrpt_nested_level k"
  "g_preferred_ready_task (pend_list_reorder t k) = g_preferred_ready_task k"
  "g_active_task (pend_list_reorder t k) = g_active_task k"
  "g_tick_count (pend_list_reorder t k) = g_tick_count k"
  "g_tick_head (pend_list_reorder t k) = g_tick_head k"
  "g_sys_time_tick (pend_list_reorder t k) = g_sys_time_tick k"
  "tasks (pend_list_reorder t k) = tasks k" "mutexes (pend_list_reorder t k) = mutexes k"
  "sems (pend_list_reorder t k) = sems k" "events (pend_list_reorder t k) = events k"
  "queues (pend_list_reorder t k) = queues k" "buf_queues (pend_list_reorder t k) = buf_queues k"
  "g_res_list (pend_list_reorder t k) = g_res_list k" "mem (pend_list_reorder t k) = mem k"
  "g_err_log (pend_list_reorder t k) = g_err_log k"
  by (simp_all add: pend_list_reorder_def Let_def)

lemma pend_to_blk_obj_frame [simp]:
  "g_sys_stat (pend_to_blk_obj b t n k) = g_sys_stat k"
  "g_idle_task_spawned (pend_to_blk_obj b t n k) = g_idle_task_spawned k"
  "g_sched_lock (pend_to_blk_obj b t n k) = g_sched_lock k"
  "g_intrpt_nested_level (pend_to_blk_obj b t n k) = g_intrpt_nested_level k"
  "g_preferred_ready_task (pend_to_blk_obj b t n k) = g_preferred_ready_task k"
  "g_active_task (pend_to_blk_obj b t n k) = g_active_task k"
  "g_tick_count (pend_to_blk_obj b t n k) = g_tick_count k"
  "g_sys_time_tick (pend_to_blk_obj b t n k) = g_sys_time_tick k"
  "mutexes (pend_to_blk_obj b t n k) = mutexes k" "sems (pend_to_blk_obj b t n k) = sems k"
  "events (pend_to_blk_obj b t n k) = events k" "queues (pend_to_blk_obj b t n k) = queues k"
  "buf_queues (pend_to_blk_obj b t n k) = buf_queues k"
  "g_res_list (pend_to_blk_obj b t n k) = g_res_list k" "mem (pend_to_blk_obj b t n k) = mem k"
  "g_err_log (pend_to_blk_obj b t n k) = g_err_log k"
  by (simp_all add: pend_to_blk_obj_def Let_def)

text \<open>Only the lists of the headers change.\<close>

lemma blk_header_frame [simp]:
  "obj_type (blk_objs (pend_list_add b t k) c) = obj_type (blk_objs k c)"
  "blk_policy (blk_objs (pend_list_add b t k) c) = blk_policy (blk_objs k c)"
  "obj_type (blk_objs (pend_list_rm t k) c) = obj_type (blk_objs k c)"
  "blk_policy (blk_objs (pend_list_rm t k) c) = blk_policy (blk_objs k c)"
  by (simp_all add: pend_list_add_def pend_list_rm_def Let_def)

section \<open>The contract of the tick list\<close>

definition tq_ok :: "tid set \<Rightarrow> kernel \<Rightarrow> bool" where
  "tq_ok B k \<longleftrightarrow> distinct (g_tick_head k) \<and> set (g_tick_head k) = B \<and>
     (\<forall>t. tick_head (tasks k t) \<longleftrightarrow> t \<in> B) \<and> sorted (map (ticks_left k) (g_tick_head k))"

lemma tq_ok_cong:
  assumes "g_tick_head k' = g_tick_head k" and "g_tick_count k' = g_tick_count k"
    and "\<And>t. tick_head (tasks k' t) = tick_head (tasks k t)"
    and "\<And>t. t \<in> B \<Longrightarrow> tick_match (tasks k' t) = tick_match (tasks k t)"
  shows "tq_ok B k' \<longleftrightarrow> tq_ok B k"
proof -
  have "map (ticks_left k') (g_tick_head k) = map (ticks_left k) (g_tick_head k)"
    if "set (g_tick_head k) = B"
    using that assms by (auto simp: ticks_left_def)
  then show ?thesis using assms(1,3) unfolding tq_ok_def by (metis (full_types))
qed

lemma tq_insert:
  assumes tq: "tq_ok B k" and t: "t \<notin> B" and n: "0 < n"
  shows "tq_ok (insert t B) (tick_list_insert t n k)"
    and "ticks_left (tick_list_insert t n k) t = n"
    and "u \<noteq> t \<Longrightarrow> ticks_left (tick_list_insert t n k) u = ticks_left k u"
proof -
  let ?k = "tick_list_insert t n k"
  show left: "ticks_left ?k t = n" "u \<noteq> t \<Longrightarrow> ticks_left ?k u = ticks_left k u" for u
    using n by (simp_all add: ticks_left_def)
  have mem: "set (g_tick_head k) = B" using tq by (simp add: tq_ok_def)
  have list: "g_tick_head ?k = insert_before (\<lambda>u. ticks_left ?k u > ticks_left ?k t) t (g_tick_head k)"
  proof -
    let ?k1 = "upd_task t (\<lambda>x. x\<lparr>tick_match := g_tick_count k + n, tick_remain := n\<rparr>) k"
    have "g_tick_head ?k = insert_before (\<lambda>u. ticks_left ?k1 u > n) t (g_tick_head k)"
      using n by (simp add: tick_list_insert_def tick_list_pri_insert_def Let_def)
    moreover have "ticks_left ?k1 u = ticks_left ?k u" for u using n by (simp add: ticks_left_def)
    ultimately show ?thesis using left(1) by simp
  qed
  have "map (ticks_left ?k) (g_tick_head k) = map (ticks_left k) (g_tick_head k)"
  proof (rule map_cong [OF refl])
    fix x assume "x \<in> set (g_tick_head k)"
    then have "x \<noteq> t" using mem t by auto
    then show "ticks_left ?k x = ticks_left k x" by (rule left(2))
  qed
  then have "sorted (map (ticks_left ?k) (g_tick_head k))" using tq unfolding tq_ok_def by metis
  then have "sorted (map (ticks_left ?k) (g_tick_head ?k))"
    unfolding list by (rule sorted_insert_before)
  then show "tq_ok (insert t B) ?k" using tq t n mem by (simp add: tq_ok_def list)
qed

lemma tq_rm_tasks:
  "tq_ok B k \<Longrightarrow> tasks (tick_list_rm t k) = (tasks k)(t := (tasks k t)\<lparr>tick_head := False\<rparr>)"
  by (auto simp: tq_ok_def tick_list_rm_def)

lemma tq_rm_fault: "tq_ok B k \<Longrightarrow> t \<noteq> NULL \<Longrightarrow> g_fault (tick_list_rm t k) = g_fault k"
  by (auto simp: tq_ok_def tick_list_rm_def)

lemma tq_rm_list: "tq_ok B k \<Longrightarrow> g_tick_head (tick_list_rm t k) = remove1 t (g_tick_head k)"
  by (auto simp: tq_ok_def tick_list_rm_def remove1_idem)

lemma sorted_map_remove1: "sorted (map f xs) \<Longrightarrow> sorted (map f (remove1 x xs))"
  by (induction xs) (auto simp: dest: in_set_remove1 [THEN iffD1, rotated] notin_set_remove1)

lemma tq_rm:
  assumes "tq_ok B k"
  shows "tq_ok (B - {t}) (tick_list_rm t k)"
proof -
  have "ticks_left (tick_list_rm t k) = ticks_left k"
    using tq_rm_tasks [OF assms] by (auto simp: ticks_left_def)
  with assms tq_rm_tasks [OF assms, of t] tq_rm_list [OF assms, of t] show ?thesis
    by (auto simp: tq_ok_def sorted_map_remove1)
qed

section \<open>The contract of the block lists\<close>

definition bl_ok :: "(oid \<Rightarrow> tid set) \<Rightarrow> kernel \<Rightarrow> bool" where
  "bl_ok W k \<longleftrightarrow> (\<forall>b. distinct (blk_list (blk_objs k b)) \<and> set (blk_list (blk_objs k b)) = W b \<and>
     (blk_policy (blk_objs k b) = BLK_POLICY_PRI \<longrightarrow>
       sorted (map (\<lambda>t. prio (tasks k t)) (blk_list (blk_objs k b)))))"

lemma bl_okD:
  assumes "bl_ok W k"
  shows "distinct (blk_list (blk_objs k b))" and "set (blk_list (blk_objs k b)) = W b"
    and "blk_policy (blk_objs k b) = BLK_POLICY_PRI \<Longrightarrow>
      sorted (map (\<lambda>t. prio (tasks k t)) (blk_list (blk_objs k b)))"
  using assms by (auto simp: bl_ok_def)

lemma bl_ok_cong:
  assumes "\<And>b. blk_list (blk_objs k' b) = blk_list (blk_objs k b)"
    and "\<And>b. blk_policy (blk_objs k' b) = blk_policy (blk_objs k b)"
    and "\<And>b t. t \<in> W b \<Longrightarrow> prio (tasks k' t) = prio (tasks k t)"
  shows "bl_ok W k' \<longleftrightarrow> bl_ok W k"
proof -
  have "map (\<lambda>t. prio (tasks k' t)) (blk_list (blk_objs k b)) =
      map (\<lambda>t. prio (tasks k t)) (blk_list (blk_objs k b))" if "set (blk_list (blk_objs k b)) = W b" for b
    using that assms(3) by auto
  then show ?thesis unfolding bl_ok_def assms(1,2) by metis
qed

lemma bl_rm:
  assumes bl: "bl_ok W k" and t: "t \<in> W (blk_obj (tasks k t))"
  shows "bl_ok (W(blk_obj (tasks k t) := W (blk_obj (tasks k t)) - {t})) (pend_list_rm t k)"
    and "blk_obj (tasks k t) \<noteq> NULL \<Longrightarrow> g_fault (pend_list_rm t k) = g_fault k"
    and "blk_list (blk_objs (pend_list_rm t k) b) = (if b = blk_obj (tasks k t)
      then remove1 t (blk_list (blk_objs k b)) else blk_list (blk_objs k b))"
  using bl_okD [OF bl] t
  by (auto simp: bl_ok_def pend_list_rm_def Let_def sorted_map_remove1)

lemma bl_add:
  assumes bl: "bl_ok W k" and t: "t \<notin> W b"
  shows "bl_ok (W(b := insert t (W b))) (pend_list_add b t k)"
  using bl_okD [OF bl] t
  by (auto simp: bl_ok_def pend_list_add_def intro: sorted_insert_before)

lemma bl_add_fifo:
  assumes bl: "bl_ok W k" and t: "t \<notin> W b" and "blk_policy (blk_objs k b) = BLK_POLICY_FIFO"
  shows "bl_ok (W(b := insert t (W b))) (upd_blk b (\<lambda>x. x\<lparr>blk_list := blk_list x @ [t]\<rparr>) k)"
  using bl_okD [OF bl] t assms(3) by (auto simp: bl_ok_def)


text \<open>Reordering after a change of priority: only the place of the task changes.\<close>

lemma bl_reorder:
  fixes p :: nat
  assumes bl: "bl_ok W k" and t: "t \<in> W (blk_obj (tasks k t))" and b: "blk_obj (tasks k t) \<noteq> NULL"
    and one: "\<And>b. t \<in> W b \<Longrightarrow> b = blk_obj (tasks k t)"
  defines "k' \<equiv> upd_task t (\<lambda>x. x\<lparr>prio := p\<rparr>) k"
  shows "bl_ok W (pend_list_reorder t k')"
    and "t \<noteq> NULL \<Longrightarrow> g_fault (pend_list_reorder t k') = g_fault k"
    and "\<And>c. obj_type (blk_objs (pend_list_reorder t k') c) = obj_type (blk_objs k c)"
    and "\<And>c. blk_policy (blk_objs (pend_list_reorder t k') c) = blk_policy (blk_objs k c)"
proof -
  let ?b = "blk_obj (tasks k t)"
  have b': "blk_obj (tasks k' t) = ?b" by (simp add: k'_def)
  have bo: "blk_objs k' = blk_objs k" by (simp add: k'_def)
  let ?W = "W(?b := W ?b - {t})"
  have tW: "t \<notin> ?W c" for c using one by auto
  have rm: "bl_ok ?W (pend_list_rm t k)" and "g_fault (pend_list_rm t k) = g_fault k"
    using bl_rm [OF bl t] b by auto
  have eq: "pend_list_rm t k' = upd_task t (\<lambda>x. x\<lparr>prio := p\<rparr>) (pend_list_rm t k)"
    by (rule kernel.equality)
      (use bl_okD(2) [OF bl, of ?b] t in \<open>auto simp: pend_list_rm_def k'_def Let_def\<close>)
  have rm': "bl_ok ?W (pend_list_rm t k')"
    unfolding eq using rm tW by (subst bl_ok_cong [where k = "pend_list_rm t k"]) auto
  have "W = ?W(?b := insert t (?W ?b))" using t by (simp add: insert_absorb)
  then have add: "bl_ok W (pend_list_add ?b t (pend_list_rm t k'))"
    using bl_add [OF rm', of t ?b] by simp
  show "bl_ok W (pend_list_reorder t k')"
  proof (cases "blk_policy (blk_objs k ?b) = BLK_POLICY_PRI")
    case True
    with add b show ?thesis by (simp add: pend_list_reorder_def b' bo)
  next
    case False
    have "bl_ok W k'"
      unfolding bl_ok_def
    proof (intro allI conjI impI)
      fix c
      assume "blk_policy (blk_objs k' c) = BLK_POLICY_PRI"
      then have c: "c \<noteq> ?b" "blk_policy (blk_objs k c) = BLK_POLICY_PRI" using False bo by auto
      then have "t \<notin> set (blk_list (blk_objs k c))" using one bl_okD(2) [OF bl] by blast
      then have "map (\<lambda>t. prio (tasks k' t)) (blk_list (blk_objs k c)) =
          map (\<lambda>t. prio (tasks k t)) (blk_list (blk_objs k c))"
        by (auto simp: k'_def)
      then show "sorted (map (\<lambda>t. prio (tasks k' t)) (blk_list (blk_objs k' c)))"
        using bl_okD(3) [OF bl c(2)] bo by metis
    qed (use bl_okD [OF bl] bo in auto)
    with False b show ?thesis by (simp add: pend_list_reorder_def b' bo)
  qed
  show "t \<noteq> NULL \<Longrightarrow> g_fault (pend_list_reorder t k') = g_fault k"
    using b \<open>g_fault (pend_list_rm t k) = g_fault k\<close>
    by (simp add: pend_list_reorder_def b' bo eq pend_list_add_def Let_def) (simp add: k'_def)
  show "obj_type (blk_objs (pend_list_reorder t k') c) = obj_type (blk_objs k c)"
    and "blk_policy (blk_objs (pend_list_reorder t k') c) = blk_policy (blk_objs k c)" for c
    by (simp_all add: pend_list_reorder_def Let_def bo)
qed

end
