(* ===== verification/Rhino_Prio.thy ===== *)
theory Rhino_Prio
  imports Rhino_Pend
begin

text \<open>
  Priority inheritance: \<^verbatim>\<open>mutex_pri_limit\<close>, \<^verbatim>\<open>mutex_pri_look\<close>, \<^verbatim>\<open>mutex_release\<close> and
  \<^verbatim>\<open>mutex_task_pri_reset\<close> of \<^verbatim>\<open>k_mutex.c\<close> and the loop \<^verbatim>\<open>task_pri_change\<close> of \<^verbatim>\<open>k_task.c\<close>, which
  passes a change of priority on along the chain of mutex owners. The main result is that the
  loop returns and leaves every task with the best of its own base priority and the
  priorities of the tasks that wait for a mutex it holds.
\<close>

section \<open>Definitions\<close>

text \<open>The two loops over the mutexes a task holds; \<open>pri\<close> keeps its value over a mutex nobody
  waits for.\<close>

fun mutex_pri_scan :: "kernel \<Rightarrow> nat \<Rightarrow> nat \<Rightarrow> oid list \<Rightarrow> nat" where
  "mutex_pri_scan k high_pri pri [] = high_pri"
| "mutex_pri_scan k high_pri pri (m # ms) =
     (let pri = (case blk_list (blk_objs k m) of [] \<Rightarrow> pri | w # _ \<Rightarrow> prio (tasks k w))
      in mutex_pri_scan k (if pri < high_pri then pri else high_pri) pri ms)"

definition mutex_pri_limit :: "tid \<Rightarrow> nat \<Rightarrow> kernel \<Rightarrow> nat" where
  "mutex_pri_limit t pri k = mutex_pri_scan k pri pri (mutex_list (tasks k t))"

text \<open>\<^verbatim>\<open>mutex_pri_look\<close> also takes \<^verbatim>\<open>mutex_rel\<close> out of the list of held mutexes.\<close>

definition mutex_pri_look :: "tid \<Rightarrow> oid \<Rightarrow> kernel \<Rightarrow> nat \<times> kernel" where
  "mutex_pri_look t mutex_rel k =
     (let ms = filter (\<lambda>m. m \<noteq> mutex_rel) (mutex_list (tasks k t));
          p = b_prio (tasks k t)
      in (mutex_pri_scan k p p ms, upd_task t (\<lambda>x. x\<lparr>mutex_list := ms\<rparr>) k))"

text \<open>The loop of \<^verbatim>\<open>task_pri_change\<close>; \<open>None\<close> when it does not return.\<close>

partial_function (option) pri_loop :: "tid \<Rightarrow> nat \<Rightarrow> kernel \<Rightarrow> (kstat \<times> kernel) option" where
  "pri_loop t new_pri k =
     (if prio (tasks k t) = new_pri then Some (RHINO_SUCCESS, k)
      else if task_state (tasks k t) = K_RDY then
        let k = ready_list_rm t k;
            k = upd_task t (\<lambda>x. x\<lparr>prio := new_pri\<rparr>) k
        in Some (RHINO_SUCCESS,
             if t = g_active_task k then ready_list_add_head t k else ready_list_add_tail t k)
      else if task_state (tasks k t) \<in> {K_SLEEP, K_SUSPENDED, K_SLEEP_SUSPENDED} then
        Some (RHINO_SUCCESS, upd_task t (\<lambda>x. x\<lparr>prio := new_pri\<rparr>) k)
      else if task_state (tasks k t) \<in> {K_PEND, K_PEND_SUSPENDED} then
        let old_pri = prio (tasks k t);
            k = upd_task t (\<lambda>x. x\<lparr>prio := new_pri\<rparr>) k;
            k = pend_list_reorder t k;
            b = blk_obj (tasks k t);
            owner = mutex_task (mutexes k b)
        in if obj_type (blk_objs k b) \<noteq> RHINO_MUTEX_OBJ_TYPE then Some (RHINO_SUCCESS, k)
           else if owner = NULL then Some (RHINO_SUCCESS, fault k)
           else if prio (tasks k owner) > prio (tasks k t) then pri_loop owner new_pri k
           else if prio (tasks k owner) = old_pri then
             if fst (mutex_pri_look owner NULL k) \<noteq> prio (tasks k owner)
             then pri_loop owner (fst (mutex_pri_look owner NULL k)) (snd (mutex_pri_look owner NULL k))
             else Some (RHINO_SUCCESS, snd (mutex_pri_look owner NULL k))
           else Some (RHINO_SUCCESS, k)
      else Some (RHINO_INV_TASK_STATE, k_err_proc RHINO_INV_TASK_STATE k))"

definition task_pri_change :: "tid \<Rightarrow> nat \<Rightarrow> kernel \<Rightarrow> kstat \<times> kernel" where
  "task_pri_change t new_pri k =
     (case pri_loop t new_pri k of Some r \<Rightarrow> r | None \<Rightarrow> (RHINO_SUCCESS, fault k))"

definition mutex_release :: "tid \<Rightarrow> oid \<Rightarrow> kernel \<Rightarrow> kernel" where
  "mutex_release t mutex_rel k =
     (let (new_pri, k) = mutex_pri_look t mutex_rel k
      in if new_pri \<noteq> prio (tasks k t) then snd (task_pri_change t new_pri k) else k)"

definition mutex_task_pri_reset :: "tid \<Rightarrow> kernel \<Rightarrow> kernel" where
  "mutex_task_pri_reset t k =
     (let b = blk_obj (tasks k t)
      in if b = NULL then fault k
         else if obj_type (blk_objs k b) = RHINO_MUTEX_OBJ_TYPE then
           let owner = mutex_task (mutexes k b)
           in if owner = NULL then fault k
              else if prio (tasks k owner) = prio (tasks k t) then mutex_release owner NULL k
              else k
         else k)"

section \<open>The priority a task should have\<close>

definition heads_min :: "kernel \<Rightarrow> nat \<Rightarrow> oid list \<Rightarrow> nat" where
  "heads_min k p ms = Min (insert p (\<Union>m \<in> set ms. (\<lambda>w. prio (tasks k w)) ` set (blk_list (blk_objs k m))))"

text \<open>The best of the base priority and the priorities of all tasks that wait for a mutex the
  task holds.\<close>

definition eff_pri :: "kernel \<Rightarrow> tid \<Rightarrow> nat" where
  "eff_pri k t = heads_min k (b_prio (tasks k t)) (mutex_list (tasks k t))"

lemma Min_dominated:
  fixes A B :: "nat set"
  assumes "finite A" and "finite B" and "B \<noteq> {}" and "\<And>b. b \<in> B \<Longrightarrow> \<exists>a \<in> A. a \<le> b"
  shows "Min A \<le> Min B"
proof -
  obtain a where "a \<in> A" "a \<le> Min B" using assms(4) [OF Min_in [OF assms(2,3)]] by blast
  then show ?thesis using Min_le [OF assms(1)] le_trans by blast
qed

lemma heads_min_Cons:
  assumes "sorted (map (\<lambda>w. prio (tasks k w)) (blk_list (blk_objs k m)))"
  shows "heads_min k p (m # ms) = heads_min k
    (case blk_list (blk_objs k m) of [] \<Rightarrow> p | w # _ \<Rightarrow> min p (prio (tasks k w))) ms"
proof (cases "blk_list (blk_objs k m)")
  case (Cons w ws)
  let ?f = "\<lambda>w. prio (tasks k w)"
  let ?R = "\<Union>m \<in> set ms. ?f ` set (blk_list (blk_objs k m))"
  have le: "\<forall>v \<in> set ws. ?f w \<le> ?f v" using assms Cons by simp
  have "Min (insert p (?f ` set (w # ws) \<union> ?R)) = Min (insert p (insert (?f w) ?R))"
  proof (rule antisym)
    show "Min (insert p (?f ` set (w # ws) \<union> ?R)) \<le> Min (insert p (insert (?f w) ?R))"
      by (rule Min_antimono) auto
    show "Min (insert p (insert (?f w) ?R)) \<le> Min (insert p (?f ` set (w # ws) \<union> ?R))"
    proof (rule Min_dominated)
      fix b assume "b \<in> insert p (?f ` set (w # ws) \<union> ?R)"
      then consider "b \<in> insert p (insert (?f w) ?R)" | v where "v \<in> set ws" "b = ?f v" by auto
      then show "\<exists>a \<in> insert p (insert (?f w) ?R). a \<le> b" by cases (use le in blast)+
    qed auto
  qed
  also have "\<dots> = Min (insert (min p (?f w)) ?R)"
    by (cases "?R = {}") (simp_all add: min.assoc)
  finally show ?thesis by (simp add: heads_min_def Cons)
qed (simp add: heads_min_def)

lemma mutex_pri_scan_min:
  assumes "\<forall>m \<in> set ms. sorted (map (\<lambda>w. prio (tasks k w)) (blk_list (blk_objs k m)))"
    and "high \<le> pri"
  shows "mutex_pri_scan k high pri ms = heads_min k high ms"
  using assms
proof (induction ms arbitrary: high pri)
  case (Cons m ms)
  define pri' where "pri' = (case blk_list (blk_objs k m) of [] \<Rightarrow> pri | w # _ \<Rightarrow> prio (tasks k w))"
  have "mutex_pri_scan k (if pri' < high then pri' else high) pri' ms =
      heads_min k (if pri' < high then pri' else high) ms"
    using Cons.prems by (intro Cons.IH) auto
  moreover have "(if pri' < high then pri' else high) =
      (case blk_list (blk_objs k m) of [] \<Rightarrow> high | w # _ \<Rightarrow> min high (prio (tasks k w)))"
    using Cons.prems(2) by (auto simp: pri'_def split: list.split)
  moreover have "sorted (map (\<lambda>w. prio (tasks k w)) (blk_list (blk_objs k m)))" using Cons.prems(1) by simp
  ultimately show ?case by (simp add: heads_min_Cons Let_def flip: pri'_def)
qed (simp add: heads_min_def)

text \<open>In terms of the sets of waiting tasks.\<close>

definition demand :: "(oid \<Rightarrow> tid set) \<Rightarrow> kernel \<Rightarrow> tid \<Rightarrow> nat set" where
  "demand W k t = insert (b_prio (tasks k t))
     (\<Union>m \<in> set (mutex_list (tasks k t)). (\<lambda>w. prio (tasks k w)) ` W m)"

lemma eff_pri_demand: "bl_ok W k \<Longrightarrow> eff_pri k t = Min (demand W k t)"
  by (simp add: eff_pri_def heads_min_def demand_def bl_okD(2))

lemma finite_demand: "bl_ok W k \<Longrightarrow> finite (demand W k t)"
  by (auto simp: demand_def bl_okD(2) [symmetric])

lemma eff_pri_cong:
  assumes "bl_ok W k" and "bl_ok W' k'"
    and "b_prio (tasks k' t) = b_prio (tasks k t)"
    and "(\<Union>m \<in> set (mutex_list (tasks k' t)). (\<lambda>w. prio (tasks k' w)) ` W' m) =
      (\<Union>m \<in> set (mutex_list (tasks k t)). (\<lambda>w. prio (tasks k w)) ` W m)"
  shows "eff_pri k' t = eff_pri k t"
  using assms by (simp add: eff_pri_demand demand_def)

lemma eff_pri_le_b_prio: "eff_pri k t \<le> b_prio (tasks k t)"
  by (simp add: eff_pri_def heads_min_def)

section \<open>Consistency of tasks, lists and mutexes\<close>

definition g_idle_task :: tid where
  "g_idle_task = 1"

definition pended :: "task_stat \<Rightarrow> bool" where
  "pended s \<longleftrightarrow> s = K_PEND \<or> s = K_PEND_SUSPENDED"

definition rdy :: "kernel \<Rightarrow> tid set" where
  "rdy k = {t. task_state (tasks k t) = K_RDY}"

definition live :: "kernel \<Rightarrow> tid set" where
  "live k = {t. task_state (tasks k t) \<noteq> K_SEED \<and> task_state (tasks k t) \<noteq> K_DELETED}"

definition pend_on :: "kernel \<Rightarrow> oid \<Rightarrow> tid set" where
  "pend_on k b = {t. pended (task_state (tasks k t)) \<and> blk_obj (tasks k t) = b}"

text \<open>Ownership: the lists of held mutexes and the owners recorded in the mutexes agree, a
  mutex that is waited for has an owner, and nobody waits for his own mutex.\<close>

definition own_ok :: "kernel \<Rightarrow> bool" where
  "own_ok k \<longleftrightarrow>
     (\<forall>t \<in> live k. distinct (mutex_list (tasks k t)) \<and>
        (\<forall>m \<in> set (mutex_list (tasks k t)). mutex_task (mutexes k m) = t \<and>
           obj_type (blk_objs k m) = RHINO_MUTEX_OBJ_TYPE)) \<and>
     (\<forall>m. obj_type (blk_objs k m) = RHINO_MUTEX_OBJ_TYPE \<longrightarrow> m \<noteq> NULL \<and>
        blk_policy (blk_objs k m) = BLK_POLICY_PRI \<and>
        (if mutex_task (mutexes k m) = NULL then pend_on k m = {}
         else mutex_task (mutexes k m) \<in> live k \<and>
           m \<in> set (mutex_list (tasks k (mutex_task (mutexes k m)))) \<and>
           mutex_task (mutexes k m) \<notin> pend_on k m \<and> owner_nested (mutexes k m) \<noteq> 0))"

definition core_ok :: "kernel \<Rightarrow> bool" where
  "core_ok k \<longleftrightarrow> rq_ok (rdy k) k \<and> bl_ok (pend_on k) k \<and> own_ok k \<and> finite (live k) \<and>
     NULL \<notin> live k \<and> g_idle_task \<in> rdy k \<and> mutex_list (tasks k g_idle_task) = [] \<and>
     (\<forall>t \<in> live k. prio (tasks k t) < RHINO_CONFIG_PRI_MAX \<and> b_prio (tasks k t) < RHINO_CONFIG_PRI_MAX) \<and>
     pend_on k NULL = {} \<and> b_prio (tasks k g_idle_task) = RHINO_IDLE_PRI"

lemma pendedD: "pended s \<Longrightarrow> s \<noteq> K_RDY \<and> s \<noteq> K_SEED \<and> s \<noteq> K_DELETED"
  by (auto simp: pended_def)

lemma pend_on_live: "t \<in> pend_on k b \<Longrightarrow> t \<in> live k"
  by (auto simp: pend_on_def live_def pended_def)

lemma rdy_live: "t \<in> rdy k \<Longrightarrow> t \<in> live k"
  by (auto simp: rdy_def live_def)

lemma own_okD:
  assumes "own_ok k"
  shows "t \<in> live k \<Longrightarrow> distinct (mutex_list (tasks k t))"
    and "t \<in> live k \<Longrightarrow> m \<in> set (mutex_list (tasks k t)) \<Longrightarrow>
      mutex_task (mutexes k m) = t \<and> obj_type (blk_objs k m) = RHINO_MUTEX_OBJ_TYPE"
    and "obj_type (blk_objs k m) = RHINO_MUTEX_OBJ_TYPE \<Longrightarrow> m \<noteq> NULL \<and>
      blk_policy (blk_objs k m) = BLK_POLICY_PRI"
    and "obj_type (blk_objs k m) = RHINO_MUTEX_OBJ_TYPE \<Longrightarrow> w \<in> pend_on k m \<Longrightarrow>
      mutex_task (mutexes k m) \<noteq> NULL"
    and "obj_type (blk_objs k m) = RHINO_MUTEX_OBJ_TYPE \<Longrightarrow> mutex_task (mutexes k m) \<noteq> NULL \<Longrightarrow>
      mutex_task (mutexes k m) \<in> live k \<and> m \<in> set (mutex_list (tasks k (mutex_task (mutexes k m)))) \<and>
      mutex_task (mutexes k m) \<notin> pend_on k m \<and> owner_nested (mutexes k m) \<noteq> 0"
  using assms unfolding own_ok_def by (metis empty_iff)+

lemma own_okI:
  assumes "\<And>t. t \<in> live k \<Longrightarrow> distinct (mutex_list (tasks k t))"
    and "\<And>t m. t \<in> live k \<Longrightarrow> m \<in> set (mutex_list (tasks k t)) \<Longrightarrow>
      mutex_task (mutexes k m) = t \<and> obj_type (blk_objs k m) = RHINO_MUTEX_OBJ_TYPE"
    and "\<And>m. obj_type (blk_objs k m) = RHINO_MUTEX_OBJ_TYPE \<Longrightarrow> m \<noteq> NULL \<and>
      blk_policy (blk_objs k m) = BLK_POLICY_PRI"
    and "\<And>m w. obj_type (blk_objs k m) = RHINO_MUTEX_OBJ_TYPE \<Longrightarrow> w \<in> pend_on k m \<Longrightarrow>
      mutex_task (mutexes k m) \<noteq> NULL"
    and "\<And>m. obj_type (blk_objs k m) = RHINO_MUTEX_OBJ_TYPE \<Longrightarrow> mutex_task (mutexes k m) \<noteq> NULL \<Longrightarrow>
      mutex_task (mutexes k m) \<in> live k \<and> m \<in> set (mutex_list (tasks k (mutex_task (mutexes k m)))) \<and>
      mutex_task (mutexes k m) \<notin> pend_on k m \<and> owner_nested (mutexes k m) \<noteq> 0"
  shows "own_ok k"
proof -
  have "if mutex_task (mutexes k m) = NULL then pend_on k m = {}
      else mutex_task (mutexes k m) \<in> live k \<and>
        m \<in> set (mutex_list (tasks k (mutex_task (mutexes k m)))) \<and>
        mutex_task (mutexes k m) \<notin> pend_on k m \<and> owner_nested (mutexes k m) \<noteq> 0"
    if "obj_type (blk_objs k m) = RHINO_MUTEX_OBJ_TYPE" for m
    using assms(4,5) [OF that] by (cases "mutex_task (mutexes k m) = NULL") auto
  with assms(1-3) show ?thesis unfolding own_ok_def by blast
qed

lemma core_okD:
  assumes "core_ok k"
  shows "rq_ok (rdy k) k" and "bl_ok (pend_on k) k" and "own_ok k" and "finite (live k)"
    and "NULL \<notin> live k" and "g_idle_task \<in> rdy k" and "mutex_list (tasks k g_idle_task) = []"
    and "t \<in> live k \<Longrightarrow> prio (tasks k t) < RHINO_CONFIG_PRI_MAX"
    and "t \<in> live k \<Longrightarrow> b_prio (tasks k t) < RHINO_CONFIG_PRI_MAX"
    and "t \<in> pend_on k b \<Longrightarrow> b \<noteq> NULL" and "t \<in> live k \<Longrightarrow> t \<noteq> NULL"
    and "b_prio (tasks k g_idle_task) = RHINO_IDLE_PRI"
  using assms unfolding core_ok_def by (auto intro: gr0I)

lemma core_okI:
  assumes "rq_ok (rdy k) k" and "bl_ok (pend_on k) k" and "own_ok k" and "finite (live k)"
    and "NULL \<notin> live k" and "g_idle_task \<in> rdy k" and "mutex_list (tasks k g_idle_task) = []"
    and "\<And>t. t \<in> live k \<Longrightarrow> prio (tasks k t) < RHINO_CONFIG_PRI_MAX"
    and "\<And>t. t \<in> live k \<Longrightarrow> b_prio (tasks k t) < RHINO_CONFIG_PRI_MAX"
    and "\<And>t. t \<notin> pend_on k NULL" and "b_prio (tasks k g_idle_task) = RHINO_IDLE_PRI"
  shows "core_ok k"
  using assms unfolding core_ok_def by blast

text \<open>On a consistent state the look-up of \<^verbatim>\<open>mutex_pri_look\<close> gives the effective priority.\<close>

lemma core_look:
  assumes "core_ok k" and "t \<in> live k"
  shows "fst (mutex_pri_look t NULL k) = eff_pri k t"
    and "snd (mutex_pri_look t NULL k) = k"
proof -
  note c = core_okD [OF assms(1)]
  let ?ms = "mutex_list (tasks k t)"
  have m: "m \<noteq> NULL \<and> sorted (map (\<lambda>w. prio (tasks k w)) (blk_list (blk_objs k m)))"
    if "m \<in> set ?ms" for m
    using own_okD(2) [OF c(3) assms(2) that] own_okD(3) [OF c(3), of m] bl_okD(3) [OF c(2), of m] by simp
  then have f: "filter (\<lambda>m. m \<noteq> NULL) ?ms = ?ms" by (auto simp: filter_id_conv)
  show "fst (mutex_pri_look t NULL k) = eff_pri k t"
    unfolding mutex_pri_look_def f Let_def using m by (simp add: mutex_pri_scan_min eff_pri_def)
  have "t \<noteq> NULL" by (rule c(11) [OF assms(2)])
  then show "snd (mutex_pri_look t NULL k) = k"
    unfolding mutex_pri_look_def f Let_def by (simp add: upd_task_def)
qed

section \<open>What a change of priorities may touch\<close>

definition pri_frame :: "kernel \<Rightarrow> kernel \<Rightarrow> bool" where
  "pri_frame k k' \<longleftrightarrow>
     g_sys_stat k' = g_sys_stat k \<and> g_idle_task_spawned k' = g_idle_task_spawned k \<and>
     g_sched_lock k' = g_sched_lock k \<and>
     g_intrpt_nested_level k' = g_intrpt_nested_level k \<and>
     g_preferred_ready_task k' = g_preferred_ready_task k \<and>
     g_active_task k' = g_active_task k \<and> g_tick_count k' = g_tick_count k \<and>
     g_tick_head k' = g_tick_head k \<and> g_sys_time_tick k' = g_sys_time_tick k \<and>
     mutexes k' = mutexes k \<and> sems k' = sems k \<and> events k' = events k \<and>
     queues k' = queues k \<and> buf_queues k' = buf_queues k \<and>
     g_res_list k' = g_res_list k \<and> mem k' = mem k \<and>
     g_err_log k' = g_err_log k \<and> g_fault k' = g_fault k \<and>
     (\<forall>t. (tasks k' t)\<lparr>prio := prio (tasks k t)\<rparr> = tasks k t) \<and>
     (\<forall>b. (blk_objs k' b)\<lparr>blk_list := blk_list (blk_objs k b)\<rparr> = blk_objs k b)"

lemma pri_frame_kernel:
  assumes "pri_frame k k'"
  shows "g_sys_stat k' = g_sys_stat k" and "g_idle_task_spawned k' = g_idle_task_spawned k"
    and "g_sched_lock k' = g_sched_lock k" and "g_intrpt_nested_level k' = g_intrpt_nested_level k"
    and "g_preferred_ready_task k' = g_preferred_ready_task k"
    and "g_active_task k' = g_active_task k" and "g_tick_count k' = g_tick_count k"
    and "g_tick_head k' = g_tick_head k" and "g_sys_time_tick k' = g_sys_time_tick k"
    and "mutexes k' = mutexes k" and "sems k' = sems k" and "events k' = events k"
    and "queues k' = queues k" and "buf_queues k' = buf_queues k" and "g_res_list k' = g_res_list k"
    and "mem k' = mem k" and "g_err_log k' = g_err_log k" and "g_fault k' = g_fault k"
  using assms by (simp_all add: pri_frame_def)

lemma pri_frame_task:
  assumes "pri_frame k k'"
  shows "task_state (tasks k' t) = task_state (tasks k t)" and "blk_obj (tasks k' t) = blk_obj (tasks k t)"
    and "b_prio (tasks k' t) = b_prio (tasks k t)" and "mutex_list (tasks k' t) = mutex_list (tasks k t)"
    and "tick_head (tasks k' t) = tick_head (tasks k t)" and "tick_match (tasks k' t) = tick_match (tasks k t)"
    and "suspend_count (tasks k' t) = suspend_count (tasks k t)"
    and "blk_state (tasks k' t) = blk_state (tasks k t)"
    and "obj_type (blk_objs k' b) = obj_type (blk_objs k b)"
    and "blk_policy (blk_objs k' b) = blk_policy (blk_objs k b)"
proof -
  have "tasks k t = (tasks k' t)\<lparr>prio := prio (tasks k t)\<rparr>"
    and "blk_objs k b = (blk_objs k' b)\<lparr>blk_list := blk_list (blk_objs k b)\<rparr>"
    using assms by (simp_all add: pri_frame_def)
  note t = arg_cong [OF this(1)] and b = arg_cong [OF this(2)]
  show "task_state (tasks k' t) = task_state (tasks k t)" and "blk_obj (tasks k' t) = blk_obj (tasks k t)"
    and "b_prio (tasks k' t) = b_prio (tasks k t)" and "mutex_list (tasks k' t) = mutex_list (tasks k t)"
    and "tick_head (tasks k' t) = tick_head (tasks k t)" and "tick_match (tasks k' t) = tick_match (tasks k t)"
    and "suspend_count (tasks k' t) = suspend_count (tasks k t)"
    and "blk_state (tasks k' t) = blk_state (tasks k t)"
    using t [of task_state] t [of blk_obj] t [of b_prio] t [of mutex_list] t [of tick_head]
      t [of tick_match] t [of suspend_count] t [of blk_state] by simp_all
  show "obj_type (blk_objs k' b) = obj_type (blk_objs k b)"
    and "blk_policy (blk_objs k' b) = blk_policy (blk_objs k b)"
    using b [of obj_type] b [of blk_policy] by simp_all
qed

lemma pri_frame_sets:
  assumes "pri_frame k k'"
  shows "rdy k' = rdy k" and "live k' = live k" and "pend_on k' = pend_on k"
  using pri_frame_task [OF assms] by (auto simp: rdy_def live_def pend_on_def)

lemma pri_frame_refl [simp]: "pri_frame k k"
  by (simp add: pri_frame_def)

lemma pri_frame_trans:
  assumes "pri_frame k k'" and "pri_frame k' k''"
  shows "pri_frame k k''"
proof -
  have "(tasks k'' t)\<lparr>prio := prio (tasks k t)\<rparr> = tasks k t" for t
  proof -
    have a: "(tasks k'' t)\<lparr>prio := prio (tasks k' t)\<rparr> = tasks k' t"
      and b: "(tasks k' t)\<lparr>prio := prio (tasks k t)\<rparr> = tasks k t"
      using assms by (simp_all add: pri_frame_def)
    have "(tasks k'' t)\<lparr>prio := prio (tasks k t)\<rparr> = (tasks k' t)\<lparr>prio := prio (tasks k t)\<rparr>"
      using a by (metis ktask.update_convs(18) ktask.surjective)
    with b show ?thesis by simp
  qed
  moreover have "(blk_objs k'' b)\<lparr>blk_list := blk_list (blk_objs k b)\<rparr> = blk_objs k b" for b
  proof -
    have a: "(blk_objs k'' b)\<lparr>blk_list := blk_list (blk_objs k' b)\<rparr> = blk_objs k' b"
      and b: "(blk_objs k' b)\<lparr>blk_list := blk_list (blk_objs k b)\<rparr> = blk_objs k b"
      using assms by (simp_all add: pri_frame_def)
    have "(blk_objs k'' b)\<lparr>blk_list := blk_list (blk_objs k b)\<rparr> =
        (blk_objs k' b)\<lparr>blk_list := blk_list (blk_objs k b)\<rparr>"
      using a by (metis blk_obj.update_convs(1) blk_obj.surjective)
    with b show ?thesis by simp
  qed
  ultimately show ?thesis using assms by (simp add: pri_frame_def)
qed

lemma core_ok_pri_frame:
  assumes core: "core_ok k" and fr: "pri_frame k k'" and rq: "rq_ok (rdy k) k'"
    and bl: "bl_ok (pend_on k) k'" and "\<forall>t \<in> live k. prio (tasks k' t) < RHINO_CONFIG_PRI_MAX"
  shows "core_ok k'"
proof -
  note c = core_okD [OF core]
  have "own_ok k'" using c(3)
    by (simp add: own_ok_def pri_frame_sets [OF fr] pri_frame_task [OF fr] pri_frame_kernel [OF fr])
  then show ?thesis
    using core assms(5) rq bl
    by (simp add: core_ok_def pri_frame_sets [OF fr] pri_frame_task [OF fr])
qed

section \<open>The loop\<close>

text \<open>The first three cases of the loop: a task that does not wait.\<close>

lemma pri_change_rdy:
  assumes rq: "rq_ok A k" and t: "t \<in> A" "A - {t} \<noteq> {}" and bl: "bl_ok W k" "\<And>b. t \<notin> W b"
    and p: "p < RHINO_CONFIG_PRI_MAX" and nn: "t \<noteq> NULL"
  defines "k1 \<equiv> upd_task t (\<lambda>x. x\<lparr>prio := p\<rparr>) (ready_list_rm t k)"
  defines "k2 \<equiv> if t = g_active_task k1 then ready_list_add_head t k1 else ready_list_add_tail t k1"
  shows "rq_ok A k2" and "bl_ok W k2" and "pri_frame k k2"
    and "tasks k2 = (tasks k)(t := (tasks k t)\<lparr>prio := p\<rparr>)"
    and "blk_objs k2 = blk_objs k"
proof -
  note rm = rq_rm [OF rq t]
  have "rq_ok (A - {t}) k1" unfolding k1_def using rm(1) by (subst rq_ok_cong) auto
  moreover have "prio (tasks k1 t) < RHINO_CONFIG_PRI_MAX" by (simp add: k1_def p)
  ultimately have "rq_ok (insert t (A - {t})) k2"
    unfolding k2_def using rq_add_head [of "A - {t}" k1 t] rq_add_tail [of "A - {t}" k1 t]
    by (cases "t = g_active_task k1") auto
  then show "rq_ok A k2" using t(1) by (simp add: insert_absorb)
  show tasks: "tasks k2 = (tasks k)(t := (tasks k t)\<lparr>prio := p\<rparr>)" and bo: "blk_objs k2 = blk_objs k"
    by (simp_all add: k2_def k1_def)
  show "bl_ok W k2" using bl by (subst bl_ok_cong [where k = k]) (auto simp: tasks bo)
  have "g_fault k1 = g_fault k" using rm(2) nn by (simp add: k1_def)
  moreover have "g_fault k2 = g_fault k1" by (simp add: k2_def)
  ultimately show "pri_frame k k2" by (simp add: pri_frame_def tasks bo) (simp add: k2_def k1_def)
qed

lemma pri_change_plain:
  fixes p :: nat
  assumes rq: "rq_ok A k" "t \<notin> A" and bl: "bl_ok W k" "\<And>b. t \<notin> W b" and nn: "t \<noteq> NULL"
  defines "k2 \<equiv> upd_task t (\<lambda>x. x\<lparr>prio := p\<rparr>) k"
  shows "rq_ok A k2" and "bl_ok W k2" and "pri_frame k k2"
proof -
  show "rq_ok A k2" unfolding k2_def using rq by (subst rq_ok_cong) auto
  show "bl_ok W k2" unfolding k2_def using bl by (subst bl_ok_cong) auto
  show "pri_frame k k2" using nn by (simp add: pri_frame_def k2_def)
qed

text \<open>The last case: a task that waits is put in its new place.\<close>

lemma pri_change_pend:
  fixes p :: nat
  assumes core: "core_ok k" and t: "t \<in> pend_on k b"
  defines "k2 \<equiv> pend_list_reorder t (upd_task t (\<lambda>x. x\<lparr>prio := p\<rparr>) k)"
  shows "rq_ok (rdy k) k2" and "bl_ok (pend_on k) k2" and "pri_frame k k2"
    and "tasks k2 = (tasks k)(t := (tasks k t)\<lparr>prio := p\<rparr>)"
proof -
  note c = core_okD [OF core]
  have b: "blk_obj (tasks k t) = b" "pended (task_state (tasks k t))" using t by (auto simp: pend_on_def)
  have one: "t \<in> pend_on k a \<Longrightarrow> a = blk_obj (tasks k t)" for a by (simp add: pend_on_def)
  have nn: "t \<noteq> NULL" using c(11) pend_on_live [OF t] by blast
  have bn: "blk_obj (tasks k t) \<noteq> NULL" using c(10) [OF t] b(1) by simp
  have tt: "t \<in> pend_on k (blk_obj (tasks k t))" using t b(1) by simp
  note r = bl_reorder [OF c(2) tt bn one, of p]
  show bl: "bl_ok (pend_on k) k2" unfolding k2_def by (rule r(1))
  show tasks: "tasks k2 = (tasks k)(t := (tasks k t)\<lparr>prio := p\<rparr>)" by (simp add: k2_def)
  have "t \<notin> rdy k" using b(2) by (auto simp: rdy_def pended_def)
  then show "rq_ok (rdy k) k2" using c(1) by (subst rq_ok_cong [where k = k]) (auto simp: tasks k2_def)
  have "(blk_objs k2 c)\<lparr>blk_list := blk_list (blk_objs k c)\<rparr> = blk_objs k c" for c
    using r(3,4) [of c] by (simp add: k2_def)
  then show "pri_frame k k2" using r(2) nn by (simp add: pri_frame_def tasks) (simp add: k2_def)
qed

text \<open>How the effective priorities change when one priority does.\<close>

lemma eff_pri_unchanged:
  assumes bl: "bl_ok W k" "bl_ok W k'"
    and tasks: "b_prio (tasks k' u) = b_prio (tasks k u)" "mutex_list (tasks k' u) = mutex_list (tasks k u)"
    and same: "\<And>m w. m \<in> set (mutex_list (tasks k u)) \<Longrightarrow> w \<in> W m \<Longrightarrow>
      prio (tasks k' w) = prio (tasks k w)"
  shows "eff_pri k' u = eff_pri k u"
  using same by (intro eff_pri_cong [OF bl tasks(1)]) (simp add: tasks(2))

lemma eff_pri_changed:
  assumes bl: "bl_ok W k" "bl_ok W k'"
    and tasks: "b_prio (tasks k' u) = b_prio (tasks k u)" "mutex_list (tasks k' u) = mutex_list (tasks k u)"
    and b: "b \<in> set (mutex_list (tasks k u))" "t \<in> W b"
    and pri: "\<And>w. prio (tasks k' w) = (if w = t then p else prio (tasks k w))"
  obtains R where "finite R" "R \<noteq> {}" "eff_pri k u = Min (insert (prio (tasks k t)) R)"
    "eff_pri k' u = Min (insert p R)"
proof
  let ?R = "insert (b_prio (tasks k u))
    (\<Union>m \<in> set (mutex_list (tasks k u)). (\<lambda>w. prio (tasks k w)) ` (W m - {t}))"
  show "finite ?R" using bl_okD(2) [OF bl(1), symmetric] by auto
  show "?R \<noteq> {}" by simp
  have "demand W k u = insert (prio (tasks k t)) ?R" using b by (fastforce simp: demand_def)
  then show "eff_pri k u = Min (insert (prio (tasks k t)) ?R)" using eff_pri_demand [OF bl(1)] by simp
  have "demand W k' u = insert p ?R" using b pri by (fastforce simp: demand_def tasks)
  then show "eff_pri k' u = Min (insert p ?R)" using eff_pri_demand [OF bl(2)] by simp
qed

text \<open>
  \<open>eff_with s d k u\<close>: the effective priority, with a further demand \<open>d\<close> on the task \<open>s\<close>: a
  task that is about to wait for a mutex of \<open>s\<close>.
\<close>

definition eff_with :: "tid \<Rightarrow> nat \<Rightarrow> kernel \<Rightarrow> tid \<Rightarrow> nat" where
  "eff_with s d k u = (if u = s then min d (eff_pri k u) else eff_pri k u)"

definition pri_sum :: "bool \<Rightarrow> kernel \<Rightarrow> nat" where
  "pri_sum up k = (\<Sum>u \<in> live k.
     if up then prio (tasks k u) else RHINO_CONFIG_PRI_MAX - prio (tasks k u))"

lemma pri_sum_less:
  assumes "finite (live k)" and "live k' = live k" and t: "t \<in> live k"
    and pri: "\<And>w. prio (tasks k' w) = (if w = t then p else prio (tasks k w))"
    and "up \<Longrightarrow> p < prio (tasks k t)"
    and "\<not> up \<Longrightarrow> prio (tasks k t) < p \<and> prio (tasks k t) < RHINO_CONFIG_PRI_MAX"
  shows "pri_sum up k' < pri_sum up k"
  unfolding pri_sum_def assms(2)
proof (rule sum_strict_mono_ex1)
  show "\<forall>u \<in> live k. (if up then prio (tasks k' u) else RHINO_CONFIG_PRI_MAX - prio (tasks k' u))
      \<le> (if up then prio (tasks k u) else RHINO_CONFIG_PRI_MAX - prio (tasks k u))"
    using pri assms(5,6) by (auto simp: diff_le_mono2)
  show "\<exists>u \<in> live k. (if up then prio (tasks k' u) else RHINO_CONFIG_PRI_MAX - prio (tasks k' u))
      < (if up then prio (tasks k u) else RHINO_CONFIG_PRI_MAX - prio (tasks k u))"
    using t pri assms(5,6) by (intro bexI [OF _ t]) auto
qed (use assms(1) in simp)

definition pri_goal :: "tid \<Rightarrow> nat \<Rightarrow> kernel \<Rightarrow> tid \<Rightarrow> nat \<Rightarrow> bool" where
  "pri_goal s d k t p \<longleftrightarrow> (\<exists>k'. pri_loop t p k = Some (RHINO_SUCCESS, k') \<and> core_ok k' \<and>
     pri_frame k k' \<and> (\<forall>u \<in> live k. prio (tasks k' u) = eff_with s d k' u))"

lemma pri_goalI:
  assumes "pri_loop t p k = Some (RHINO_SUCCESS, k')" and "core_ok k" and "rq_ok (rdy k) k'"
    and "bl_ok (pend_on k) k'" and "pri_frame k k'" and "p < RHINO_CONFIG_PRI_MAX"
    and pri: "\<And>w. prio (tasks k' w) = (if w = t then p else prio (tasks k w))"
    and "\<And>u. u \<in> live k \<Longrightarrow> prio (tasks k' u) = eff_with s d k' u"
  shows "pri_goal s d k t p"
proof -
  have "\<forall>u \<in> live k. prio (tasks k' u) < RHINO_CONFIG_PRI_MAX"
    using core_okD(8) [OF assms(2)] assms(6) unfolding pri by simp
  then have "core_ok k'" by (rule core_ok_pri_frame [OF assms(2,5,3,4)])
  then show ?thesis using assms unfolding pri_goal_def by blast
qed

text \<open>A task that does not wait demands nothing of anybody.\<close>

lemma eff_with_not_pend:
  assumes "bl_ok W k" "bl_ok W k'" "pri_frame k k'" "\<And>b. t \<notin> W b"
    and "\<And>w. prio (tasks k' w) = (if w = t then p else prio (tasks k w))"
  shows "eff_with s d k' u = eff_with s d k u"
proof -
  have "eff_pri k' u = eff_pri k u"
    using assms(4,5) pri_frame_task(3,4) [OF assms(3)]
    by (intro eff_pri_unchanged [OF assms(1,2)]) auto
  then show ?thesis by (auto simp: eff_with_def)
qed

lemma pri_goal_not_pend:
  assumes core: "core_ok k" and t: "t \<in> live k" "t \<noteq> g_idle_task" "\<not> pended (task_state (tasks k t))"
    and p: "p = eff_with s d k t" "p \<noteq> prio (tasks k t)" "p < RHINO_CONFIG_PRI_MAX"
    and others: "\<And>u. u \<in> live k \<Longrightarrow> u \<noteq> t \<Longrightarrow> prio (tasks k u) = eff_with s d k u"
  shows "pri_goal s d k t p"
proof -
  note c = core_okD [OF core]
  have nn: "t \<noteq> NULL" by (rule c(11) [OF t(1)])
  have out: "t \<notin> pend_on k b" for b using t(3) by (simp add: pend_on_def)
  have fin: "pri_goal s d k t p"
    if "pri_loop t p k = Some (RHINO_SUCCESS, k')" "rq_ok (rdy k) k'" "bl_ok (pend_on k) k'"
      "pri_frame k k'" "tasks k' = (tasks k)(t := (tasks k t)\<lparr>prio := p\<rparr>)" for k'
  proof (rule pri_goalI [OF that(1) core that(2-4) p(3)])
    show pri: "prio (tasks k' w) = (if w = t then p else prio (tasks k w))" for w by (simp add: that(5))
    show "prio (tasks k' u) = eff_with s d k' u" if "u \<in> live k" for u
      using eff_with_not_pend [OF c(2) \<open>bl_ok (pend_on k) k'\<close> \<open>pri_frame k k'\<close> out pri] others [OF that] p(1)
      by (simp add: pri)
  qed
  show ?thesis
  proof (cases "task_state (tasks k t) = K_RDY")
    case True
    then have A: "t \<in> rdy k" "rdy k - {t} \<noteq> {}" using c(6) t(2) by (auto simp: rdy_def)
    note r = pri_change_rdy [OF c(1) A c(2) out p(3) nn]
    show ?thesis by (rule fin [OF _ r(1-4)]) (use True p(2) in \<open>simp add: pri_loop.simps Let_def\<close>)
  next
    case False
    then have A: "t \<notin> rdy k" and st: "task_state (tasks k t) \<in> {K_SLEEP, K_SUSPENDED, K_SLEEP_SUSPENDED}"
      using t by (cases "task_state (tasks k t)"; auto simp: rdy_def live_def pended_def)+
    note r = pri_change_plain [OF c(1) A c(2) out nn, of p]
    show ?thesis by (rule fin [OF _ r]) (use False st p(2) in \<open>auto simp: pri_loop.simps\<close>)
  qed
qed

lemma pri_loop_pend:
  assumes "pended (task_state (tasks k t))" and "p \<noteq> prio (tasks k t)"
  defines "k2 \<equiv> pend_list_reorder t (upd_task t (\<lambda>x. x\<lparr>prio := p\<rparr>) k)"
  defines "owner \<equiv> mutex_task (mutexes k (blk_obj (tasks k t)))"
  shows "pri_loop t p k =
      (if obj_type (blk_objs k2 (blk_obj (tasks k t))) \<noteq> RHINO_MUTEX_OBJ_TYPE then Some (RHINO_SUCCESS, k2)
       else if owner = NULL then Some (RHINO_SUCCESS, fault k2)
       else if prio (tasks k2 owner) > p then pri_loop owner p k2
       else if prio (tasks k2 owner) = prio (tasks k t) then
         if fst (mutex_pri_look owner NULL k2) \<noteq> prio (tasks k2 owner)
         then pri_loop owner (fst (mutex_pri_look owner NULL k2)) (snd (mutex_pri_look owner NULL k2))
         else Some (RHINO_SUCCESS, snd (mutex_pri_look owner NULL k2))
       else Some (RHINO_SUCCESS, k2))"
proof -
  have st: "task_state (tasks k t) \<noteq> K_RDY" "task_state (tasks k t) \<notin> {K_SLEEP, K_SUSPENDED, K_SLEEP_SUSPENDED}"
    "task_state (tasks k t) \<in> {K_PEND, K_PEND_SUSPENDED}" "prio (tasks k t) \<noteq> p"
    using assms(1,2) by (auto simp: pended_def)
  have "prio (tasks k2 t) = p" "blk_obj (tasks k2 t) = blk_obj (tasks k t)" "mutexes k2 = mutexes k"
    by (simp_all add: k2_def)
  then show ?thesis
    unfolding owner_def
    by (subst pri_loop.simps) (simp only: st if_False if_True Let_def flip: k2_def)
qed

lemma pri_loop_ok:
  assumes "core_ok k" and "t \<in> live k" and "t \<noteq> g_idle_task" and "p = eff_with s d k t"
    and "\<And>u. u \<in> live k \<Longrightarrow> u \<noteq> t \<Longrightarrow> prio (tasks k u) = eff_with s d k u"
    and "up \<Longrightarrow> p < prio (tasks k t)"
    and "\<not> up \<Longrightarrow> prio (tasks k t) < p \<and> RHINO_CONFIG_PRI_MAX \<le> d"
  shows "pri_goal s d k t p"
  using assms
proof (induction "pri_sum up k" arbitrary: k t p rule: less_induct)
  case less
  note core = less.prems(1) and c = core_okD [OF less.prems(1)]
  have pm: "p < RHINO_CONFIG_PRI_MAX"
    using less.prems(4) eff_pri_le_b_prio [of k t] c(9) [OF less.prems(2)] by (simp add: eff_with_def min_def split: if_splits)
  have ne: "p \<noteq> prio (tasks k t)" using less.prems(6,7) by (cases up) auto
  show ?case
  proof (cases "pended (task_state (tasks k t))")
    case False
    then show ?thesis by (rule pri_goal_not_pend [OF core less.prems(2,3) _ less.prems(4) ne pm less.prems(5)])
  next
    case True
    define b where "b = blk_obj (tasks k t)"
    have tb: "t \<in> pend_on k b" using True by (simp add: pend_on_def b_def)
    define k2 where "k2 = pend_list_reorder t (upd_task t (\<lambda>x. x\<lparr>prio := p\<rparr>) k)"
    note r = pri_change_pend [OF core tb, of p, folded k2_def]
    have pri: "prio (tasks k2 w) = (if w = t then p else prio (tasks k w))" for w by (simp add: r(4))
    have core2: "core_ok k2" using core_ok_pri_frame [OF core r(3,1,2)] pri pm c(8) by simp
    have bb: "blk_obj (tasks k2 t) = b" by (simp add: r(4) b_def)
    note fr = pri_frame_task [OF r(3)] pri_frame_kernel [OF r(3)] pri_frame_sets [OF r(3)]
    have others: "prio (tasks k2 u) = eff_with s d k2 u"
      if u: "u \<in> live k" and nb: "b \<notin> set (mutex_list (tasks k u))" for u
    proof -
      have "eff_pri k2 u = eff_pri k u"
        using nb tb pri by (intro eff_pri_unchanged [OF c(2) r(2) fr(3,4)]) (auto simp: pend_on_def)
      then show ?thesis using less.prems(4,5) u by (auto simp: eff_with_def pri)
    qed
    let ?owner = "mutex_task (mutexes k b)"
    note loop = pri_loop_pend [OF True ne, folded b_def k2_def, unfolded fr(9)]
    have fin: "pri_goal s d k t p"
      if "pri_loop t p k = Some (RHINO_SUCCESS, k2)" "\<And>u. u \<in> live k \<Longrightarrow> prio (tasks k2 u) = eff_with s d k2 u"
      by (rule pri_goalI [OF that(1) core r(1-3) pm pri that(2)])
    have next_owner: "pri_goal s d k t p" if "pri_loop t p k = pri_loop u q k2" "pri_goal s d k2 u q" for u q
      using that pri_frame_trans [OF r(3)] fr unfolding pri_goal_def by metis
    show ?thesis
    proof (cases "obj_type (blk_objs k b) = RHINO_MUTEX_OBJ_TYPE")
      case False
      then have "b \<notin> set (mutex_list (tasks k u))" if "u \<in> live k" for u using own_okD(2) [OF c(3) that] by auto
      with False others show ?thesis by (intro fin) (auto simp: loop)
    next
      case mtx: True
      have nn: "?owner \<noteq> NULL" by (rule own_okD(4) [OF c(3) mtx tb])
      note o = own_okD(5) [OF c(3) mtx nn]
      have ot: "?owner \<noteq> t" "?owner \<noteq> g_idle_task" using o tb c(7) by auto
      have oth: "prio (tasks k2 u) = eff_with s d k2 u" if "u \<in> live k" "u \<noteq> ?owner" for u
        using others [OF that(1)] own_okD(2) [OF c(3) that(1)] that(2) by blast
      have po: "prio (tasks k2 ?owner) = eff_with s d k ?owner"
        using less.prems(5) [of ?owner] o ot by (simp add: pri)
      obtain x where R: "eff_pri k ?owner = min (prio (tasks k t)) x" "eff_pri k2 ?owner = min p x"
        using eff_pri_changed [OF c(2) r(2) fr(3,4) _ tb pri, of ?owner] o by (metis Min_insert)
      have less': "pri_sum up k2 < pri_sum up k"
        using less.prems(6,7) c(8) [OF less.prems(2)]
        by (intro pri_sum_less [OF c(4) fr(30) less.prems(2) pri]) auto
      have all: "pri_goal s d k t p"
        if "pri_loop t p k = Some (RHINO_SUCCESS, k2)" "prio (tasks k2 ?owner) = eff_with s d k2 ?owner"
        using that oth by (intro fin) metis+
      show ?thesis
      proof (cases up)
        case True
        have lt: "p < prio (tasks k t)" by (rule less.prems(6) [OF True])
        then have eo: "eff_with s d k2 ?owner = min p (prio (tasks k2 ?owner))"
          unfolding po using R by (auto simp: eff_with_def)
        show ?thesis
        proof (cases "prio (tasks k2 ?owner) > p")
          case gt: True
          have "pri_goal s d k2 ?owner p"
            using o gt eo oth True by (intro less.hyps [OF less' core2 _ ot(2)]) (auto simp: fr)
          then show ?thesis using gt nn mtx by (intro next_owner) (auto simp: loop)
        next
          case False
          with eo lt mtx nn show ?thesis by (intro all) (auto simp: loop)
        qed
      next
        case False
        have lt: "prio (tasks k t) < p" and d: "RHINO_CONFIG_PRI_MAX \<le> d" using less.prems(7) False by auto
        have ew: "eff_with s d k ?owner = eff_pri k ?owner" "eff_with s d k2 ?owner = eff_pri k2 ?owner"
          using d eff_pri_le_b_prio [of k ?owner] eff_pri_le_b_prio [of k2 ?owner] c(9) o fr(3)
          by (auto simp: eff_with_def min_def) (metis le_trans less_le_not_le)+
        have le: "\<not> prio (tasks k2 ?owner) > p" using po ew R lt by simp
        have lk: "fst (mutex_pri_look ?owner NULL k2) = eff_pri k2 ?owner" "snd (mutex_pri_look ?owner NULL k2) = k2"
          using core_look [OF core2] o by (auto simp: fr)
        show ?thesis
        proof (cases "prio (tasks k2 ?owner) = prio (tasks k t) \<and> eff_pri k2 ?owner \<noteq> prio (tasks k2 ?owner)")
          case again: True
          have "prio (tasks k2 ?owner) < eff_pri k2 ?owner" using again po ew R lt by auto
          then have "pri_goal s d k2 ?owner (eff_pri k2 ?owner)"
            using o ew oth False d by (intro less.hyps [OF less' core2 _ ot(2)]) (auto simp: fr)
          then show ?thesis using again le nn mtx lk by (intro next_owner) (auto simp: loop)
        next
          case stop: False
          then have "prio (tasks k2 ?owner) = eff_with s d k2 ?owner" using po ew R lt by auto
          then show ?thesis using stop le nn mtx lk by (intro all) (auto simp: loop)
        qed
      qed
    qed
  qed
qed

section \<open>Priority inheritance\<close>

definition pi_ok :: "kernel \<Rightarrow> bool" where
  "pi_ok k \<longleftrightarrow> (\<forall>t \<in> live k. prio (tasks k t) = eff_pri k t)"

definition pi_but :: "tid \<Rightarrow> kernel \<Rightarrow> bool" where
  "pi_but t k \<longleftrightarrow> (\<forall>u \<in> live k. u \<noteq> t \<longrightarrow> prio (tasks k u) = eff_pri k u)"

lemma pi_ok_but: "pi_ok k \<Longrightarrow> pi_but t k"
  by (simp add: pi_ok_def pi_but_def)

lemma eff_with_none: "core_ok k \<Longrightarrow> u \<in> live k \<Longrightarrow> eff_with s RHINO_CONFIG_PRI_MAX k u = eff_pri k u"
  using eff_pri_le_b_prio [of k u] core_okD(9) [of k u] by (auto simp: eff_with_def min_def)

text \<open>A change to the effective priority repairs the only task that does not have it.\<close>

lemma task_pri_change_ok:
  assumes core: "core_ok k" and t: "t \<in> live k" "t \<noteq> g_idle_task" and pi: "pi_but t k"
  shows "\<exists>k'. task_pri_change t (eff_pri k t) k = (RHINO_SUCCESS, k') \<and> core_ok k' \<and>
    pri_frame k k' \<and> pi_ok k'"
proof (cases "eff_pri k t = prio (tasks k t)")
  case True
  then have "pi_ok k" using pi by (auto simp: pi_ok_def pi_but_def)
  with True core show ?thesis by (auto simp: task_pri_change_def pri_loop.simps)
next
  case False
  let ?d = RHINO_CONFIG_PRI_MAX
  have "pri_goal t ?d k t (eff_pri k t)"
    by (rule pri_loop_ok [OF core t, where up = "eff_pri k t < prio (tasks k t)"])
      (use False t pi eff_with_none [OF core] in \<open>auto simp: pi_but_def\<close>)
  then obtain k' where k': "pri_loop t (eff_pri k t) k = Some (RHINO_SUCCESS, k')" "core_ok k'"
    "pri_frame k k'" "\<forall>u \<in> live k. prio (tasks k' u) = eff_with t ?d k' u"
    by (auto simp: pri_goal_def)
  then have "pi_ok k'"
    using eff_with_none [OF k'(2)] by (simp add: pi_ok_def pri_frame_sets)
  with k' show ?thesis by (auto simp: task_pri_change_def)
qed

text \<open>Raising the owner of a mutex on behalf of a task that is about to wait for it.\<close>

lemma task_pri_change_raise:
  assumes core: "core_ok k" and t: "t \<in> live k" "t \<noteq> g_idle_task" and pi: "pi_ok k"
    and d: "d < prio (tasks k t)"
  shows "\<exists>k'. task_pri_change t d k = (RHINO_SUCCESS, k') \<and> core_ok k' \<and> pri_frame k k' \<and>
    (\<forall>u \<in> live k. prio (tasks k' u) = eff_with t d k' u)"
proof -
  have "pri_goal t d k t d"
    by (rule pri_loop_ok [OF core t, where up = True]) (use d t pi in \<open>auto simp: pi_ok_def eff_with_def\<close>)
  then show ?thesis by (auto simp: pri_goal_def task_pri_change_def)
qed

lemma mutex_release_ok:
  assumes core: "core_ok k" and t: "t \<in> live k" "t \<noteq> g_idle_task" and pi: "pi_but t k"
  shows "core_ok (mutex_release t NULL k) \<and> pri_frame k (mutex_release t NULL k) \<and>
    pi_ok (mutex_release t NULL k)"
proof -
  have look: "mutex_pri_look t NULL k = (eff_pri k t, k)"
    using core_look [OF core t(1)] by (metis prod.collapse)
  show ?thesis
  proof (cases "eff_pri k t = prio (tasks k t)")
    case True
    then have "pi_ok k" using pi by (auto simp: pi_ok_def pi_but_def)
    with True core look show ?thesis by (simp add: mutex_release_def)
  next
    case False
    with look task_pri_change_ok [OF assms] show ?thesis by (auto simp: mutex_release_def)
  qed
qed

text \<open>After a task has left the list of the object it waited for.\<close>

lemma mutex_task_pri_reset_ok:
  assumes core: "core_ok k" and b: "blk_obj (tasks k t) = b" "b \<noteq> NULL"
    and mtx: "obj_type (blk_objs k b) = RHINO_MUTEX_OBJ_TYPE \<Longrightarrow> mutex_task (mutexes k b) \<noteq> NULL \<and>
      pi_but (mutex_task (mutexes k b)) k \<and>
      (prio (tasks k (mutex_task (mutexes k b))) \<noteq> prio (tasks k t) \<longrightarrow> pi_ok k)"
    and other: "obj_type (blk_objs k b) \<noteq> RHINO_MUTEX_OBJ_TYPE \<Longrightarrow> pi_ok k"
  shows "core_ok (mutex_task_pri_reset t k) \<and> pri_frame k (mutex_task_pri_reset t k) \<and>
    pi_ok (mutex_task_pri_reset t k)"
proof (cases "obj_type (blk_objs k b) = RHINO_MUTEX_OBJ_TYPE")
  case True
  let ?o = "mutex_task (mutexes k b)"
  note m = mtx [OF True] and o = own_okD(5) [OF core_okD(3) [OF core] True]
  have live: "?o \<in> live k" "?o \<noteq> g_idle_task" using o m core_okD(7) [OF core] by auto
  show ?thesis
  proof (cases "prio (tasks k ?o) = prio (tasks k t)")
    case eq: True
    have "mutex_task_pri_reset t k = mutex_release ?o NULL k"
      using True eq m b by (simp add: mutex_task_pri_reset_def Let_def)
    with mutex_release_ok [OF core live] m show ?thesis by simp
  next
    case False
    then have "mutex_task_pri_reset t k = k" using True m b by (simp add: mutex_task_pri_reset_def Let_def)
    with False m core show ?thesis by simp
  qed
next
  case False
  then have "mutex_task_pri_reset t k = k" using b by (simp add: mutex_task_pri_reset_def Let_def)
  with False other core show ?thesis by simp
qed

end
