(* ===== verification/Rhino_Msg_Ring.thy ===== *)
theory Rhino_Msg_Ring
  imports Rhino_Ringbuf
begin

text \<open>
  What the queues rely on of a ring buffer: the contract of a message ring, and that the
  dynamic and the fixed-size rings of \<^verbatim>\<open>k_ringbuf.c\<close> keep it.
\<close>

section \<open>The contract of a message ring\<close>

text \<open>
  What the queues rely on: \<open>holds r ms\<close> relates a ring to the messages it holds, oldest
  first; a push appends when the message fits and changes nothing otherwise; a pop removes
  the first one. Pushing and popping whole sequences is derived once, from the contract.
\<close>

fun push_all :: "('r \<Rightarrow> 'm \<Rightarrow> kstat \<times> 'r) \<Rightarrow> 'r \<Rightarrow> 'm list \<Rightarrow> 'r option" where
  "push_all push r [] = Some r"
| "push_all push r (m # ms) =
     (case push r m of (st, r') \<Rightarrow> if st = RHINO_SUCCESS then push_all push r' ms else None)"

fun pop_many :: "('r \<Rightarrow> kstat \<times> 'm \<times> 'r) \<Rightarrow> 'r \<Rightarrow> nat \<Rightarrow> ('m list \<times> 'r) option" where
  "pop_many pop r 0 = Some ([], r)"
| "pop_many pop r (Suc n) =
     (case pop r of (st, m, r') \<Rightarrow>
        if st = RHINO_SUCCESS
        then (case pop_many pop r' n of None \<Rightarrow> None | Some (ms, r'') \<Rightarrow> Some (m # ms, r''))
        else None)"

text \<open>Sequences of pushes and pops, on a ring and on the abstract queue of capacity
  \<open>cap\<close> where a message takes \<open>weight\<close>; each operation gives its status and the message
  popped.\<close>

datatype 'm ring_op = RPush 'm | RPop

fun ring_exec :: "('r \<Rightarrow> 'm \<Rightarrow> kstat \<times> 'r) \<Rightarrow> ('r \<Rightarrow> kstat \<times> 'm \<times> 'r) \<Rightarrow>
    'm ring_op list \<Rightarrow> 'r \<Rightarrow> (kstat \<times> 'm option) list" where
  "ring_exec push pop [] r = []"
| "ring_exec push pop (RPush m # ops) r =
     (case push r m of (st, r') \<Rightarrow> (st, None) # ring_exec push pop ops r')"
| "ring_exec push pop (RPop # ops) r =
     (case pop r of (st, m, r') \<Rightarrow>
        (st, if st = RHINO_SUCCESS then Some m else None) # ring_exec push pop ops r')"

fun queue_exec :: "('m \<Rightarrow> nat) \<Rightarrow> nat \<Rightarrow> 'm ring_op list \<Rightarrow> 'm list \<Rightarrow> (kstat \<times> 'm option) list"
where
  "queue_exec weight cap [] ms = []"
| "queue_exec weight cap (RPush m # ops) ms =
     (if weight m + sum_list (map weight ms) \<le> cap
      then (RHINO_SUCCESS, None) # queue_exec weight cap ops (ms @ [m])
      else (RHINO_RINGBUF_FULL, None) # queue_exec weight cap ops ms)"
| "queue_exec weight cap (RPop # ops) ms =
     (case ms of [] \<Rightarrow> (RHINO_RINGBUF_EMPTY, None) # queue_exec weight cap ops []
      | m # ms' \<Rightarrow> (RHINO_SUCCESS, Some m) # queue_exec weight cap ops ms')"

locale msg_ring =
  fixes holds :: "'r \<Rightarrow> 'm list \<Rightarrow> bool"
    and ok :: "'m \<Rightarrow> bool"
    and fits :: "'m \<Rightarrow> 'r \<Rightarrow> bool"
    and push :: "'r \<Rightarrow> 'm \<Rightarrow> kstat \<times> 'r"
    and pop :: "'r \<Rightarrow> kstat \<times> 'm \<times> 'r"
  assumes push_fits: "holds r ms \<Longrightarrow> ok m \<Longrightarrow> fits m r \<Longrightarrow>
      \<exists>r'. push r m = (RHINO_SUCCESS, r') \<and> holds r' (ms @ [m])"
    and push_full: "holds r ms \<Longrightarrow> ok m \<Longrightarrow> \<not> fits m r \<Longrightarrow> push r m = (RHINO_RINGBUF_FULL, r)"
    and pop_Cons: "holds r (m # ms) \<Longrightarrow> \<exists>r'. pop r = (RHINO_SUCCESS, m, r') \<and> holds r' ms"
    and pop_Nil: "holds r [] \<Longrightarrow> fst (pop r) = RHINO_RINGBUF_EMPTY \<and> snd (snd (pop r)) = r"
begin

lemma push_all_holds:
  assumes "holds r ms" and "\<forall>m \<in> set xs. ok m" and "push_all push r xs = Some r'"
  shows "holds r' (ms @ xs)"
  using assms
proof (induction xs arbitrary: r ms)
  case (Cons x xs)
  have "fits x r"
  proof (rule ccontr)
    assume "\<not> fits x r"
    then have "push r x = (RHINO_RINGBUF_FULL, r)" using Cons.prems by (intro push_full) auto
    with Cons.prems(3) show False by simp
  qed
  then obtain r1 where r1: "push r x = (RHINO_SUCCESS, r1)" "holds r1 (ms @ [x])"
    using push_fits Cons.prems by fastforce
  then have "holds r' ((ms @ [x]) @ xs)" using Cons.prems by (intro Cons.IH) auto
  then show ?case by simp
qed simp

lemma pop_many_holds:
  "holds r (xs @ ms) \<Longrightarrow> \<exists>r'. pop_many pop r (length xs) = Some (xs, r') \<and> holds r' ms"
proof (induction xs arbitrary: r)
  case (Cons x xs)
  then obtain r1 where r1: "pop r = (RHINO_SUCCESS, x, r1)" "holds r1 (xs @ ms)"
    using pop_Cons by fastforce
  from Cons.IH [OF r1(2)] r1(1) show ?case by auto
qed simp

lemma fifo_order:
  assumes "holds r ms" and "\<forall>m \<in> set xs. ok m" and "push_all push r xs = Some r'"
  shows "\<exists>r''. pop_many pop r' (length (ms @ xs)) = Some (ms @ xs, r'') \<and> holds r'' []"
  using pop_many_holds [of r' "ms @ xs" "[]"] push_all_holds [OF assms] by simp

end

text \<open>With a capacity, a ring cannot be told from the abstract queue.\<close>

locale bounded_ring = msg_ring +
  fixes weight :: "'b \<Rightarrow> nat" and cap :: nat
  assumes fits_iff: "holds r ms \<Longrightarrow> ok m \<Longrightarrow>
      fits m r \<longleftrightarrow> weight m + sum_list (map weight ms) \<le> cap"
begin

lemma exec_refines:
  assumes "holds r ms" and "\<forall>m. RPush m \<in> set ops \<longrightarrow> ok m"
  shows "ring_exec push pop ops r = queue_exec weight cap ops ms"
  using assms
proof (induction ops arbitrary: r ms)
  case (Cons op ops)
  have ops: "\<forall>m. RPush m \<in> set ops \<longrightarrow> ok m" using Cons.prems(2) by simp
  show ?case
  proof (cases op)
    case (RPush m)
    then have m: "ok m" using Cons.prems(2) by simp
    show ?thesis
    proof (cases "fits m r")
      case True
      obtain r' where "push r m = (RHINO_SUCCESS, r')" "holds r' (ms @ [m])"
        using push_fits [OF Cons.prems(1) m True] by blast
      with RPush True fits_iff [OF Cons.prems(1) m] Cons.IH [OF _ ops] show ?thesis by simp
    next
      case False
      with RPush fits_iff [OF Cons.prems(1) m] push_full [OF Cons.prems(1) m]
        Cons.IH [OF Cons.prems(1) ops] show ?thesis by simp
    qed
  next
    case RPop
    show ?thesis
    proof (cases ms)
      case Nil
      then have "fst (pop r) = RHINO_RINGBUF_EMPTY" "snd (snd (pop r)) = r" "holds r []"
        using pop_Nil Cons.prems(1) by auto
      with RPop Nil Cons.IH [of r "[]", OF _ ops] show ?thesis by (simp add: case_prod_beta)
    next
      case (Cons m ms')
      then obtain r' where "pop r = (RHINO_SUCCESS, m, r')" "holds r' ms'"
        using pop_Cons Cons.prems(1) by blast
      with RPop Cons Cons.IH [OF _ ops] show ?thesis by simp
    qed
  qed
qed simp

end

section \<open>Dynamic rings implement the contract\<close>

definition dyn_ok :: "u8 list \<Rightarrow> bool" where
  "dyn_ok m \<longleftrightarrow> 1 \<le> length m \<and> length m \<le> RINGBUF_LEN_3BYTES_MAXVALUE"

definition dyn_enc :: "u8 list \<Rightarrow> u8 list" where
  "dyn_enc m = len_hdr (length m) @ m"

definition dyn_holds :: "nat \<Rightarrow> k_ringbuf \<Rightarrow> u8 list list \<Rightarrow> bool" where
  "dyn_holds N r ms \<longleftrightarrow> rb_end r = N \<and> rb_inv r \<and> rb_type r = RINGBUF_TYPE_DYN \<and>
     rb_bytes r = concat (map dyn_enc ms) \<and> (\<forall>m \<in> set ms. dyn_ok m)"

definition dyn_fits :: "u8 list \<Rightarrow> k_ringbuf \<Rightarrow> bool" where
  "dyn_fits m r \<longleftrightarrow> length (dyn_enc m) \<le> freesize r"

definition ring_push :: "k_ringbuf \<Rightarrow> u8 list \<Rightarrow> kstat \<times> k_ringbuf" where
  "ring_push r m = ringbuf_push r m (length m)"

definition ring_pop :: "k_ringbuf \<Rightarrow> kstat \<times> u8 list \<times> k_ringbuf" where
  "ring_pop r = (case ringbuf_pop r of (st, d, n, r') \<Rightarrow> (st, d, r'))"

lemma rb_get_frame [simp]:
  "rb_mem (snd (rb_get n r)) = rb_mem r" "rb_tail (snd (rb_get n r)) = rb_tail r"
  "rb_type (snd (rb_get n r)) = rb_type r" "blk_size (snd (rb_get n r)) = blk_size r"
  "rb_head (snd (rb_get n r)) = rb_head r + n"
  by (simp_all add: rb_get_def)

lemma rb_get_twice:
  assumes inv: "rb_inv r" and h: "rb_head r < rb_end r" and s: "s = rb_end r - rb_head r"
    and sn: "s < n" and n: "n \<le> rb_used r"
  defines "r1 \<equiv> (snd (rb_get s r))\<lparr>rb_head := 0\<rparr>"
  shows "fst (rb_get s r) @ fst (rb_get (n - s) r1) = take n (rb_bytes r)"
    and "rb_inv (snd (rb_get (n - s) r1))"
    and "rb_bytes (snd (rb_get (n - s) r1)) = drop n (rb_bytes r)"
proof -
  have fit: "rb_head r + s \<le> rb_end r" and su: "s \<le> rb_used r" using h s sn n by simp_all
  note g = rb_get_ok [OF inv fit su]
  have at_end: "rb_head (snd (rb_get s r)) = rb_end (snd (rb_get s r))" using h s by simp
  have r1: "rb_inv r1" "rb_bytes r1 = drop s (rb_bytes r)"
    using rb_head_to_0 [OF g(1) at_end] g(3) by (simp_all add: r1_def)
  have "rb_used r1 = rb_used r - s" using r1(2) length_rb_bytes by (metis length_drop)
  then have n1: "n - s \<le> rb_used r1" using n by simp
  have "rb_used r1 \<le> rb_end r1" by (simp add: rb_used_def)
  then have f1: "rb_head r1 + (n - s) \<le> rb_end r1" using n1 by (simp add: r1_def)
  note g1 = rb_get_ok [OF r1(1) f1 n1]
  show "fst (rb_get s r) @ fst (rb_get (n - s) r1) = take n (rb_bytes r)"
    unfolding g(2) g1(2) r1(2) using sn by (metis less_imp_le le_add_diff_inverse take_add)
  show "rb_inv (snd (rb_get (n - s) r1))" by (rule g1(1))
  show "rb_bytes (snd (rb_get (n - s) r1)) = drop n (rb_bytes r)"
    unfolding g1(3) r1(2) using sn by simp
qed

lemma rb_get_hdr_ok:
  assumes inv: "rb_inv r" and h: "rb_head r < rb_end r" and n: "n \<le> rb_used r"
  shows "fst (rb_get_hdr n r) = take n (rb_bytes r)" and "rb_inv (snd (rb_get_hdr n r))"
    and "rb_bytes (snd (rb_get_hdr n r)) = drop n (rb_bytes r)"
proof -
  let ?s = "rb_end r - rb_head r"
  have "fst (rb_get_hdr n r) = take n (rb_bytes r) \<and> rb_inv (snd (rb_get_hdr n r)) \<and>
    rb_bytes (snd (rb_get_hdr n r)) = drop n (rb_bytes r)"
  proof (cases "?s < n")
    case True
    with rb_get_twice [OF inv h refl True n] h show ?thesis
      by (simp add: rb_get_hdr_def Let_def case_prod_beta)
  next
    case False
    with h have fit: "rb_head r + n \<le> rb_end r" by simp
    from False have "rb_get_hdr n r = rb_get n r" by (simp add: rb_get_hdr_def Let_def)
    with rb_get_ok [OF inv fit n] show ?thesis by simp
  qed
  then show "fst (rb_get_hdr n r) = take n (rb_bytes r)" and "rb_inv (snd (rb_get_hdr n r))"
    and "rb_bytes (snd (rb_get_hdr n r)) = drop n (rb_bytes r)" by auto
qed

lemma rb_get_data_ok:
  assumes inv: "rb_inv r" and h: "rb_head r < rb_end r" and n: "n \<le> rb_used r"
    and u: "rb_used r < rb_end r"
  shows "fst (rb_get_data n r) = take n (rb_bytes r)" and "rb_inv (snd (rb_get_data n r))"
    and "rb_bytes (snd (rb_get_data n r)) = drop n (rb_bytes r)"
proof -
  let ?s = "rb_end r - rb_head r"
  have "fst (rb_get_data n r) = take n (rb_bytes r) \<and> rb_inv (snd (rb_get_data n r)) \<and>
    rb_bytes (snd (rb_get_data n r)) = drop n (rb_bytes r)"
  proof (cases "rb_head r > rb_tail r \<and> ?s < n")
    case True
    with rb_get_twice [OF inv h refl _ n] show ?thesis
      by (simp add: rb_get_data_def Let_def case_prod_beta)
  next
    case False
    have fit: "rb_head r + n \<le> rb_end r"
    proof (cases "rb_head r \<le> rb_tail r")
      case True
      then show ?thesis using rb_used_before_tail [OF inv _ u n h] by simp
    qed (use False h in linarith)
    from False have "rb_get_data n r = rb_get n r" unfolding rb_get_data_def Let_def by argo
    with rb_get_ok [OF inv fit n] show ?thesis by simp
  qed
  then show "fst (rb_get_data n r) = take n (rb_bytes r)" and "rb_inv (snd (rb_get_data n r))"
    and "rb_bytes (snd (rb_get_data n r)) = drop n (rb_bytes r)" by auto
qed

lemma rb_get_hdr_frame [simp]:
  "rb_mem (snd (rb_get_hdr n r)) = rb_mem r" "rb_type (snd (rb_get_hdr n r)) = rb_type r"
  "blk_size (snd (rb_get_hdr n r)) = blk_size r"
  by (simp_all add: rb_get_hdr_def Let_def case_prod_beta)

lemma rb_get_data_frame [simp]:
  "rb_mem (snd (rb_get_data n r)) = rb_mem r" "rb_type (snd (rb_get_data n r)) = rb_type r"
  "blk_size (snd (rb_get_data n r)) = blk_size r"
  by (simp_all add: rb_get_data_def Let_def case_prod_beta)

lemma length_len_hdr: "n \<le> RINGBUF_LEN_3BYTES_MAXVALUE \<Longrightarrow>
    fst (ringbuf_headlen_compress n) = length (len_hdr n)"
  by (simp add: len_hdr_def hdr_konst Let_def)

lemma len_hdr_pos: "n \<le> RINGBUF_LEN_3BYTES_MAXVALUE \<Longrightarrow> 1 \<le> length (len_hdr n)"
  using headlen_ok(3) [of n] by (simp add: Suc_le_eq)

text \<open>The header of an admissible message passes the checks of the two push operations, and a
  full ring has no room for any message.\<close>

lemma hdr_push:
  assumes "dyn_ok m"
  shows "take (fst (ringbuf_headlen_compress (length m))) (snd (ringbuf_headlen_compress (length m)))
      = len_hdr (length m)"
    and "0 < fst (ringbuf_headlen_compress (length m))"
    and "fst (ringbuf_headlen_compress (length m)) \<le> RINGBUF_LEN_MAX_SIZE"
    and "fst (ringbuf_headlen_compress (length m)) + length m \<le> freesize r \<longleftrightarrow> dyn_fits m r"
proof -
  have n: "length m \<le> RINGBUF_LEN_3BYTES_MAXVALUE" using assms by (simp add: dyn_ok_def)
  note f = length_len_hdr [OF n]
  show "0 < fst (ringbuf_headlen_compress (length m))"
    and "fst (ringbuf_headlen_compress (length m)) \<le> RINGBUF_LEN_MAX_SIZE"
    using headlen_ok(3) [OF n] len_hdr_pos [OF n] f by simp_all
qed (use length_len_hdr assms in \<open>simp_all add: len_hdr_def dyn_fits_def dyn_enc_def dyn_ok_def\<close>)

lemma full_not_fits:
  assumes "rb_type r = RINGBUF_TYPE_DYN" and "dyn_ok m" and "ringbuf_is_full r"
  shows "\<not> dyn_fits m r"
proof -
  have "freesize r < 2" using assms(1,3) by (simp add: ringbuf_is_full_def rb_konst)
  moreover have "1 \<le> length m" using assms(2) by (simp add: dyn_ok_def)
  ultimately show ?thesis using hdr_push(2) [OF assms(2)] hdr_push(4) [OF assms(2), of r] by linarith
qed

text \<open>\<^verbatim>\<open>ringbuf_push\<close> with the header case resolved.\<close>

lemma ringbuf_push_dyn_eq:
  assumes "rb_type r = RINGBUF_TYPE_DYN" and "dyn_ok m"
  shows "ringbuf_push r m (length m) =
    (if dyn_fits m r
     then (RHINO_SUCCESS,
           rb_put_split m (rb_wrap_tail (rb_put_split (len_hdr (length m)) (rb_wrap_tail r))))
     else (RHINO_RINGBUF_FULL, r))"
proof (cases "ringbuf_is_full r")
  case True
  with full_not_fits [OF assms] show ?thesis by (simp add: ringbuf_push_def)
next
  case False
  have nf: "rb_type r \<noteq> RINGBUF_TYPE_FIX" using assms(1) by (simp add: rb_konst)
  note h = hdr_push [OF assms(2)]
  show ?thesis
  proof (cases "dyn_fits m r")
    case True
    with h(4) [of r] h(1-3) nf False show ?thesis
      by (simp add: ringbuf_push_def case_prod_beta Let_def)
  next
    case F: False
    with h(4) [of r] h(1-3) nf False show ?thesis
      by (simp add: ringbuf_push_def case_prod_beta Let_def)
  qed
qed

lemma dyn_push_fits:
  assumes "dyn_holds N r ms" and "dyn_ok m" and "dyn_fits m r"
  shows "\<exists>r'. ring_push r m = (RHINO_SUCCESS, r') \<and> dyn_holds N r' (ms @ [m])"
proof -
  let ?h = "len_hdr (length m)" and ?w = "rb_wrap_tail r"
  let ?a = "rb_put_split ?h ?w"
  have inv: "rb_inv r" and ty: "rb_type r = RINGBUF_TYPE_DYN"
    and bs: "rb_bytes r = concat (map dyn_enc ms)" using assms(1) by (simp_all add: dyn_holds_def)
  have free: "length ?h + length m \<le> freesize r" using assms(3) by (simp add: dyn_fits_def dyn_enc_def)
  have w: "rb_inv ?w" "rb_tail ?w < rb_end ?w"
    using rb_wrap_tail_inv [OF inv] rb_wrap_tail_less [OF inv] by simp_all
  have hw: "length ?h \<le> freesize ?w" using free by simp
  note a = rb_put_split_ok [OF w hw] rb_put_split_size [OF w hw]
  have w2: "rb_inv (rb_wrap_tail ?a)" "rb_tail (rb_wrap_tail ?a) < rb_end (rb_wrap_tail ?a)"
    using rb_wrap_tail_inv [OF a(1)] rb_wrap_tail_less [OF a(1)] by simp_all
  have "length m \<le> freesize (rb_wrap_tail ?a)" using a(4) free by simp
  note b = rb_put_split_ok [OF w2 this] rb_put_split_size [OF w2 this]
  have "dyn_holds N (rb_put_split m (rb_wrap_tail ?a)) (ms @ [m])"
    using assms(1,2) b a bs by (simp add: dyn_holds_def dyn_enc_def)
  with ringbuf_push_dyn_eq [OF ty assms(2)] assms(3) show ?thesis by (simp add: ring_push_def)
qed

lemma dyn_push_full:
  assumes "dyn_holds N r ms" and "dyn_ok m" and "\<not> dyn_fits m r"
  shows "ring_push r m = (RHINO_RINGBUF_FULL, r)"
  using ringbuf_push_dyn_eq [OF _ assms(2), of r] assms by (simp add: ring_push_def dyn_holds_def)

text \<open>\<^verbatim>\<open>ringbuf_pop\<close> of a ring that starts with a header and its message.\<close>

lemma rb_used_bytes: "rb_bytes r = bs \<Longrightarrow> rb_used r = length bs"
  by (metis length_rb_bytes)

lemma ringbuf_pop_dyn:
  assumes inv: "rb_inv r" and ty: "rb_type r = RINGBUF_TYPE_DYN" and ok: "dyn_ok m"
    and bs: "rb_bytes r = dyn_enc m @ rest"
  shows "\<exists>r'. ringbuf_pop r = (RHINO_SUCCESS, m, length m, r') \<and> rb_inv r' \<and>
    rb_type r' = RINGBUF_TYPE_DYN \<and> rb_bytes r' = rest \<and> rb_end r' = rb_end r"
proof -
  let ?h = "len_hdr (length m)" and ?r1 = "rb_wrap_head r"
  have n: "length m \<le> RINGBUF_LEN_3BYTES_MAXVALUE" using ok by (simp add: dyn_ok_def)
  note hd = headlen_ok [OF n]
  have fs: "freesize r \<le> rb_end r" using inv by (simp add: rb_inv_def)
  have used: "rb_used r = length ?h + length m + length rest"
    using rb_used_bytes [OF bs] by (simp add: dyn_enc_def)
  have pos: "0 < length ?h" using hd(3) by simp
  then have "\<not> ringbuf_is_empty r"
    using used unfolding ringbuf_is_empty_def rb_used_def by linarith
  have r1: "rb_inv ?r1" "rb_head ?r1 < rb_end ?r1"
    using rb_wrap_head_inv [OF inv] rb_wrap_head_less [OF inv] by simp_all
  have "rb_mem ?r1 ! rb_head ?r1 = rb_bytes ?r1 ! 0"
    using nth_rb_bytes [of 0 ?r1] used pos r1(2) by simp
  also have "\<dots> = ?h ! 0" using bs pos by (simp add: dyn_enc_def nth_append)
  finally have cls: "hdr_class (rb_mem ?r1 ! rb_head ?r1) = length ?h" using hd(1) by simp
  have hu: "length ?h \<le> rb_used ?r1" using used by simp
  note g = rb_get_hdr_ok [OF r1 hu]
  let ?r2 = "snd (rb_get_hdr (length ?h) ?r1)"
  have g1: "fst (rb_get_hdr (length ?h) ?r1) = ?h" and g3: "rb_bytes ?r2 = m @ rest"
    using g(1,3) bs by (simp_all add: dyn_enc_def)
  let ?r3 = "rb_wrap_head ?r2"
  have r3: "rb_inv ?r3" "rb_head ?r3 < rb_end ?r3"
    using rb_wrap_head_inv [OF g(2)] rb_wrap_head_less [OF g(2)] by simp_all
  have u3: "rb_used ?r3 = length m + length rest" using rb_used_bytes [OF g3] by simp
  have "rb_used ?r3 < rb_end ?r3"
  proof -
    have "rb_used r \<le> rb_end r" by (simp add: rb_used_def)
    then have "length m + length rest < rb_end r" using used pos by linarith
    with u3 show ?thesis by simp
  qed
  note d = rb_get_data_ok [OF r3 _ this, of "length m"]
  have d1: "fst (rb_get_data (length m) ?r3) = m" "rb_inv (snd (rb_get_data (length m) ?r3))"
    "rb_bytes (snd (rb_get_data (length m) ?r3)) = rest"
    using d u3 g3 by simp_all
  have nf: "rb_type r \<noteq> RINGBUF_TYPE_FIX" using ty by (simp add: rb_konst)
  have "ringbuf_pop r = (RHINO_SUCCESS, m, length m, snd (rb_get_data (length m) ?r3))"
    using \<open>\<not> ringbuf_is_empty r\<close> nf cls pos g1 hd(2) d1(1)
    by (simp add: ringbuf_pop_def Let_def hdr_class_def [symmetric] case_prod_beta)
  then show ?thesis using d1 ty by simp
qed

lemma dyn_pop_Cons:
  assumes "dyn_holds N r (m # ms)"
  shows "\<exists>r'. ring_pop r = (RHINO_SUCCESS, m, r') \<and> dyn_holds N r' ms"
proof -
  have "rb_end r = N" "rb_inv r" "rb_type r = RINGBUF_TYPE_DYN" "dyn_ok m"
    "rb_bytes r = dyn_enc m @ concat (map dyn_enc ms)" "\<forall>m \<in> set ms. dyn_ok m"
    using assms by (simp_all add: dyn_holds_def)
  then show ?thesis using ringbuf_pop_dyn by (fastforce simp: ring_pop_def dyn_holds_def)
qed

lemma ring_pop_empty:
  assumes "rb_inv r" and "rb_bytes r = []"
  shows "fst (ring_pop r) = RHINO_RINGBUF_EMPTY \<and> snd (snd (ring_pop r)) = r"
  using assms(1) rb_used_bytes [OF assms(2)]
  by (simp add: ring_pop_def ringbuf_pop_def ringbuf_is_empty_def rb_used_def rb_inv_def)

lemma dyn_pop_Nil:
  "dyn_holds N r [] \<Longrightarrow> fst (ring_pop r) = RHINO_RINGBUF_EMPTY \<and> snd (snd (ring_pop r)) = r"
  by (intro ring_pop_empty) (simp_all add: dyn_holds_def)

interpretation dyn: msg_ring "dyn_holds N" dyn_ok dyn_fits ring_push ring_pop
  for N
  by unfold_locales (rule dyn_push_fits dyn_push_full dyn_pop_Cons dyn_pop_Nil; assumption)+

section \<open>Fixed-size rings implement the contract\<close>

text \<open>
  The blocks of a fixed ring never straddle the end of the memory: the size of the memory
  and both pointers are multiples of the block size.
\<close>

definition fix_ok :: "nat \<Rightarrow> u8 list \<Rightarrow> bool" where
  "fix_ok b m \<longleftrightarrow> length m = b"

definition fix_holds :: "nat \<Rightarrow> nat \<Rightarrow> k_ringbuf \<Rightarrow> u8 list list \<Rightarrow> bool" where
  "fix_holds N b r ms \<longleftrightarrow> rb_end r = N \<and> rb_inv r \<and> rb_type r = RINGBUF_TYPE_FIX \<and> blk_size r = b \<and> 0 < b \<and>
     b dvd N \<and> b dvd rb_head r \<and> b dvd rb_tail r \<and>
     rb_bytes r = concat ms \<and> (\<forall>m \<in> set ms. fix_ok b m)"

definition fix_fits :: "u8 list \<Rightarrow> k_ringbuf \<Rightarrow> bool" where
  "fix_fits m r \<longleftrightarrow> blk_size r \<le> freesize r"

lemma dvd_less_room:
  fixes b t n :: nat
  assumes "b dvd t" and "b dvd n" and "t < n"
  shows "t + b \<le> n"
proof -
  obtain i j where "t = b * i" "n = b * j" using assms by (auto elim!: dvdE)
  moreover from this assms(3) have "i < j" by (metis mult_less_cancel1)
  ultimately show ?thesis by (metis Suc_leI add.commute mult_Suc_right mult_le_mono2)
qed

lemma rb_wrap_tail_dvd: "b dvd rb_tail r \<Longrightarrow> b dvd rb_tail (rb_wrap_tail r)"
  by (simp add: rb_wrap_tail_def)

lemma rb_wrap_head_dvd: "b dvd rb_head r \<Longrightarrow> b dvd rb_head (rb_wrap_head r)"
  by (simp add: rb_wrap_head_def)

lemma fix_push_fits:
  assumes "fix_holds N b r ms" and "fix_ok b m" and "fix_fits m r"
  shows "\<exists>r'. ring_push r m = (RHINO_SUCCESS, r') \<and> fix_holds N b r' (ms @ [m])"
proof -
  let ?w = "rb_wrap_tail r"
  have inv: "rb_inv r" and b: "blk_size r = b" "length m = b" "b \<le> freesize r"
    and ty: "rb_type r = RINGBUF_TYPE_FIX" and dv: "b dvd rb_tail r" "b dvd rb_end r"
    using assms by (auto simp: fix_holds_def fix_ok_def fix_fits_def)
  have w: "rb_inv ?w" "rb_tail ?w < rb_end ?w"
    using rb_wrap_tail_inv [OF inv] rb_wrap_tail_less [OF inv] by simp_all
  have room: "rb_tail ?w + length m \<le> rb_end ?w"
    using dvd_less_room [OF rb_wrap_tail_dvd [OF dv(1)], of "rb_end ?w"] dv(2) w(2) b(2) by simp
  have "length m \<le> freesize ?w" using b by simp
  note p = rb_put_ok [OF w(1) room this]
  have "rb_end (rb_put m ?w) = rb_end r" using room by (simp add: rb_put_def length_mem_write)
  then have "fix_holds N b (rb_put m ?w) (ms @ [m])"
    using assms p rb_wrap_tail_dvd [OF dv(1)] by (simp add: fix_holds_def fix_ok_def rb_put_def)
  moreover have "\<not> ringbuf_is_full r" using b ty by (simp add: ringbuf_is_full_def rb_konst)
  ultimately show ?thesis using ty b by (simp add: ring_push_def ringbuf_push_def)
qed

lemma fix_push_full:
  assumes "fix_holds N b r ms" and "fix_ok b m" and "\<not> fix_fits m r"
  shows "ring_push r m = (RHINO_RINGBUF_FULL, r)"
  using assms by (simp add: ring_push_def ringbuf_push_def fix_holds_def fix_fits_def ringbuf_is_full_def)

lemma fix_pop_Cons:
  assumes "fix_holds N b r (m # ms)"
  shows "\<exists>r'. ring_pop r = (RHINO_SUCCESS, m, r') \<and> fix_holds N b r' ms"
proof -
  let ?w = "rb_wrap_head r"
  have inv: "rb_inv r" and b: "blk_size r = b" "length m = b" "0 < b"
    and ty: "rb_type r = RINGBUF_TYPE_FIX" and dv: "b dvd rb_head r" "b dvd rb_end r"
    and bs: "rb_bytes r = m @ concat ms"
    using assms by (auto simp: fix_holds_def fix_ok_def)
  have w: "rb_inv ?w" "rb_head ?w < rb_end ?w"
    using rb_wrap_head_inv [OF inv] rb_wrap_head_less [OF inv] by simp_all
  have room: "rb_head ?w + b \<le> rb_end ?w"
    using dvd_less_room [OF rb_wrap_head_dvd [OF dv(1)], of "rb_end ?w"] dv(2) w(2) by simp
  have u: "rb_used r = b + length (concat ms)" using rb_used_bytes [OF bs] b(2) by simp
  then have "b \<le> rb_used ?w" by simp
  note g = rb_get_ok [OF w(1) room this]
  have "fix_holds N b (snd (rb_get b ?w)) ms"
    using assms g rb_wrap_head_dvd [OF dv(1)] bs b(2) by (simp add: fix_holds_def)
  moreover have "\<not> ringbuf_is_empty r"
    using u b(3) unfolding ringbuf_is_empty_def rb_used_def by linarith
  ultimately show ?thesis
    using ty b g(2) bs by (simp add: ring_pop_def ringbuf_pop_def case_prod_beta)
qed

lemma fix_pop_Nil:
  "fix_holds N b r [] \<Longrightarrow> fst (ring_pop r) = RHINO_RINGBUF_EMPTY \<and> snd (snd (ring_pop r)) = r"
  by (intro ring_pop_empty) (simp_all add: fix_holds_def)

interpretation fixr: msg_ring "fix_holds N b" "fix_ok b" fix_fits ring_push ring_pop
  for N b
  by unfold_locales (rule fix_push_fits fix_push_full fix_pop_Cons fix_pop_Nil; assumption)+

section \<open>Capacity\<close>

definition enc_len :: "u8 list \<Rightarrow> nat" where
  "enc_len m = length (dyn_enc m)"

lemma length_concat_enc: "length (concat (map dyn_enc ms)) = sum_list (map enc_len ms)"
  by (induction ms) (simp_all add: enc_len_def)

lemma freesize_used: "rb_inv r \<Longrightarrow> freesize r + rb_used r = rb_end r"
  by (simp add: rb_inv_def rb_used_def)

lemma dyn_fits_iff:
  assumes "dyn_holds N r ms"
  shows "dyn_fits m r \<longleftrightarrow> enc_len m + sum_list (map enc_len ms) \<le> N"
proof -
  have "rb_used r = sum_list (map enc_len ms)"
    using assms rb_used_bytes [of r "concat (map dyn_enc ms)"] length_concat_enc
    by (simp add: dyn_holds_def)
  moreover have "freesize r + rb_used r = N" using assms freesize_used by (simp add: dyn_holds_def)
  ultimately show ?thesis by (auto simp: dyn_fits_def enc_len_def)
qed

interpretation dynb: bounded_ring "dyn_holds N" dyn_ok dyn_fits ring_push ring_pop enc_len N
  for N
  by unfold_locales (rule dyn_fits_iff)

lemma fix_fits_iff:
  assumes "fix_holds N b r ms" and "fix_ok b m"
  shows "fix_fits m r \<longleftrightarrow> length m + sum_list (map length ms) \<le> N"
proof -
  have "rb_used r = sum_list (map length ms)"
    using assms rb_used_bytes [of r "concat ms"] by (simp add: fix_holds_def length_concat)
  moreover have "freesize r + rb_used r = N" using assms freesize_used by (simp add: fix_holds_def)
  ultimately show ?thesis using assms by (auto simp: fix_fits_def fix_holds_def fix_ok_def)
qed

interpretation fixb: bounded_ring "fix_holds N b" "fix_ok b" fix_fits ring_push ring_pop length N
  for N b
  by unfold_locales (rule fix_fits_iff)

section \<open>Initialisation\<close>

lemma ringbuf_init_inv:
  assumes "buf \<noteq> []"
  shows "rb_inv (snd (ringbuf_init buf ty bs))" and "rb_bytes (snd (ringbuf_init buf ty bs)) = []"
    and "rb_type (snd (ringbuf_init buf ty bs)) = ty"
    and "blk_size (snd (ringbuf_init buf ty bs)) = bs"
    and "freesize (snd (ringbuf_init buf ty bs)) = length buf"
    and "rb_mem (snd (ringbuf_init buf ty bs)) = buf"
  using assms
  by (simp_all add: ringbuf_init_def ringbuf_reset_def rb_inv_def rb_used_def rb_bytes_def)

lemma dyn_holds_init:
  "buf \<noteq> [] \<Longrightarrow> dyn_holds (length buf) (snd (ringbuf_init buf RINGBUF_TYPE_DYN bs)) []"
  using ringbuf_init_inv [of buf] by (simp add: dyn_holds_def)

lemma fix_holds_init:
  "buf \<noteq> [] \<Longrightarrow> 0 < bs \<Longrightarrow> bs dvd length buf \<Longrightarrow>
    fix_holds (length buf) bs (snd (ringbuf_init buf RINGBUF_TYPE_FIX bs)) []"
  using ringbuf_init_inv [of buf]
  by (simp add: fix_holds_def) (simp add: ringbuf_init_def ringbuf_reset_def)

section \<open>Pushing at the head\<close>

lemma rb_put_front_frame [simp]:
  "rb_tail (rb_put_front bs r) = rb_tail r" "rb_type (rb_put_front bs r) = rb_type r"
  "blk_size (rb_put_front bs r) = blk_size r"
  "freesize (rb_put_front bs r) = freesize r - length bs"
  "rb_head (rb_put_front bs r) = rb_head r - length bs"
  by (simp_all add: rb_put_front_def)

lemma rb_put_front_end:
  "length bs \<le> rb_head r \<Longrightarrow> rb_head r \<le> rb_end r \<Longrightarrow> rb_end (rb_put_front bs r) = rb_end r"
  by (simp add: rb_put_front_def length_mem_write)

lemma rb_front_room:
  assumes "rb_inv r" and "n \<le> freesize r"
    and "\<not> (rb_head r \<le> rb_tail r \<and> rb_head r < n)"
  shows "n \<le> rb_head r"
  using rb_gap [OF assms(1) _ assms(2)] assms(3) by linarith

text \<open>Writing a message in front of the head in two parts \<open>b @ a\<close>, \<open>a\<close> filling the memory
  down to its start.\<close>

lemma rb_put_front_two:
  assumes inv: "rb_inv r" and a: "length a = rb_head r" and pos: "0 < rb_head r"
    and free: "length a + length b \<le> freesize r"
  defines "r' \<equiv> rb_put_front b ((rb_put_front a r)\<lparr>rb_head := rb_end r\<rparr>)"
  shows "rb_inv r'" and "rb_bytes r' = b @ a @ rb_bytes r" and "rb_end r' = rb_end r"
proof -
  have h: "rb_head r \<le> rb_end r" and fs: "freesize r \<le> rb_end r" using inv by (simp_all add: rb_inv_def)
  let ?x = "rb_put_front a r"
  have x: "rb_inv ?x" "rb_bytes ?x = a @ rb_bytes r" "rb_end ?x = rb_end r" "rb_head ?x = 0"
    using rb_put_front_ok [OF inv, of a] a free h by (simp_all add: rb_put_front_end)
  let ?y = "?x\<lparr>rb_head := rb_end r\<rparr>"
  have y: "rb_inv ?y" "rb_bytes ?y = a @ rb_bytes r"
    using rb_head_to_end [OF x(1,4)] x by simp_all
  have "length b \<le> rb_head ?y" "length b \<le> freesize ?y" using free fs by simp_all
  from rb_put_front_ok [OF y(1) this] y(2) x(3) this(1)
  show "rb_inv r'" and "rb_bytes r' = b @ a @ rb_bytes r" and "rb_end r' = rb_end r"
    by (simp_all add: r'_def rb_put_front_end)
qed

lemma rb_put_front_hdr_ok:
  assumes inv: "rb_inv r" and pos: "0 < rb_head r" and free: "length bs \<le> freesize r"
  shows "rb_inv (rb_put_front_hdr bs r)" and "rb_bytes (rb_put_front_hdr bs r) = bs @ rb_bytes r"
    and "rb_end (rb_put_front_hdr bs r) = rb_end r"
proof -
  let ?c = "rb_head r \<le> rb_tail r \<and> rb_head r < length bs" and ?k = "length bs - rb_head r"
  have h: "rb_head r \<le> rb_end r" using inv by (simp add: rb_inv_def)
  have "rb_inv (rb_put_front_hdr bs r) \<and> rb_bytes (rb_put_front_hdr bs r) = bs @ rb_bytes r \<and>
    rb_end (rb_put_front_hdr bs r) = rb_end r"
  proof (cases ?c)
    case True
    with rb_put_front_two [OF inv _ pos, of "drop ?k bs" "take ?k bs"] free pos show ?thesis
      by (simp add: rb_put_front_hdr_def Let_def flip: append_assoc)
  next
    case False
    then have "length bs \<le> rb_head r" by (rule rb_front_room [OF inv free])
    with rb_put_front_ok [OF inv this free] False h show ?thesis
      by (simp add: rb_put_front_hdr_def Let_def rb_put_front_end)
  qed
  then show "rb_inv (rb_put_front_hdr bs r)" and "rb_bytes (rb_put_front_hdr bs r) = bs @ rb_bytes r"
    and "rb_end (rb_put_front_hdr bs r) = rb_end r" by auto
qed

text \<open>What the data copy of \<^verbatim>\<open>ringbuf_head_push\<close> stores: the message, or, when it is split
  around the end of the memory, the message with its first \<^verbatim>\<open>split_len\<close> bytes moved behind the
  others.\<close>

definition head_stored :: "u8 list \<Rightarrow> k_ringbuf \<Rightarrow> u8 list" where
  "head_stored m r =
     (if rb_head r \<le> rb_tail r \<and> rb_head r < length m
      then drop (rb_head r) m @ take (rb_head r) m else m)"

lemma rb_put_front_data_ok:
  assumes inv: "rb_inv r" and pos: "0 < rb_head r" and free: "length bs \<le> freesize r"
  shows "rb_inv (rb_put_front_data bs r)"
    and "rb_bytes (rb_put_front_data bs r) = head_stored bs r @ rb_bytes r"
    and "rb_end (rb_put_front_data bs r) = rb_end r"
proof -
  let ?c = "rb_head r \<le> rb_tail r \<and> rb_head r < length bs" and ?k = "rb_head r"
  have h: "rb_head r \<le> rb_end r" using inv by (simp add: rb_inv_def)
  have "rb_inv (rb_put_front_data bs r) \<and>
    rb_bytes (rb_put_front_data bs r) = head_stored bs r @ rb_bytes r \<and>
    rb_end (rb_put_front_data bs r) = rb_end r"
  proof (cases ?c)
    case True
    with rb_put_front_two [OF inv _ pos, of "take ?k bs" "drop ?k bs"] free pos show ?thesis
      by (simp add: rb_put_front_data_def head_stored_def Let_def)
  next
    case False
    then have "length bs \<le> rb_head r" by (rule rb_front_room [OF inv free])
    with rb_put_front_ok [OF inv this free] False h show ?thesis
      by (simp add: rb_put_front_data_def head_stored_def Let_def rb_put_front_end)
  qed
  then show "rb_inv (rb_put_front_data bs r)"
    and "rb_bytes (rb_put_front_data bs r) = head_stored bs r @ rb_bytes r"
    and "rb_end (rb_put_front_data bs r) = rb_end r" by auto
qed

lemma rb_put_front_data_frame [simp]:
  "rb_tail (rb_put_front_data bs r) = rb_tail r" "rb_type (rb_put_front_data bs r) = rb_type r"
  "blk_size (rb_put_front_data bs r) = blk_size r"
  by (simp_all add: rb_put_front_data_def Let_def)

lemma rb_put_front_hdr_frame [simp]:
  "rb_type (rb_put_front_hdr bs r) = rb_type r" "blk_size (rb_put_front_hdr bs r) = blk_size r"
  by (simp_all add: rb_put_front_hdr_def Let_def)

lemma length_head_stored [simp]: "length (head_stored m r) = length m"
  by (simp add: head_stored_def)

lemma ringbuf_head_push_dyn_eq:
  assumes "rb_type r = RINGBUF_TYPE_DYN" and "dyn_ok m"
  shows "ringbuf_head_push r m (length m) =
    (if dyn_fits m r
     then (RHINO_SUCCESS,
           rb_put_front_hdr (len_hdr (length m))
             (rb_unwrap_head (rb_put_front_data m (rb_unwrap_head r))))
     else (RHINO_RINGBUF_FULL, r))"
proof (cases "ringbuf_is_full r")
  case True
  with full_not_fits [OF assms] show ?thesis by (simp add: ringbuf_head_push_def)
next
  case False
  have nf: "rb_type r \<noteq> RINGBUF_TYPE_FIX" using assms(1) by (simp add: rb_konst)
  note h = hdr_push [OF assms(2)]
  show ?thesis
  proof (cases "dyn_fits m r")
    case True
    with h(4) [of r] h(1-3) nf False show ?thesis
      by (simp add: ringbuf_head_push_def case_prod_beta Let_def)
  next
    case F: False
    with h(4) [of r] h(1-3) nf False show ?thesis
      by (simp add: ringbuf_head_push_def case_prod_beta Let_def)
  qed
qed

lemma dyn_head_push_stored:
  assumes "dyn_holds N r ms" and "dyn_ok m" and "dyn_fits m r"
  shows "\<exists>r'. ringbuf_head_push r m (length m) = (RHINO_SUCCESS, r') \<and>
    dyn_holds N r' (head_stored m (rb_unwrap_head r) # ms)"
proof -
  let ?h = "len_hdr (length m)" and ?w = "rb_unwrap_head r"
  let ?a = "rb_put_front_data m ?w"
  have inv: "rb_inv r" and ty: "rb_type r = RINGBUF_TYPE_DYN" and N: "rb_end r = N"
    and bs: "rb_bytes r = concat (map dyn_enc ms)" using assms(1) by (simp_all add: dyn_holds_def)
  have free: "length ?h + length m \<le> freesize r" using assms(3) by (simp add: dyn_fits_def dyn_enc_def)
  have w: "rb_inv ?w" "0 < rb_head ?w"
    using rb_unwrap_head_inv [OF inv] rb_unwrap_head_pos [OF inv] by simp_all
  have "length m \<le> freesize ?w" using free by simp
  note a = rb_put_front_data_ok [OF w this]
  have w2: "rb_inv (rb_unwrap_head ?a)" "0 < rb_head (rb_unwrap_head ?a)"
    using rb_unwrap_head_inv [OF a(1)] rb_unwrap_head_pos [OF a(1)] by simp_all
  have "freesize ?a = freesize r - length m" by (simp add: rb_put_front_data_def Let_def)
  then have "length ?h \<le> freesize (rb_unwrap_head ?a)" using free by simp
  note b = rb_put_front_hdr_ok [OF w2 this]
  have "dyn_holds N (rb_put_front_hdr ?h (rb_unwrap_head ?a)) (head_stored m ?w # ms)"
    using assms(1,2) b a bs by (simp add: dyn_holds_def dyn_enc_def dyn_ok_def)
  with ringbuf_head_push_dyn_eq [OF ty assms(2)] assms(3) show ?thesis by simp
qed

lemma fix_head_push:
  assumes "fix_holds N b r ms" and "fix_ok b m" and "fix_fits m r"
  shows "\<exists>r'. ringbuf_head_push r m (length m) = (RHINO_SUCCESS, r') \<and> fix_holds N b r' (m # ms)"
proof -
  let ?w = "rb_unwrap_head r"
  have inv: "rb_inv r" and b: "blk_size r = b" "length m = b" "b \<le> freesize r"
    and ty: "rb_type r = RINGBUF_TYPE_FIX" and dv: "b dvd rb_head r" "b dvd N" "rb_end r = N"
    using assms by (auto simp: fix_holds_def fix_ok_def fix_fits_def)
  have w: "rb_inv ?w" "0 < rb_head ?w"
    using rb_unwrap_head_inv [OF inv] rb_unwrap_head_pos [OF inv] by simp_all
  have dw: "b dvd rb_head ?w" using dv by (simp add: rb_unwrap_head_def)
  then have room: "length m \<le> rb_head ?w" using w(2) b by (simp add: dvd_imp_le)
  have "length m \<le> freesize ?w" using b by simp
  note p = rb_put_front_ok [OF w(1) room this]
  have "rb_head ?w \<le> rb_end ?w" using w(1) by (simp add: rb_inv_def)
  then have "rb_end (rb_put_front m ?w) = N" using room dv by (simp add: rb_put_front_end)
  then have "fix_holds N b (rb_put_front m ?w) (m # ms)"
    using assms p dw b by (simp add: fix_holds_def fix_ok_def)
  moreover have "\<not> ringbuf_is_full r" using b ty by (simp add: ringbuf_is_full_def rb_konst)
  ultimately show ?thesis using ty b by (simp add: ringbuf_head_push_def)
qed

section \<open>Properties of the rings\<close>

lemma krhino_ringbuf_init_success:
  assumes "krhino_ringbuf_init p (Some buf) ty bs = (RHINO_SUCCESS, Some r)"
  shows "buf \<noteq> []" and "r = snd (ringbuf_init buf ty bs)"
    and "ty = RINGBUF_TYPE_FIX \<Longrightarrow> 0 < bs \<and> bs dvd length buf"
  using assms
  by (auto simp: krhino_ringbuf_init_def case_prod_beta split: option.splits if_splits)

text \<open>
  C24. A dynamic ring that \<^verbatim>\<open>krhino_ringbuf_init\<close> has set up cannot be told from a FIFO queue of
  messages whose capacity is the size of the memory, each message taking its bytes and its
  header: every sequence of pushes and pops gives the same statuses and the same messages,
  whatever the positions of the pointers and of the wrap-around.
\<close>

theorem dyn_ring_refines_queue:
  assumes "krhino_ringbuf_init p (Some buf) RINGBUF_TYPE_DYN bs = (RHINO_SUCCESS, Some r)"
    and "\<forall>m. RPush m \<in> set ops \<longrightarrow> dyn_ok m"
  shows "ring_exec ring_push ring_pop ops r = queue_exec enc_len (length buf) ops []"
  using dynb.exec_refines [OF dyn_holds_init assms(2)] krhino_ringbuf_init_success [OF assms(1)]
  by simp

theorem dyn_ring_refines_queue_witness:
  "ring_exec ring_push ring_pop [RPush [1, 2], RPush [3, 4, 5], RPop, RPop, RPop]
     (snd (ringbuf_init (replicate 6 0) RINGBUF_TYPE_DYN 0)) =
   queue_exec enc_len 6 [RPush [1, 2], RPush [3, 4, 5], RPop, RPop, RPop] []"
proof -
  let ?r = "snd (ringbuf_init (replicate 6 0) RINGBUF_TYPE_DYN 0)"
  have "krhino_ringbuf_init (Some ?r) (Some (replicate 6 0)) RINGBUF_TYPE_DYN 0 =
    (RHINO_SUCCESS, Some ?r)"
    by (simp add: krhino_ringbuf_init_def ringbuf_init_def ringbuf_reset_def rb_konst)
  from dyn_ring_refines_queue [OF this, of "[RPush [1, 2], RPush [3, 4, 5], RPop, RPop, RPop]"]
  show ?thesis by (simp add: dyn_ok_def rb_konst)
qed

text \<open>
  C25. The same for a fixed-size ring: with blocks of the announced size, it is a FIFO queue
  that holds as many blocks as fit into the memory.
\<close>

theorem fix_ring_refines_queue:
  assumes "krhino_ringbuf_init p (Some buf) RINGBUF_TYPE_FIX bs = (RHINO_SUCCESS, Some r)"
    and "\<forall>m. RPush m \<in> set ops \<longrightarrow> length m = bs"
  shows "ring_exec ring_push ring_pop ops r = queue_exec length (length buf) ops []"
proof -
  note i = krhino_ringbuf_init_success [OF assms(1)]
  have "fix_holds (length buf) bs r []" using i fix_holds_init by simp
  from fixb.exec_refines [OF this, of ops] assms(2) show ?thesis by (simp add: fix_ok_def)
qed

theorem fix_ring_refines_queue_witness:
  "ring_exec ring_push ring_pop [RPush [1, 2], RPop, RPush [3, 4], RPush [5, 6], RPush [7, 8], RPop]
     (snd (ringbuf_init (replicate 4 0) RINGBUF_TYPE_FIX 2)) =
   [(RHINO_SUCCESS, None), (RHINO_SUCCESS, Some [1, 2]), (RHINO_SUCCESS, None),
    (RHINO_SUCCESS, None), (RHINO_RINGBUF_FULL, None), (RHINO_SUCCESS, Some [3, 4])]"
proof -
  let ?r = "snd (ringbuf_init (replicate 4 0) RINGBUF_TYPE_FIX 2)"
  have "krhino_ringbuf_init (Some ?r) (Some (replicate 4 0)) RINGBUF_TYPE_FIX 2 =
    (RHINO_SUCCESS, Some ?r)"
    by (simp add: krhino_ringbuf_init_def ringbuf_init_def ringbuf_reset_def rb_konst)
  from fix_ring_refines_queue
    [OF this, of "[RPush [1, 2], RPop, RPush [3, 4], RPush [5, 6], RPush [7, 8], RPop]"]
  show ?thesis by simp
qed

text \<open>
  C26. Pushing at the head of a dynamic ring: the message is read back first, but when its
  bytes are split around the start of the memory, the two parts come out in the wrong order
  (\<open>head_stored\<close>): the message is intact exactly when it is not split or the exchange of its
  parts does not change it.
\<close>

theorem dyn_head_push_reads_back:
  assumes "dyn_holds N r ms" and "dyn_ok m" and "dyn_fits m r"
  shows "\<exists>r' r''. ringbuf_head_push r m (length m) = (RHINO_SUCCESS, r') \<and>
    pop_many ring_pop r' (Suc (length ms)) = Some (head_stored m (rb_unwrap_head r) # ms, r'') \<and>
    ringbuf_is_empty r''"
proof -
  let ?xs = "head_stored m (rb_unwrap_head r) # ms"
  obtain r' where r': "ringbuf_head_push r m (length m) = (RHINO_SUCCESS, r')" "dyn_holds N r' ?xs"
    using dyn_head_push_stored [OF assms] by blast
  then obtain r'' where "pop_many ring_pop r' (length ?xs) = Some (?xs, r'')" "dyn_holds N r'' []"
    using dyn.pop_many_holds [of N r' ?xs "[]"] by auto
  with r'(1) show ?thesis
    using freesize_used [of r''] rb_used_bytes [of r'' "[]"]
    by (auto simp: dyn_holds_def ringbuf_is_empty_def)
qed

theorem dyn_head_push_reads_back_witness:
  "\<exists>r' r''. ringbuf_head_push
     \<lparr>rb_mem = replicate 8 0, rb_head = 2, rb_tail = 2, freesize = 8, rb_type = RINGBUF_TYPE_DYN,
      blk_size = 0\<rparr> [1, 2, 3] 3 = (RHINO_SUCCESS, r') \<and>
    pop_many ring_pop r' 1 = Some ([[3, 1, 2]], r'') \<and> ringbuf_is_empty r''"
proof -
  let ?r = "\<lparr>rb_mem = replicate 8 0, rb_head = 2, rb_tail = 2, freesize = 8,
    rb_type = RINGBUF_TYPE_DYN, blk_size = 0\<rparr> :: k_ringbuf"
  have "dyn_holds 8 ?r []" by (simp add: dyn_holds_def rb_inv_def rb_used_def rb_bytes_def)
  moreover have "dyn_ok [1, 2, 3]" by (simp add: dyn_ok_def rb_konst)
  moreover from this have "dyn_fits [1, 2, 3] ?r"
    using headlen_ok(3) [of "Suc (Suc (Suc 0))"] by (simp add: dyn_fits_def dyn_enc_def rb_konst)
  ultimately show ?thesis
    using dyn_head_push_reads_back [of 8 ?r "[]" "[1, 2, 3]"]
    by (simp add: head_stored_def rb_unwrap_head_def numeral_2_eq_2 numeral_3_eq_3)
qed

text \<open>
  C27. Pushing at the head of a fixed-size ring: the block is read back first and unchanged,
  before the blocks that were in the ring.
\<close>

theorem fix_head_push_reads_back:
  assumes "fix_holds N b r ms" and "length m = b" and "b \<le> freesize r"
  shows "\<exists>r' r''. ringbuf_head_push r m b = (RHINO_SUCCESS, r') \<and>
    pop_many ring_pop r' (Suc (length ms)) = Some (m # ms, r'') \<and> ringbuf_is_empty r''"
proof -
  have "blk_size r = b" using assms(1) by (simp add: fix_holds_def)
  then obtain r' where r': "ringbuf_head_push r m b = (RHINO_SUCCESS, r')" "fix_holds N b r' (m # ms)"
    using fix_head_push [OF assms(1)] assms(2,3) by (auto simp: fix_ok_def fix_fits_def)
  then obtain r'' where "pop_many ring_pop r' (length (m # ms)) = Some (m # ms, r'')"
    "fix_holds N b r'' []"
    using fixr.pop_many_holds [of N b r' "m # ms" "[]"] by auto
  with r'(1) show ?thesis
    using freesize_used [of r''] rb_used_bytes [of r'' "[]"]
    by (auto simp: fix_holds_def ringbuf_is_empty_def)
qed

theorem fix_head_push_reads_back_witness:
  "\<exists>r' r''. ringbuf_head_push (snd (ringbuf_init (replicate 4 0) RINGBUF_TYPE_FIX 2)) [7, 8] 2
      = (RHINO_SUCCESS, r') \<and>
    pop_many ring_pop r' 1 = Some ([[7, 8]], r'') \<and> ringbuf_is_empty r''"
proof -
  have "fix_holds 4 2 (snd (ringbuf_init (replicate 4 0) RINGBUF_TYPE_FIX 2)) []"
    using fix_holds_init [of "replicate 4 0" 2] by simp
  from fix_head_push_reads_back [OF this, of "[7, 8]"] show ?thesis
    using ringbuf_init_inv(5) [of "replicate 4 0" RINGBUF_TYPE_FIX 2] by simp
qed

end
