(* ===== verification/Rhino_Inv.thy ===== *)
theory Rhino_Inv
  imports Rhino_Prio Rhino_Msg_Ring
begin

text \<open>
  The working invariant of the kernel and the contracts of blocking and waking: \<open>winv k\<close> holds
  between the steps of an operation, wherever no task is in transit. The contract of waking is
  the locale \<open>waker\<close>; the loops that empty a block list are verified once from it and used for
  \<^verbatim>\<open>pend_task_wakeup\<close>, \<^verbatim>\<open>pend_task_rm\<close> and \<^verbatim>\<open>task_msg_recv\<close>.
\<close>

section \<open>The working invariant\<close>

definition sleeping :: "task_stat \<Rightarrow> bool" where
  "sleeping s \<longleftrightarrow> s = K_SLEEP \<or> s = K_SLEEP_SUSPENDED"

definition timed :: "kernel \<Rightarrow> tid set" where
  "timed k = {t. tick_head (tasks k t)}"

text \<open>The tick list holds all sleeping tasks and those that wait with a timeout.\<close>

definition tick_ok :: "kernel \<Rightarrow> bool" where
  "tick_ok k \<longleftrightarrow> tq_ok (timed k) k \<and>
     (\<forall>t. (t \<in> timed k \<longrightarrow> pended (task_state (tasks k t)) \<or> sleeping (task_state (tasks k t))) \<and>
          (sleeping (task_state (tasks k t)) \<longrightarrow> t \<in> timed k))"

definition suspended :: "task_stat \<Rightarrow> bool" where
  "suspended s \<longleftrightarrow> s = K_SUSPENDED \<or> s = K_SLEEP_SUSPENDED \<or> s = K_PEND_SUSPENDED"

definition susp_ok :: "kernel \<Rightarrow> bool" where
  "susp_ok k \<longleftrightarrow> (\<forall>t. suspended (task_state (tasks k t)) \<longrightarrow> suspend_count (tasks k t) \<noteq> 0)"

definition winv :: "kernel \<Rightarrow> bool" where
  "winv k \<longleftrightarrow> core_ok k \<and> pi_ok k \<and> tick_ok k \<and> susp_ok k \<and>
     \<not> g_fault k \<and> g_err_log k = [] \<and> g_active_task k \<noteq> NULL"

lemma winvD:
  assumes "winv k"
  shows "core_ok k" and "pi_ok k" and "tick_ok k" and "susp_ok k" and "\<not> g_fault k"
    and "g_err_log k = []" and "g_active_task k \<noteq> NULL"
  using assms by (simp_all add: winv_def)

section \<open>Waking a task\<close>

definition wake_with :: "blk_state \<Rightarrow> tid \<Rightarrow> kernel \<Rightarrow> kernel" where
  "wake_with st t k =
     (let k = (case task_state (tasks k t) of
          K_PEND \<Rightarrow>
            upd_task t (\<lambda>x. x\<lparr>task_state := K_RDY\<rparr>) (ready_list_add t (pend_list_rm t k))
        | K_PEND_SUSPENDED \<Rightarrow>
            upd_task t (\<lambda>x. x\<lparr>task_state := K_SUSPENDED\<rparr>) (pend_list_rm t k)
        | _ \<Rightarrow> k_err_proc RHINO_SYS_FATAL_ERR k);
          k = tick_list_rm t k
      in upd_task t (\<lambda>x. x\<lparr>blk_state := st, blk_obj := NULL\<rparr>) k)"

lemma wake_with_eqs:
  "pend_task_wakeup = wake_with BLK_FINISH" "pend_task_rm = wake_with BLK_DEL"
  by (simp_all add: fun_eq_iff pend_task_wakeup_def pend_task_rm_def wake_with_def)

lemma wake_with_frame [simp]:
  "g_sys_stat (wake_with s t k) = g_sys_stat k"
  "g_idle_task_spawned (wake_with s t k) = g_idle_task_spawned k"
  "g_sched_lock (wake_with s t k) = g_sched_lock k"
  "g_intrpt_nested_level (wake_with s t k) = g_intrpt_nested_level k"
  "g_preferred_ready_task (wake_with s t k) = g_preferred_ready_task k"
  "g_active_task (wake_with s t k) = g_active_task k"
  "g_tick_count (wake_with s t k) = g_tick_count k"
  "g_sys_time_tick (wake_with s t k) = g_sys_time_tick k" "mutexes (wake_with s t k) = mutexes k"
  "sems (wake_with s t k) = sems k" "events (wake_with s t k) = events k"
  "queues (wake_with s t k) = queues k" "buf_queues (wake_with s t k) = buf_queues k"
  "g_res_list (wake_with s t k) = g_res_list k" "mem (wake_with s t k) = mem k"
  by (simp_all add: wake_with_def Let_def split: task_stat.split)

definition woken :: "blk_state \<Rightarrow> ktask \<Rightarrow> ktask" where
  "woken st x = x\<lparr>task_state := (if task_state x = K_PEND then K_RDY else K_SUSPENDED),
     tick_head := False, blk_state := st, blk_obj := NULL\<rparr>"

lemma wake_with_lists:
  fixes s :: blk_state
  assumes rq: "rq_ok A k" "t \<notin> A" and bl: "bl_ok W k" "t \<in> W b" and tq: "tq_ok T k"
    and b: "blk_obj (tasks k t) = b" "b \<noteq> NULL" and st: "pended (task_state (tasks k t))"
    and p: "prio (tasks k t) < RHINO_CONFIG_PRI_MAX" and nn: "g_active_task k \<noteq> NULL" "t \<noteq> NULL"
  defines "k' \<equiv> wake_with s t k"
  shows "rq_ok (if task_state (tasks k t) = K_PEND then insert t A else A) k'"
    and "bl_ok (W(b := W b - {t})) k'" and "tq_ok (T - {t}) k'"
    and "tasks k' = (tasks k)(t := woken s (tasks k t))"
    and "g_fault k' = g_fault k" and "g_err_log k' = g_err_log k"
    and "blk_objs k' = (blk_objs k)(b := (blk_objs k b)\<lparr>blk_list := remove1 t (blk_list (blk_objs k b))\<rparr>)"
    and "ticks_left k' u = ticks_left k u"
proof -
  have tb: "t \<in> W (blk_obj (tasks k t))" using bl b by simp
  note rm = bl_rm [OF bl(1) tb, unfolded b(1)]
  have on: "t \<in> set (blk_list (blk_objs k b))" using bl_okD(2) [OF bl(1)] bl(2) by simp
  define k1 where "k1 = pend_list_rm t k"
  have bo1: "blk_objs k1 = (blk_objs k)(b := (blk_objs k b)\<lparr>blk_list := remove1 t (blk_list (blk_objs k b))\<rparr>)"
    using on b(1) by (simp add: k1_def pend_list_rm_def)
  define k3 where "k3 = (if task_state (tasks k t) = K_PEND
    then upd_task t (\<lambda>x. x\<lparr>task_state := K_RDY\<rparr>) (ready_list_add t k1)
    else upd_task t (\<lambda>x. x\<lparr>task_state := K_SUSPENDED\<rparr>) k1)"
  have k': "k' = upd_task t (\<lambda>x. x\<lparr>blk_state := s, blk_obj := NULL\<rparr>) (tick_list_rm t k3)"
    using st by (auto simp: k'_def wake_with_def k3_def k1_def Let_def pended_def split: task_stat.split)
  let ?A = "if task_state (tasks k t) = K_PEND then insert t A else A"
  have rq1: "rq_ok A k1" unfolding k1_def using rq(1) by (subst rq_ok_cong) auto
  then have rq2: "rq_ok (insert t A) (ready_list_add t k1)"
    using rq(2) p nn(1) by (intro rq_add) (simp_all add: k1_def)
  have rq3: "rq_ok ?A k3"
    using rq1 rq2 by (auto simp: k3_def rq_ok_cong [of "upd_task t f x" x for f x])
  have t3: "tasks k3 = (tasks k)(t := (tasks k t)\<lparr>task_state := (if task_state (tasks k t) = K_PEND
      then K_RDY else K_SUSPENDED)\<rparr>)"
    by (simp add: k3_def k1_def)
  have tq3: "tq_ok T k3"
    using tq by (subst tq_ok_cong [where k = k]) (simp_all add: t3, simp_all add: k3_def k1_def)
  have t4: "tasks (tick_list_rm t k3) = (tasks k3)(t := (tasks k3 t)\<lparr>tick_head := False\<rparr>)"
    by (rule tq_rm_tasks [OF tq3])
  show tasks: "tasks k' = (tasks k)(t := woken s (tasks k t))"
    by (simp add: k' t4 t3 woken_def)
  show "rq_ok ?A k'"
    using rq3 unfolding k' by (subst rq_ok_cong [where k = k3]) (auto simp: t4)
  show bo: "blk_objs k' = (blk_objs k)(b := (blk_objs k b)\<lparr>blk_list := remove1 t (blk_list (blk_objs k b))\<rparr>)"
    by (simp add: k' k3_def bo1)
  show "bl_ok (W(b := W b - {t})) k'"
    using rm(1) by (subst bl_ok_cong [where k = "pend_list_rm t k"])
      (auto simp: tasks bo bo1 [unfolded k1_def] woken_def)
  show "tq_ok (T - {t}) k'"
    using tq_rm [OF tq3, of t] unfolding k' by (subst tq_ok_cong) auto
  have "g_fault k3 = g_fault k" using rm(2) b nn by (simp add: k3_def k1_def)
  then show "g_fault k' = g_fault k" using tq_rm_fault [OF tq3 nn(2)] nn(2) by (simp add: k')
  show "g_err_log k' = g_err_log k" by (simp add: k' k3_def k1_def)
  show "ticks_left k' u = ticks_left k u"
    by (simp add: ticks_left_def tasks woken_def) (simp add: k' k3_def k1_def)
qed

text \<open>What waking leaves alone: the scheduler state, the objects, and of the other tasks'
  control blocks what the invariants speak of.\<close>

definition waits_same :: "kernel \<Rightarrow> kernel \<Rightarrow> bool" where
  "waits_same k k' \<longleftrightarrow> (\<forall>t. pended (task_state (tasks k' t)) \<longrightarrow> pended (task_state (tasks k t)) \<and>
     pend_info (tasks k' t) = pend_info (tasks k t) \<and> task_msg (tasks k' t) = task_msg (tasks k t) \<and>
     pend_option (tasks k' t) = pend_option (tasks k t) \<and> pend_flags (tasks k' t) = pend_flags (tasks k t))"

definition quiet :: "kernel \<Rightarrow> kernel \<Rightarrow> bool" where
  "quiet k k' \<longleftrightarrow>
     g_sys_stat k' = g_sys_stat k \<and> g_idle_task_spawned k' = g_idle_task_spawned k \<and>
     g_sched_lock k' = g_sched_lock k \<and> g_intrpt_nested_level k' = g_intrpt_nested_level k \<and>
     g_active_task k' = g_active_task k \<and> mutexes k' = mutexes k \<and> sems k' = sems k \<and>
     events k' = events k \<and> queues k' = queues k \<and> buf_queues k' = buf_queues k \<and>
     (\<forall>b. obj_type (blk_objs k' b) = obj_type (blk_objs k b)) \<and>
     live k' = live k \<and> rdy k \<subseteq> rdy k' \<and> timed k' \<subseteq> timed k \<and>
     (\<forall>t. ticks_left k' t = ticks_left k t) \<and> waits_same k k'"

lemma quiet_refl [simp]: "quiet k k"
  by (simp add: quiet_def waits_same_def)

lemma waits_same_trans: "waits_same k k' \<Longrightarrow> waits_same k' k'' \<Longrightarrow> waits_same k k''"
  by (simp add: waits_same_def)

lemma quiet_trans: "quiet k k' \<Longrightarrow> quiet k' k'' \<Longrightarrow> quiet k k''"
  unfolding quiet_def by (auto intro: waits_same_trans)

lemma quietD:
  assumes "quiet k k'"
  shows "g_sys_stat k' = g_sys_stat k" and "g_idle_task_spawned k' = g_idle_task_spawned k"
    and "g_sched_lock k' = g_sched_lock k" and "g_intrpt_nested_level k' = g_intrpt_nested_level k"
    and "g_active_task k' = g_active_task k" and "mutexes k' = mutexes k" and "sems k' = sems k"
    and "events k' = events k" and "queues k' = queues k" and "buf_queues k' = buf_queues k"
    and "obj_type (blk_objs k' b) = obj_type (blk_objs k b)"
    and "live k' = live k" and "rdy k \<subseteq> rdy k'" and "timed k' \<subseteq> timed k"
    and "ticks_left k' t = ticks_left k t" and "waits_same k k'"
  using assms by (simp_all add: quiet_def)

lemma winv_wake:
  fixes s :: blk_state
  assumes inv: "winv k" and t: "t \<in> pend_on k b"
    and nm: "obj_type (blk_objs k b) \<noteq> RHINO_MUTEX_OBJ_TYPE"
  defines "k' \<equiv> wake_with s t k"
  shows "winv k'" and "pend_on k' = (pend_on k)(b := pend_on k b - {t})" and "quiet k k'"
proof -
  note w = winvD [OF inv] and c = core_okD [OF winvD(1) [OF inv]]
  have tl: "t \<in> live k" by (rule pend_on_live [OF t])
  have b: "blk_obj (tasks k t) = b" "b \<noteq> NULL" "pended (task_state (tasks k t))"
    using t c(10) [OF t] by (auto simp: pend_on_def)
  have nr: "t \<notin> rdy k" using b(3) by (auto simp: rdy_def pended_def)
  have tq: "tq_ok (timed k) k" using w(3) by (simp add: tick_ok_def)
  note l = wake_with_lists [OF c(1) nr c(2) t tq b c(8) [OF tl] w(7) c(11) [OF tl], of s, folded k'_def]
  have tk: "tasks k' u = (if u = t then woken s (tasks k t) else tasks k u)" for u by (simp add: l(4))
  have ot: "obj_type (blk_objs k' a) = obj_type (blk_objs k a)"
    "blk_policy (blk_objs k' a) = blk_policy (blk_objs k a)" for a by (simp_all add: l(7))
  have rdy: "rdy k' = (if task_state (tasks k t) = K_PEND then insert t (rdy k) else rdy k)"
    using nr by (auto simp: rdy_def tk woken_def)
  have live: "live k' = live k" using tl by (auto simp: live_def tk woken_def)
  show pend: "pend_on k' = (pend_on k)(b := pend_on k b - {t})"
    using b by (auto simp: pend_on_def tk woken_def pended_def fun_eq_iff)
  have fields: "prio (tasks k' u) = prio (tasks k u)" "b_prio (tasks k' u) = b_prio (tasks k u)"
    "mutex_list (tasks k' u) = mutex_list (tasks k u)" "suspend_count (tasks k' u) = suspend_count (tasks k u)" for u
    by (simp_all add: tk woken_def)
  have timed: "timed k' = timed k - {t}" by (auto simp: timed_def tk woken_def)
  have own: "own_ok k'"
    using c(3) nm unfolding own_ok_def live fields ot pend by (auto simp: k'_def)
  have idle: "g_idle_task \<noteq> t" using nr c(6) by auto
  have core': "core_ok k'"
    using c own l(1,2) idle unfolding core_ok_def live rdy pend fields by auto
  have "eff_pri k' u = eff_pri k u" if u: "u \<in> live k" for u
  proof (rule eff_pri_cong [OF c(2) l(2)])
    have "b \<notin> set (mutex_list (tasks k u))" using own_okD(2) [OF c(3) u] nm by auto
    then show "(\<Union>m \<in> set (mutex_list (tasks k' u)). (\<lambda>w. prio (tasks k' w)) ` ((pend_on k)(b := pend_on k b - {t})) m) =
      (\<Union>m \<in> set (mutex_list (tasks k u)). (\<lambda>w. prio (tasks k w)) ` pend_on k m)"
      unfolding fields by (intro SUP_cong) auto
  qed (simp add: fields)
  then have "pi_ok k'" using w(2) by (simp add: pi_ok_def live fields)
  moreover have "tick_ok k'"
    using w(3) l(3) unfolding tick_ok_def timed by (auto simp: tk woken_def pended_def sleeping_def)
  moreover have "susp_ok k'"
    using w(4) b(3) unfolding susp_ok_def fields by (auto simp: tk woken_def suspended_def pended_def)
  moreover have "g_active_task k' = g_active_task k"
    by (simp add: k'_def)
  ultimately show "winv k'" using core' l(5,6) w by (simp add: winv_def)
  have "waits_same k k'" by (auto simp: waits_same_def tk woken_def pended_def)
  then show "quiet k k'"
    unfolding quiet_def live rdy timed ot l(8) by (auto simp: k'_def)
qed

section \<open>The contract of waking, and loops over a block list\<close>

locale waker =
  fixes wake :: "tid \<Rightarrow> kernel \<Rightarrow> kernel"
  assumes wake_winv: "winv k \<Longrightarrow> t \<in> pend_on k b \<Longrightarrow>
      obj_type (blk_objs k b) \<noteq> RHINO_MUTEX_OBJ_TYPE \<Longrightarrow> winv (wake t k)"
    and wake_pend_on: "winv k \<Longrightarrow> t \<in> pend_on k b \<Longrightarrow>
      obj_type (blk_objs k b) \<noteq> RHINO_MUTEX_OBJ_TYPE \<Longrightarrow>
      pend_on (wake t k) = (pend_on k)(b := pend_on k b - {t})"
    and wake_quiet: "winv k \<Longrightarrow> t \<in> pend_on k b \<Longrightarrow>
      obj_type (blk_objs k b) \<noteq> RHINO_MUTEX_OBJ_TYPE \<Longrightarrow> quiet k (wake t k)"
begin

lemma blk_list_waiters: "winv k \<Longrightarrow> set (blk_list (blk_objs k b)) = pend_on k b"
  by (rule bl_okD(2) [OF core_okD(2) [OF winvD(1)]])

lemma wake_first_ok:
  assumes "winv k" and "obj_type (blk_objs k b) \<noteq> RHINO_MUTEX_OBJ_TYPE"
    and "blk_list (blk_objs k b) = t # ts"
  shows "winv (wake t k)" and "pend_on (wake t k) = (pend_on k)(b := pend_on k b - {t})"
    and "quiet k (wake t k)"
proof -
  have "t \<in> pend_on k b" using blk_list_waiters [OF assms(1), of b] assms(3) by auto
  then show "winv (wake t k)" and "pend_on (wake t k) = (pend_on k)(b := pend_on k b - {t})"
    and "quiet k (wake t k)"
    using wake_winv wake_pend_on wake_quiet assms(1,2) by blast+
qed

lemma blk_list_length: "winv k \<Longrightarrow> length (blk_list (blk_objs k b)) = card (pend_on k b)"
  using bl_okD(1,2) [OF core_okD(2) [OF winvD(1)]] by (metis distinct_card)

lemma wake_loop_ok:
  assumes "winv k" and "obj_type (blk_objs k b) \<noteq> RHINO_MUTEX_OBJ_TYPE"
    and "n = length (blk_list (blk_objs k b))"
  shows "winv (wake_loop wake b n k) \<and> pend_on (wake_loop wake b n k) = (pend_on k)(b := {}) \<and>
    quiet k (wake_loop wake b n k)"
  using assms
proof (induction n arbitrary: k)
  case 0
  then have "pend_on k b = {}" using blk_list_waiters [of k b] by simp
  with 0 show ?case by (simp add: wake_loop.simps fun_upd_idem)
next
  case (Suc n)
  then obtain t ts where ts: "blk_list (blk_objs k b) = t # ts" by (metis length_Suc_conv)
  note w = wake_first_ok [OF Suc.prems(1,2) ts]
  have "t \<in> pend_on k b" using blk_list_waiters [OF Suc.prems(1), of b] ts by auto
  moreover have "finite (pend_on k b)" using blk_list_waiters [OF Suc.prems(1), of b] by (metis finite_set)
  ultimately have "card (pend_on (wake t k) b) = n"
    using w(2) Suc.prems(3) blk_list_length [OF Suc.prems(1), of b] by simp
  then have "n = length (blk_list (blk_objs (wake t k) b))" using blk_list_length [OF w(1), of b] by simp
  from Suc.IH [OF w(1) _ this] w Suc.prems(2) ts show ?case
    by (simp add: wake_loop.simps [of _ _ "Suc n"] quietD(11)) (metis quiet_trans)
qed

lemma wake_all_ok:
  assumes "winv k" and "obj_type (blk_objs k b) \<noteq> RHINO_MUTEX_OBJ_TYPE"
  shows "winv (wake_all wake b k)" and "pend_on (wake_all wake b k) = (pend_on k)(b := {})"
    and "quiet k (wake_all wake b k)"
  using wake_loop_ok [OF assms refl] by (simp_all add: wake_all_def)

end

interpretation wk: waker pend_task_wakeup
  by unfold_locales (simp_all add: wake_with_eqs winv_wake)

interpretation rm: waker pend_task_rm
  by unfold_locales (simp_all add: wake_with_eqs winv_wake)

section \<open>Blocking the running task\<close>

definition blocked :: "oid \<Rightarrow> u64 \<Rightarrow> kernel \<Rightarrow> ktask \<Rightarrow> ktask" where
  "blocked b timeout k x =
     (if timeout = RHINO_WAIT_FOREVER then x\<lparr>blk_obj := b, task_state := K_PEND\<rparr>
      else x\<lparr>blk_obj := b, tick_match := g_tick_count k + timeout, tick_remain := timeout,
        tick_head := True, task_state := K_PEND\<rparr>)"

lemma pend_to_blk_obj_lists:
  assumes rq: "rq_ok A k" "a \<in> A" "A - {a} \<noteq> {}" and bl: "bl_ok W k" "a \<notin> W b"
    and tq: "tq_ok T k" "a \<notin> T" and nn: "a \<noteq> NULL" "b \<noteq> NULL" and tm: "timeout \<noteq> 0"
  defines "k' \<equiv> pend_to_blk_obj b a timeout k"
  shows "rq_ok (A - {a}) k'" and "bl_ok (W(b := insert a (W b))) k'"
    and "tq_ok (if timeout = RHINO_WAIT_FOREVER then T else insert a T) k'"
    and "tasks k' = (tasks k)(a := blocked b timeout k (tasks k a))"
    and "g_fault k' = g_fault k" and "obj_type (blk_objs k' c) = obj_type (blk_objs k c)"
    and "blk_policy (blk_objs k' c) = blk_policy (blk_objs k c)"
    and "u \<noteq> a \<Longrightarrow> ticks_left k' u = ticks_left k u"
    and "timeout \<noteq> RHINO_WAIT_FOREVER \<Longrightarrow> ticks_left k' a = timeout"
proof -
  define k1 where "k1 = upd_task a (\<lambda>x. x\<lparr>blk_obj := b\<rparr>) k"
  define k2 where "k2 = (if timeout \<noteq> RHINO_WAIT_FOREVER then tick_list_insert a timeout k1 else k1)"
  define k3 where "k3 = upd_task a (\<lambda>x. x\<lparr>task_state := K_PEND\<rparr>) k2"
  define k4 where "k4 = ready_list_rm a k3"
  have pos: "0 < timeout" using tm by (simp add: word_neq_0_conv)
  have k': "k' = (if blk_policy (blk_objs k4 b) = BLK_POLICY_FIFO
      then upd_blk b (\<lambda>x. x\<lparr>blk_list := blk_list x @ [a]\<rparr>) k4 else pend_list_add b a k4)"
    by (simp add: k'_def pend_to_blk_obj_def k1_def k2_def k3_def k4_def Let_def)
  have t3: "tasks k3 = (tasks k)(a := blocked b timeout k (tasks k a))"
    using pos by (simp add: k3_def k2_def k1_def blocked_def)
  have t4: "tasks k4 = tasks k3" by (simp add: k4_def)
  show tasks: "tasks k' = (tasks k)(a := blocked b timeout k (tasks k a))"
    by (simp add: k' t4 t3)
  have pri: "prio (tasks k3 u) = prio (tasks k u)" for u by (simp add: t3 blocked_def)
  have rq3: "rq_ok A k3"
    using rq(1) by (subst rq_ok_cong [where k = k]) (simp_all add: pri, simp_all add: k3_def k2_def k1_def)
  note rm = rq_rm [OF rq3 rq(2,3), folded k4_def]
  show "rq_ok (A - {a}) k'" using rm(1) by (subst rq_ok_cong [where k = k4]) (simp_all add: k')
  have bo: "blk_objs k4 = blk_objs k" by (simp add: k4_def k3_def k2_def k1_def)
  have bl4: "bl_ok W k4" using bl(1) by (subst bl_ok_cong [where k = k]) (simp_all add: bo t4 pri)
  show "bl_ok (W(b := insert a (W b))) k'"
    using bl_add [OF bl4 bl(2)] bl_add_fifo [OF bl4 bl(2)] by (simp add: k')
  show "obj_type (blk_objs k' c) = obj_type (blk_objs k c)" "blk_policy (blk_objs k' c) = blk_policy (blk_objs k c)"
    by (simp_all add: k' bo)
  have tq1: "tq_ok T k1" using tq(1) by (subst tq_ok_cong [where k = k]) (simp_all add: k1_def)
  let ?T = "if timeout = RHINO_WAIT_FOREVER then T else insert a T"
  have tq2: "tq_ok ?T k2" using tq1 tq_insert(1) [OF tq1 tq(2) pos] by (simp add: k2_def)
  then show "tq_ok ?T k'"
    by (subst tq_ok_cong [where k = k2]) (simp_all add: k' t4, simp_all add: k4_def k3_def)
  have "g_fault k3 = g_fault k" using nn(1) pos by (simp add: k3_def k2_def k1_def)
  then show "g_fault k' = g_fault k" using rm(2) nn by (simp add: k' pend_list_add_def)
  have cnt: "g_tick_count k' = g_tick_count k" by (simp add: k'_def)
  show "u \<noteq> a \<Longrightarrow> ticks_left k' u = ticks_left k u" by (simp add: ticks_left_def tasks cnt)
  show "timeout \<noteq> RHINO_WAIT_FOREVER \<Longrightarrow> ticks_left k' a = timeout"
    by (simp add: ticks_left_def tasks cnt blocked_def)
qed

lemma pend_to_blk_obj_info:
  "pend_info (tasks (pend_to_blk_obj b a n k) t) = pend_info (tasks k t)"
  "task_msg (tasks (pend_to_blk_obj b a n k) t) = task_msg (tasks k t)"
  "pend_option (tasks (pend_to_blk_obj b a n k) t) = pend_option (tasks k t)"
  "pend_flags (tasks (pend_to_blk_obj b a n k) t) = pend_flags (tasks k t)"
  by (simp_all add: pend_to_blk_obj_def tick_list_insert_def tick_list_pri_insert_def Let_def)

text \<open>
  The running task blocks on \<open>b\<close>. If \<open>b\<close> is a mutex its owner must already have been raised:
  every task has its effective priority, with the demand of the running task counted in.
\<close>

definition ready_to_block :: "oid \<Rightarrow> kernel \<Rightarrow> bool" where
  "ready_to_block b k \<longleftrightarrow>
     (if obj_type (blk_objs k b) = RHINO_MUTEX_OBJ_TYPE
      then mutex_task (mutexes k b) \<noteq> NULL \<and> mutex_task (mutexes k b) \<noteq> g_active_task k \<and>
        (\<forall>u \<in> live k. prio (tasks k u) =
          eff_with (mutex_task (mutexes k b)) (prio (tasks k (g_active_task k))) k u)
      else pi_ok k)"

lemma UN_upd_insert:
  assumes "b \<in> M"
  shows "(\<Union>m \<in> M. f ` ((W(b := insert a (W b))) m)) = insert (f a) (\<Union>m \<in> M. f ` W m)"
proof -
  have "(\<Union>m \<in> M. f ` ((W(b := insert a (W b))) m)) = (\<Union>m \<in> M. f ` W m \<union> (if m = b then {f a} else {}))"
    by (rule SUP_cong) auto
  also have "\<dots> = insert (f a) (\<Union>m \<in> M. f ` W m)" using assms by (simp add: UN_Un_distrib)
  finally show ?thesis .
qed

lemma winv_block:
  assumes core: "core_ok k" and tick: "tick_ok k" and susp: "susp_ok k" and nf: "\<not> g_fault k"
    and ne: "g_err_log k = []" and a: "g_active_task k \<in> rdy k" "g_active_task k \<noteq> g_idle_task"
    and rb: "ready_to_block b k" and b: "b \<noteq> NULL" and tm: "timeout \<noteq> 0"
  defines "k' \<equiv> pend_to_blk_obj b (g_active_task k) timeout k"
  shows "winv k'" and "pend_on k' = (pend_on k)(b := insert (g_active_task k) (pend_on k b))"
    and "rdy k' = rdy k - {g_active_task k}" and "live k' = live k"
    and "\<And>u. u \<noteq> g_active_task k \<Longrightarrow> u \<in> timed k' \<longleftrightarrow> u \<in> timed k"
    and "\<And>u. u \<noteq> g_active_task k \<Longrightarrow> ticks_left k' u = ticks_left k u"
    and "g_active_task k \<in> timed k' \<Longrightarrow> ticks_left k' (g_active_task k) = timeout"
    and "\<And>c. obj_type (blk_objs k' c) = obj_type (blk_objs k c)"
proof -
  let ?a = "g_active_task k"
  note c = core_okD [OF core]
  have al: "?a \<in> live k" by (rule rdy_live [OF a(1)])
  have st: "task_state (tasks k ?a) = K_RDY" using a(1) by (simp add: rdy_def)
  have out: "?a \<notin> pend_on k d" for d using st by (auto simp: pend_on_def pended_def)
  have tq: "tq_ok (timed k) k" and nt: "?a \<notin> timed k"
    using tick st by (auto simp: tick_ok_def pended_def sleeping_def)
  have A: "rdy k - {?a} \<noteq> {}" using c(6) a(2) by auto
  note l = pend_to_blk_obj_lists [OF c(1) a(1) A c(2) out tq nt c(11) [OF al] b tm, folded k'_def]
  have tk: "tasks k' u = (if u = ?a then blocked b timeout k (tasks k ?a) else tasks k u)" for u
    by (simp add: l(4))
  show rdy: "rdy k' = rdy k - {?a}" by (auto simp: rdy_def tk blocked_def)
  show live: "live k' = live k" using al by (auto simp: live_def tk blocked_def)
  show pend: "pend_on k' = (pend_on k)(b := insert ?a (pend_on k b))"
    using st by (auto simp: pend_on_def tk blocked_def pended_def fun_eq_iff)
  have fields: "prio (tasks k' u) = prio (tasks k u)" "b_prio (tasks k' u) = b_prio (tasks k u)"
    "mutex_list (tasks k' u) = mutex_list (tasks k u)" "suspend_count (tasks k' u) = suspend_count (tasks k u)" for u
    by (simp_all add: tk blocked_def)
  have mtx: "mutexes k' = mutexes k" by (simp add: k'_def)
  show "obj_type (blk_objs k' c) = obj_type (blk_objs k c)" for c by (rule l(6))
  have own: "own_ok k'"
  proof (rule own_okI, unfold live fields l(6,7) mtx)
    show "mutex_task (mutexes k m) \<noteq> NULL"
      if "obj_type (blk_objs k m) = RHINO_MUTEX_OBJ_TYPE" "w \<in> pend_on k' m" for m w
      using that own_okD(4) [OF c(3)] rb by (cases "m = b") (auto simp: pend ready_to_block_def)
    show "mutex_task (mutexes k m) \<in> live k \<and> m \<in> set (mutex_list (tasks k (mutex_task (mutexes k m)))) \<and>
      mutex_task (mutexes k m) \<notin> pend_on k' m \<and> owner_nested (mutexes k m) \<noteq> 0"
      if "obj_type (blk_objs k m) = RHINO_MUTEX_OBJ_TYPE" "mutex_task (mutexes k m) \<noteq> NULL" for m
      using own_okD(5) [OF c(3) that] that(1) rb by (cases "m = b") (auto simp: pend ready_to_block_def)
  qed (use own_okD(1-3) [OF c(3)] in blast)+
  have idle: "g_idle_task \<noteq> ?a" using a(2) by auto
  have core': "core_ok k'"
  proof (rule core_okI)
    show "rq_ok (rdy k') k'" unfolding rdy by (rule l(1))
    show "bl_ok (pend_on k') k'" unfolding pend by (rule l(2))
    show "g_idle_task \<in> rdy k'" using c(6) idle by (simp add: rdy)
    show "t \<notin> pend_on k' NULL" for t using c(10) [of t NULL] b by (auto simp: pend)
  qed (use c(4,5,7,8,9,12) own in \<open>simp_all add: live fields\<close>)
  have pi: "prio (tasks k u) = eff_pri k' u" if u: "u \<in> live k" for u
  proof (cases "b \<in> set (mutex_list (tasks k u))")
    case False
    have "eff_pri k' u = eff_pri k u"
      by (rule eff_pri_cong [OF c(2) l(2)], unfold fields, rule refl, rule SUP_cong) (use False in auto)
    moreover have "prio (tasks k u) = eff_pri k u"
      using rb u False own_okD(5) [OF c(3), of b]
      by (auto simp: ready_to_block_def pi_ok_def eff_with_def split: if_splits)
    ultimately show ?thesis by simp
  next
    case True
    then have m: "mutex_task (mutexes k b) = u" "obj_type (blk_objs k b) = RHINO_MUTEX_OBJ_TYPE"
      using own_okD(2) [OF c(3) u] by auto
    have "demand ((pend_on k)(b := insert ?a (pend_on k b))) k' u = insert (prio (tasks k ?a)) (demand (pend_on k) k u)"
      unfolding demand_def fields UN_upd_insert [OF True] by (rule insert_commute)
    then have "eff_pri k' u = min (prio (tasks k ?a)) (eff_pri k u)"
      using eff_pri_demand [OF l(2)] eff_pri_demand [OF c(2)] finite_demand [OF c(2)]
      by (simp add: demand_def)
    then show ?thesis using rb m u by (simp add: ready_to_block_def eff_with_def)
  qed
  have timed: "timed k' = (if timeout = RHINO_WAIT_FOREVER then timed k else insert ?a (timed k))"
    using nt by (auto simp: timed_def tk blocked_def)
  have "tick_ok k'"
    using tick l(3) nt unfolding tick_ok_def timed by (auto simp: tk blocked_def pended_def sleeping_def)
  moreover have "susp_ok k'"
    using susp unfolding susp_ok_def fields by (auto simp: tk blocked_def suspended_def)
  moreover have "g_err_log k' = []" "?a \<noteq> NULL" "g_active_task k' = ?a" using ne c(11) [OF al] by (simp_all add: k'_def)
  ultimately show "winv k'" using core' pi l(5) nf by (simp add: winv_def pi_ok_def live fields)
  show "u \<in> timed k' \<longleftrightarrow> u \<in> timed k" if "u \<noteq> ?a" for u using that by (simp add: timed)
  show "ticks_left k' u = ticks_left k u" if "u \<noteq> ?a" for u using l(8) that by simp
  show "?a \<in> timed k' \<Longrightarrow> ticks_left k' ?a = timeout" using l(9) nt by (auto simp: timed split: if_splits)
qed

section \<open>Objects and scheduling\<close>

text \<open>Deadlines on the tick list lie in the future.\<close>

definition tick_pos :: "kernel \<Rightarrow> bool" where
  "tick_pos k \<longleftrightarrow> (\<forall>t \<in> timed k. ticks_left k t \<noteq> 0)"

lemma tick_pos_quiet: "quiet k k' \<Longrightarrow> tick_pos k \<Longrightarrow> tick_pos k'"
  using quietD(14,15) by (fastforce simp: tick_pos_def)

text \<open>
  What every kind of object promises: nobody waits for a deleted object or for a semaphore,
  queue or buffer queue that has something to give, and the rings of the queues hold as many
  messages as the counters say. A task that waits for an event or a buffer queue has left a
  pointer for the result, and the flags of the event do not meet what it asks for.
\<close>

definition queue_inv :: "kqueue \<Rightarrow> bool" where
  "queue_inv q \<longleftrightarrow> 0 < q_size q \<and>
     (\<exists>ms. fix_holds (4 * q_size q) 4 (q_ringbuf q) (map word_bytes ms) \<and> length ms = q_cur_num q)"

definition bufq_holds :: "kbuf_queue \<Rightarrow> u8 list list \<Rightarrow> bool" where
  "bufq_holds q ms \<longleftrightarrow> (\<forall>m \<in> set ms. length m \<le> max_msg_size q) \<and>
     (dyn_holds (rb_end (bq_ringbuf q)) (bq_ringbuf q) ms \<or>
      fix_holds (rb_end (bq_ringbuf q)) (max_msg_size q) (bq_ringbuf q) ms)"

definition bufq_inv :: "kbuf_queue \<Rightarrow> bool" where
  "bufq_inv q \<longleftrightarrow> (\<exists>ms. bufq_holds q ms \<and> length ms = bq_cur_num q)"

definition obj_inv :: "kernel \<Rightarrow> oid \<Rightarrow> bool" where
  "obj_inv k b =
     (case obj_type (blk_objs k b) of
        RHINO_OBJ_TYPE_NONE \<Rightarrow> pend_on k b = {}
      | RHINO_SEM_OBJ_TYPE \<Rightarrow> pend_on k b = {} \<or> sem_count (sems k b) = 0
      | RHINO_QUEUE_OBJ_TYPE \<Rightarrow> queue_inv (queues k b) \<and> (pend_on k b = {} \<or> q_cur_num (queues k b) = 0)
      | RHINO_BUF_QUEUE_OBJ_TYPE \<Rightarrow> bufq_inv (buf_queues k b) \<and>
          (pend_on k b = {} \<or> bq_cur_num (buf_queues k b) = 0) \<and>
          (\<forall>t \<in> pend_on k b. task_msg (tasks k t) \<noteq> 0)
      | RHINO_EVENT_OBJ_TYPE \<Rightarrow> (\<forall>t \<in> pend_on k b. pend_info (tasks k t) \<noteq> 0 \<and>
          \<not> flags_met (pend_option (tasks k t)) (pend_flags (tasks k t)) (event_flags (events k b)))
      | RHINO_MUTEX_OBJ_TYPE \<Rightarrow> True
      | _ \<Rightarrow> pend_on k b = {})"

lemma obj_inv_mono:
  assumes "obj_inv k b" and "obj_type (blk_objs k' b) = obj_type (blk_objs k b)"
    and "sems k' b = sems k b" and "queues k' b = queues k b" and "buf_queues k' b = buf_queues k b"
    and "pend_on k' b \<subseteq> pend_on k b" and "waits_same k k'" and "events k' b = events k b"
  shows "obj_inv k' b"
proof -
  have "pend_info (tasks k' t) = pend_info (tasks k t)" "task_msg (tasks k' t) = task_msg (tasks k t)"
    "pend_option (tasks k' t) = pend_option (tasks k t)" "pend_flags (tasks k' t) = pend_flags (tasks k t)"
    if "t \<in> pend_on k' b" for t
    using that assms(7) by (simp_all add: waits_same_def pend_on_def)
  then show ?thesis
    using assms(1-6,8) unfolding obj_inv_def
    by (cases "obj_type (blk_objs k b)") (auto simp: subset_iff)
qed

lemma waits_same_tasks: "tasks k' = tasks k \<Longrightarrow> waits_same k k'"
  by (simp add: waits_same_def)

lemma obj_inv_quiet:
  assumes "quiet k k'" and "pend_on k' b \<subseteq> pend_on k b" and "obj_inv k b"
  shows "obj_inv k' b"
  by (rule obj_inv_mono [OF assms(3) _ _ _ _ assms(2) quietD(16) [OF assms(1)]])
    (simp_all add: quietD [OF assms(1)])

definition objs_inv :: "kernel \<Rightarrow> bool" where
  "objs_inv k \<longleftrightarrow> (\<forall>b. obj_inv k b)"

text \<open>
  The scheduling condition: with the scheduler unlocked and outside interrupts the running
  task is the first task of the best priority; with the scheduler locked it is at least ready.
\<close>

definition sched_ok :: "kernel \<Rightarrow> bool" where
  "sched_ok k \<longleftrightarrow> g_sys_stat k = RHINO_RUNNING \<and> g_active_task k \<in> live k \<and>
     (g_intrpt_nested_level k = 0 \<and> g_sched_lock k = 0 \<longrightarrow> g_active_task k = top_task k) \<and>
     (g_sched_lock k \<noteq> 0 \<longrightarrow> g_active_task k \<in> rdy k)"

definition kinv :: "kernel \<Rightarrow> bool" where
  "kinv k \<longleftrightarrow> winv k \<and> tick_pos k \<and> objs_inv k \<and> sched_ok k"

lemma kinvD:
  assumes "kinv k"
  shows "winv k" and "tick_pos k" and "obj_inv k b" and "sched_ok k" and "core_ok k"
  using assms by (simp_all add: kinv_def winv_def objs_inv_def)

lemma kinv_top:
  assumes "kinv k"
  shows "top_task k \<in> rdy k" and "t \<in> rdy k \<Longrightarrow> prio (tasks k (top_task k)) \<le> prio (tasks k t)"
proof -
  note c = core_okD [OF kinvD(5) [OF assms]]
  have A: "rdy k \<noteq> {}" using c(6) by auto
  show "top_task k \<in> rdy k" and "t \<in> rdy k \<Longrightarrow> prio (tasks k (top_task k)) \<le> prio (tasks k t)"
    by (rule top_task(1) [OF c(1) A], rule top_task(3) [OF c(1) A])
qed

lemma kinv_active_rdy:
  "kinv k \<Longrightarrow> g_intrpt_nested_level k = 0 \<Longrightarrow> g_active_task k \<in> rdy k"
  using kinv_top(1) kinvD(4) by (cases "g_sched_lock k = 0") (auto simp: sched_ok_def)

text \<open>Predicates that do not see the choice of the scheduler.\<close>

lemma core_sched_sets [simp]:
  "rdy (core_sched k) = rdy k" "live (core_sched k) = live k" "pend_on (core_sched k) = pend_on k"
  "timed (core_sched k) = timed k" "ticks_left (core_sched k) t = ticks_left k t"
  "top_task (core_sched k) = top_task k"
  by (simp_all add: rdy_def live_def pend_on_def timed_def ticks_left_def top_task_def fun_eq_iff)

lemma core_sched_invs:
  assumes "winv k"
  shows "winv (core_sched k)" and "tick_pos (core_sched k) = tick_pos k"
    and "objs_inv (core_sched k) = objs_inv k"
proof -
  note w = winvD [OF assms] and c = core_okD [OF winvD(1) [OF assms]]
  let ?k = "core_sched k"
  have A: "rdy k \<noteq> {}" using c(6) by auto
  note s = core_sched_active [OF c(1) A]
  have own: "own_ok ?k = own_ok k" by (simp add: own_ok_def)
  have bl: "bl_ok (pend_on k) ?k = bl_ok (pend_on k) k" by (rule bl_ok_cong) simp_all
  have eff: "eff_pri ?k t = eff_pri k t" for t by (simp add: eff_pri_def heads_min_def)
  have tq: "tq_ok (timed k) ?k = tq_ok (timed k) k" by (rule tq_ok_cong) simp_all
  have "top_task k \<noteq> NULL" using c(11) [OF rdy_live [OF top_task(1) [OF c(1) A]]] .
  then have "g_active_task ?k \<noteq> NULL" using s(1) w(7) by simp
  then show "winv ?k" using w s(2)
    by (simp add: winv_def core_ok_def own bl pi_ok_def eff tick_ok_def tq susp_ok_def)
  show "tick_pos ?k = tick_pos k" by (simp add: tick_pos_def)
  show "objs_inv ?k = objs_inv k" by (simp add: objs_inv_def obj_inv_def cong: kobj_type.case_cong)
qed

lemma kinv_core_sched:
  assumes "winv k" and "tick_pos k" and "objs_inv k" and "g_sys_stat k = RHINO_RUNNING"
    and "g_intrpt_nested_level k \<noteq> 0 \<or> g_sched_lock k \<noteq> 0 \<Longrightarrow> g_active_task k \<in> live k"
    and "g_sched_lock k \<noteq> 0 \<Longrightarrow> g_active_task k \<in> rdy k"
  shows "kinv (core_sched k)"
proof -
  note c = core_okD [OF winvD(1) [OF assms(1)]]
  have A: "rdy k \<noteq> {}" using c(6) by auto
  note s = core_sched_active [OF c(1) A] and t = top_task(1) [OF c(1) A]
  have "sched_ok (core_sched k)"
    using assms(4-6) rdy_live [OF t] t by (simp add: sched_ok_def s(1) word_neq_0_conv)
  with core_sched_invs [OF assms(1)] assms(2,3) show ?thesis by (simp add: kinv_def)
qed

text \<open>The end of an operation that has only woken tasks.\<close>

lemma kinv_wake_sched:
  assumes "kinv k" and "winv k'" and "quiet k k'" and "objs_inv k'"
  shows "kinv (core_sched k')"
  using kinvD(2,4) [OF assms(1)] assms(2-4) tick_pos_quiet [OF assms(3)] quietD [OF assms(3)]
  by (intro kinv_core_sched) (auto simp: sched_ok_def)

section \<open>Updates the invariants do not see\<close>

text \<open>The members of a control block that the invariants speak of.\<close>

definition task_same :: "ktask \<Rightarrow> ktask \<Rightarrow> bool" where
  "task_same x y \<longleftrightarrow> task_state x = task_state y \<and> prio x = prio y \<and> b_prio x = b_prio y \<and>
     (pended (task_state x) \<longrightarrow> blk_obj x = blk_obj y) \<and> mutex_list x = mutex_list y \<and>
     tick_head x = tick_head y \<and>
     tick_match x = tick_match y \<and> suspend_count x = suspend_count y"

definition state_same :: "kernel \<Rightarrow> kernel \<Rightarrow> bool" where
  "state_same k k' \<longleftrightarrow> (\<forall>t. task_same (tasks k' t) (tasks k t)) \<and> blk_objs k' = blk_objs k \<and>
     mutexes k' = mutexes k \<and> cur_list_item k' = cur_list_item k \<and> task_bit_map k' = task_bit_map k \<and>
     highest_pri k' = highest_pri k \<and> g_tick_head k' = g_tick_head k \<and> g_tick_count k' = g_tick_count k \<and>
     g_fault k' = g_fault k \<and> g_err_log k' = g_err_log k \<and> g_active_task k' = g_active_task k"

lemma state_sameD:
  assumes "state_same k k'"
  shows "task_state (tasks k' t) = task_state (tasks k t)" and "prio (tasks k' t) = prio (tasks k t)"
    and "b_prio (tasks k' t) = b_prio (tasks k t)"
    and "pended (task_state (tasks k t)) \<Longrightarrow> blk_obj (tasks k' t) = blk_obj (tasks k t)"
    and "mutex_list (tasks k' t) = mutex_list (tasks k t)" and "tick_head (tasks k' t) = tick_head (tasks k t)"
    and "tick_match (tasks k' t) = tick_match (tasks k t)"
    and "suspend_count (tasks k' t) = suspend_count (tasks k t)"
    and "blk_objs k' = blk_objs k" and "mutexes k' = mutexes k" and "cur_list_item k' = cur_list_item k"
    and "task_bit_map k' = task_bit_map k" and "highest_pri k' = highest_pri k"
    and "g_tick_head k' = g_tick_head k" and "g_tick_count k' = g_tick_count k"
    and "g_fault k' = g_fault k" and "g_err_log k' = g_err_log k" and "g_active_task k' = g_active_task k"
  using assms by (simp_all add: state_same_def task_same_def)

lemma state_same_sets:
  assumes "state_same k k'"
  shows "rdy k' = rdy k" and "live k' = live k" and "pend_on k' = pend_on k" and "timed k' = timed k"
    and "ticks_left k' t = ticks_left k t" and "top_task k' = top_task k"
  by (simp_all add: rdy_def live_def pend_on_def timed_def ticks_left_def top_task_def fun_eq_iff
      state_sameD [OF assms] cong: conj_cong)

lemma state_same_winv:
  assumes "state_same k k'"
  shows "winv k' = winv k" and "tick_pos k' = tick_pos k"
proof -
  note s = state_sameD [OF assms] and ss = state_same_sets [OF assms]
  have "rq_ok (rdy k) k' = rq_ok (rdy k) k" by (rule rq_ok_cong) (simp_all add: s)
  moreover have "bl_ok (pend_on k) k' = bl_ok (pend_on k) k" by (rule bl_ok_cong) (simp_all add: s)
  moreover have "tq_ok (timed k) k' = tq_ok (timed k) k" by (rule tq_ok_cong) (simp_all add: s)
  moreover have "eff_pri k' t = eff_pri k t" for t by (simp add: eff_pri_def heads_min_def s)
  ultimately show "winv k' = winv k"
    by (simp add: winv_def core_ok_def own_ok_def pi_ok_def tick_ok_def susp_ok_def s ss)
  show "tick_pos k' = tick_pos k" by (simp add: tick_pos_def ss)
qed

text \<open>Updates of objects other than mutexes, of the callers' memory, and of the other members of
  control blocks.\<close>

lemma state_same_upd [simp]:
  "s \<noteq> NULL \<Longrightarrow> state_same k (upd_sem s f k)" "q \<noteq> NULL \<Longrightarrow> state_same k (upd_queue q g k)"
  "e \<noteq> NULL \<Longrightarrow> state_same k (upd_event e h k)" "q \<noteq> NULL \<Longrightarrow> state_same k (upd_buf_queue q i k)"
  "a \<noteq> 0 \<Longrightarrow> state_same k (store32 a v k)" "a \<noteq> 0 \<Longrightarrow> state_same k (store_bytes a bs k)"
  by (simp_all add: state_same_def task_same_def)

lemma state_same_upd_task:
  "t \<noteq> NULL \<Longrightarrow> task_same (f (tasks k t)) (tasks k t) \<Longrightarrow> state_same k (upd_task t f k)"
  by (simp add: state_same_def task_same_def)

lemma state_same_kinv:
  assumes "kinv k" and "state_same k k'" and "objs_inv k'" and "g_sys_stat k' = g_sys_stat k"
    and "g_intrpt_nested_level k' = g_intrpt_nested_level k" and "g_sched_lock k' = g_sched_lock k"
  shows "kinv k'"
  using assms(1,3-6) state_same_winv [OF assms(2)] state_same_sets [OF assms(2)] state_sameD(18) [OF assms(2)]
  by (simp add: kinv_def sched_ok_def)

text \<open>A new header for an object that is not a mutex.\<close>

lemma winv_upd_blk:
  assumes inv: "winv k" and b: "b \<noteq> NULL" and old: "obj_type (blk_objs k b) \<noteq> RHINO_MUTEX_OBJ_TYPE"
    and new: "obj_type (f (blk_objs k b)) \<noteq> RHINO_MUTEX_OBJ_TYPE"
    and lists: "blk_list (f (blk_objs k b)) = blk_list (blk_objs k b)"
    and pol: "pend_on k b = {} \<or> blk_policy (f (blk_objs k b)) = blk_policy (blk_objs k b)"
  shows "winv (upd_blk b f k)" and "pend_on (upd_blk b f k) = pend_on k"
    and "quiet k (upd_blk b f k) \<longleftrightarrow> obj_type (f (blk_objs k b)) = obj_type (blk_objs k b)"
proof -
  let ?k = "upd_blk b f k"
  note w = winvD [OF inv] and c = core_okD [OF winvD(1) [OF inv]]
  have sets: "rdy ?k = rdy k" "live ?k = live k" "pend_on ?k = pend_on k" "timed ?k = timed k"
    "\<And>t. ticks_left ?k t = ticks_left k t"
    by (simp_all add: rdy_def live_def pend_on_def timed_def ticks_left_def fun_eq_iff)
  show "pend_on ?k = pend_on k" by (rule sets)
  show "quiet k ?k \<longleftrightarrow> obj_type (f (blk_objs k b)) = obj_type (blk_objs k b)"
    by (auto simp: quiet_def sets waits_same_def)
  have "rq_ok (rdy k) ?k" using c(1) by (subst rq_ok_cong [where k = k]) simp_all
  moreover have "tq_ok (timed k) ?k" using w(3) by (subst tq_ok_cong [where k = k]) (simp_all add: tick_ok_def)
  moreover have bl: "bl_ok (pend_on k) ?k"
    unfolding bl_ok_def
  proof (intro allI conjI impI)
    fix d assume "blk_policy (blk_objs ?k d) = BLK_POLICY_PRI"
    then show "sorted (map (\<lambda>t. prio (tasks ?k t)) (blk_list (blk_objs ?k d)))"
      using bl_okD(2,3) [OF c(2), of d] pol lists by (cases "d = b") auto
  qed (use bl_okD(1,2) [OF c(2)] lists in \<open>auto split: if_splits\<close>)
  moreover have "own_ok ?k"
  proof (rule own_okI, unfold sets)
    show "mutex_task (mutexes ?k m) = t \<and> obj_type (blk_objs ?k m) = RHINO_MUTEX_OBJ_TYPE"
      if "t \<in> live k" "m \<in> set (mutex_list (tasks ?k t))" for t m
      using own_okD(2) [OF c(3) that(1), of m] that(2) old by auto
  qed (use own_okD(1,3-5) [OF c(3)] new in \<open>auto split: if_splits\<close>)
  ultimately show "winv ?k" using w c b
    by (simp add: winv_def core_ok_def sets pi_ok_def eff_pri_demand [OF bl] eff_pri_demand [OF c(2)]
        tick_ok_def susp_ok_def demand_def)
qed

section \<open>Building blocks of the object operations\<close>

context waker
begin

lemma wake_objs_inv:
  assumes "objs_inv k" and "quiet k k'" and "\<And>b. pend_on k' b \<subseteq> pend_on k b"
  shows "objs_inv k'"
  using assms obj_inv_quiet unfolding objs_inv_def by blast

lemma kinv_wake_first:
  assumes "kinv k" and "obj_type (blk_objs k b) \<noteq> RHINO_MUTEX_OBJ_TYPE"
    and "blk_list (blk_objs k b) = t # ts"
  shows "kinv (core_sched (wake t k))"
proof -
  note w = wake_first_ok [OF kinvD(1) [OF assms(1)] assms(2,3)]
  have "objs_inv (wake t k)"
    using assms(1) w(2) by (intro wake_objs_inv [OF _ w(3)]) (auto simp: kinv_def)
  then show ?thesis by (rule kinv_wake_sched [OF assms(1) w(1,3)])
qed

lemma kinv_wake_all:
  assumes "kinv k" and "obj_type (blk_objs k b) \<noteq> RHINO_MUTEX_OBJ_TYPE"
  shows "kinv (core_sched (wake_all wake b k))"
proof -
  note w = wake_all_ok [OF kinvD(1) [OF assms(1)] assms(2)]
  have "objs_inv (wake_all wake b k)"
    using assms(1) w(2) by (intro wake_objs_inv [OF _ w(3)]) (auto simp: kinv_def)
  then show ?thesis by (rule kinv_wake_sched [OF assms(1) w(1,3)])
qed

end

text \<open>Deleting an object that is not a mutex: its waiters are released first.\<close>

definition del_waiters :: "oid \<Rightarrow> kernel \<Rightarrow> kernel" where
  "del_waiters b k =
     wake_all pend_task_rm b (upd_blk b (\<lambda>x. x\<lparr>obj_type := RHINO_OBJ_TYPE_NONE\<rparr>) k)"

lemma del_waiters_ok:
  assumes inv: "kinv k" and b: "b \<noteq> NULL" and ty: "obj_type (blk_objs k b) \<noteq> RHINO_MUTEX_OBJ_TYPE"
  shows "winv (del_waiters b k)" and "tick_pos (del_waiters b k)" and "objs_inv (del_waiters b k)"
    and "pend_on (del_waiters b k) = (pend_on k)(b := {})"
    and "quiet (upd_blk b (\<lambda>x. x\<lparr>obj_type := RHINO_OBJ_TYPE_NONE\<rparr>) k) (del_waiters b k)"
proof -
  let ?k = "upd_blk b (\<lambda>x. x\<lparr>obj_type := RHINO_OBJ_TYPE_NONE\<rparr>) k"
  have w: "winv ?k" "pend_on ?k = pend_on k"
    using winv_upd_blk [OF kinvD(1) [OF inv] b ty] by simp_all
  have nm: "obj_type (blk_objs ?k b) \<noteq> RHINO_MUTEX_OBJ_TYPE" by simp
  note r = rm.wake_all_ok [OF w(1) nm, folded del_waiters_def]
  show "winv (del_waiters b k)" and q: "quiet ?k (del_waiters b k)"
    and p: "pend_on (del_waiters b k) = (pend_on k)(b := {})"
    using r w(2) by simp_all
  have "tick_pos ?k" using kinvD(2) [OF inv] by (simp add: tick_pos_def timed_def ticks_left_def)
  then show "tick_pos (del_waiters b k)" by (rule tick_pos_quiet [OF q])
  have "obj_inv (del_waiters b k) d" for d
  proof (cases "d = b")
    case True
    then show ?thesis using quietD(11) [OF q, of b] p by (simp add: obj_inv_def)
  next
    case False
    then have "obj_inv ?k d"
      using kinvD(3) [OF inv, of d] w(2) by (simp add: obj_inv_def cong: kobj_type.case_cong)
    then show ?thesis using p w(2) False by (intro obj_inv_quiet [OF q]) auto
  qed
  then show "objs_inv (del_waiters b k)" by (simp add: objs_inv_def)
qed

lemma kinv_del_waiters:
  assumes inv: "kinv k" and b: "b \<noteq> NULL" and ty: "obj_type (blk_objs k b) \<noteq> RHINO_MUTEX_OBJ_TYPE"
    and same: "state_same (del_waiters b k) k'" and "g_sys_stat k' = g_sys_stat (del_waiters b k)"
    and "g_intrpt_nested_level k' = g_intrpt_nested_level (del_waiters b k)"
    and "g_sched_lock k' = g_sched_lock (del_waiters b k)"
    and "sems k' = sems (del_waiters b k)"
    and "\<And>d. d \<noteq> b \<Longrightarrow> queues k' d = queues (del_waiters b k) d"
    and "\<And>d. d \<noteq> b \<Longrightarrow> buf_queues k' d = buf_queues (del_waiters b k) d"
    and "tasks k' = tasks (del_waiters b k)"
    and "\<And>d. d \<noteq> b \<Longrightarrow> events k' d = events (del_waiters b k) d"
  shows "kinv (core_sched k')"
proof -
  note d = del_waiters_ok [OF inv b ty]
  note q = quietD [OF d(5)]
  have bo: "blk_objs k' = blk_objs (del_waiters b k)" by (rule state_sameD(9) [OF same])
  have pe: "pend_on k' = pend_on (del_waiters b k)" by (rule state_same_sets(3) [OF same])
  have nb: "obj_type (blk_objs k' b) = RHINO_OBJ_TYPE_NONE" using q(11) [of b] by (simp add: bo)
  have "obj_inv k' c" for c
  proof (cases "c = b")
    case True
    then show ?thesis using nb d(4) by (simp add: obj_inv_def pe)
  next
    case False
    have "obj_inv (del_waiters b k) c" using d(3) by (simp add: objs_inv_def)
    then show ?thesis
      by (rule obj_inv_mono) (simp_all add: bo pe assms(8) assms(9,10) [OF False] waits_same_tasks assms(11) assms(12) [OF False])
  qed
  then have ob: "objs_inv k'" by (simp add: objs_inv_def)
  let ?k = "upd_blk b (\<lambda>x. x\<lparr>obj_type := RHINO_OBJ_TYPE_NONE\<rparr>) k"
  have sets: "live ?k = live k" "rdy ?k = rdy k" by (simp_all add: live_def rdy_def)
  have "live k' = live k" "rdy k \<subseteq> rdy k'" "g_active_task k' = g_active_task k"
    "g_sys_stat k' = g_sys_stat k" "g_sched_lock k' = g_sched_lock k"
    using q(1,3,5,12,13) assms(5,7) sets state_same_sets(1,2) [OF same] state_sameD(18) [OF same]
    by simp_all
  moreover have "sched_ok k" by (rule kinvD(4) [OF inv])
  moreover have "winv k'" "tick_pos k'" using d(1,2) state_same_winv [OF same] by simp_all
  ultimately show ?thesis using ob by (intro kinv_core_sched) (auto simp: sched_ok_def)
qed

lemma kinv_block:
  assumes inv: "kinv k" and cpu: "g_intrpt_nested_level k = 0" "g_sched_lock k = 0"
    and a: "g_active_task k \<noteq> g_idle_task" and b: "b \<noteq> NULL" and tm: "ticks \<noteq> 0"
    and ty: "obj_type (blk_objs k b) \<noteq> RHINO_MUTEX_OBJ_TYPE"
    and ob: "\<And>k'. sems k' b = sems k b \<Longrightarrow> queues k' b = queues k b \<Longrightarrow> buf_queues k' b = buf_queues k b \<Longrightarrow>
      events k' b = events k b \<Longrightarrow>
      obj_type (blk_objs k' b) = obj_type (blk_objs k b) \<Longrightarrow>
      pend_on k' b = insert (g_active_task k) (pend_on k b) \<Longrightarrow>
      (\<And>t. pend_info (tasks k' t) = pend_info (tasks k t) \<and> task_msg (tasks k' t) = task_msg (tasks k t) \<and>
        pend_option (tasks k' t) = pend_option (tasks k t) \<and> pend_flags (tasks k' t) = pend_flags (tasks k t)) \<Longrightarrow>
      obj_inv k' b"
  shows "kinv (core_sched (pend_to_blk_obj b (g_active_task k) ticks k))"
proof -
  let ?k = "pend_to_blk_obj b (g_active_task k) ticks k"
  note w = winvD [OF kinvD(1) [OF inv]]
  have rb: "ready_to_block b k" using ty w(2) by (simp add: ready_to_block_def)
  note l = winv_block [OF w(1,3-6) kinv_active_rdy [OF inv cpu(1)] a rb b tm]
  have pos: "ticks_left ?k t \<noteq> 0" if t: "t \<in> timed ?k" for t
  proof (cases "t = g_active_task k")
    case True
    then show ?thesis using l(7) t tm by simp
  next
    case False
    then show ?thesis using l(5,6) [OF False] t kinvD(2) [OF inv] by (simp add: tick_pos_def)
  qed
  have info: "pend_info (tasks ?k t) = pend_info (tasks k t) \<and> task_msg (tasks ?k t) = task_msg (tasks k t) \<and>
      pend_option (tasks ?k t) = pend_option (tasks k t) \<and> pend_flags (tasks ?k t) = pend_flags (tasks k t)" for t
    using pend_to_blk_obj_info by simp
  have ob': "obj_inv ?k d" for d
  proof (cases "d = b")
    case True
    have "obj_inv ?k b" by (rule ob) (simp_all add: l(2,8) info)
    with True show ?thesis by simp
  next
    case False
    have sub: "pend_on ?k d \<subseteq> pend_on k d" using l(2) False by simp
    have "obj_inv k d" by (rule kinvD(3) [OF inv])
    then show ?thesis
      using sub info l(2) False unfolding obj_inv_def l(8)
      by (simp cong: kobj_type.case_cong)
  qed
  have "g_sys_stat k = RHINO_RUNNING" using kinvD(4) [OF inv] by (simp add: sched_ok_def)
  then show ?thesis
    using pos ob' cpu by (intro kinv_core_sched [OF l(1)]) (simp_all add: objs_inv_def tick_pos_def)
qed

text \<open>Creating an object that is not a mutex, in memory that holds no live object: its content is
  set first (state \<open>k\<^sub>0\<close>), then its header.\<close>

lemma kinv_new_header:
  assumes inv: "kinv k" and b: "b \<noteq> NULL" and ty: "obj_type (blk_objs k b) = RHINO_OBJ_TYPE_NONE"
    and same: "state_same k k\<^sub>0" and cpu: "g_sys_stat k\<^sub>0 = g_sys_stat k"
      "g_intrpt_nested_level k\<^sub>0 = g_intrpt_nested_level k" "g_sched_lock k\<^sub>0 = g_sched_lock k"
    and others: "\<And>d. d \<noteq> b \<Longrightarrow> sems k\<^sub>0 d = sems k d \<and> queues k\<^sub>0 d = queues k d \<and> buf_queues k\<^sub>0 d = buf_queues k d \<and>
      events k\<^sub>0 d = events k d"
    and tk: "tasks k\<^sub>0 = tasks k"
    and f: "blk_list (f (blk_objs k b)) = []" "obj_type (f (blk_objs k b)) \<noteq> RHINO_MUTEX_OBJ_TYPE"
    and new: "pend_on (upd_blk b f k\<^sub>0) b = {} \<Longrightarrow> obj_inv (upd_blk b f k\<^sub>0) b"
  shows "kinv (upd_blk b f k\<^sub>0)"
proof -
  let ?k = "upd_blk b f k\<^sub>0"
  note w0 = state_same_winv [OF same] and bo = state_sameD(9) [OF same]
  have inv0: "winv k\<^sub>0" using kinvD(1) [OF inv] w0 by simp
  have empty: "pend_on k b = {}" using kinvD(3) [OF inv, of b] ty by (simp add: obj_inv_def)
  then have e0: "pend_on k\<^sub>0 b = {}" using state_same_sets(3) [OF same] by simp
  have "blk_list (blk_objs k b) = []"
    using empty bl_okD(2) [OF core_okD(2) [OF kinvD(5) [OF inv]], of b] by simp
  then have w: "winv ?k" "pend_on ?k = pend_on k\<^sub>0"
    using winv_upd_blk [OF inv0 b, of f] ty f e0 by (simp_all add: bo)
  have up: "rdy ?k = rdy k\<^sub>0" "live ?k = live k\<^sub>0" "timed ?k = timed k\<^sub>0"
    "ticks_left ?k t = ticks_left k\<^sub>0 t" "top_task ?k = top_task k\<^sub>0" for t
    by (simp_all add: rdy_def live_def timed_def ticks_left_def top_task_def)
  note sets = up [unfolded state_same_sets [OF same]]
  have "obj_inv ?k d" for d
  proof (cases "d = b")
    case True
    then show ?thesis using new e0 w(2) by simp
  next
    case False
    have "pend_on ?k d \<subseteq> pend_on k d" using w(2) state_same_sets(3) [OF same] by simp
    then show ?thesis
      by (intro obj_inv_mono [OF kinvD(3) [OF inv, of d]]) (simp_all add: bo others [OF False] False waits_same_tasks tk)
  qed
  moreover have "sched_ok ?k"
    using kinvD(4) [OF inv] state_sameD(18) [OF same] cpu by (simp add: sched_ok_def sets)
  moreover have "tick_pos ?k" using kinvD(2) [OF inv] by (simp add: tick_pos_def sets)
  ultimately show ?thesis using w(1) by (simp add: kinv_def objs_inv_def)
qed

section \<open>Before the scheduler runs\<close>

text \<open>The invariant up to the choice of the running task: what holds where an operation leaves
  its critical section and calls the scheduler.\<close>

definition kpre :: "kernel \<Rightarrow> bool" where
  "kpre k \<longleftrightarrow> winv k \<and> tick_pos k \<and> objs_inv k \<and> g_sys_stat k = RHINO_RUNNING \<and>
     g_active_task k \<in> live k \<and> (g_sched_lock k \<noteq> 0 \<longrightarrow> g_active_task k \<in> rdy k)"

lemma kpreD:
  assumes "kpre k"
  shows "winv k" and "tick_pos k" and "obj_inv k b" and "core_ok k"
  using assms by (simp_all add: kpre_def winv_def objs_inv_def)

lemma kinv_kpre: "kinv k \<Longrightarrow> kpre k"
  by (simp add: kinv_def kpre_def sched_ok_def)

lemma kpre_core_sched: "kpre k \<Longrightarrow> kinv (core_sched k)"
  by (rule kinv_core_sched) (simp_all add: kpre_def)

lemma objs_inv_state_same:
  assumes "objs_inv k" and "state_same k k'" and "waits_same k k'" and "sems k' = sems k"
    and "queues k' = queues k" and "buf_queues k' = buf_queues k" and "events k' = events k"
  shows "objs_inv k'"
proof -
  have "obj_inv k' b" for b
    by (rule obj_inv_mono [of k])
      (use assms(1) in \<open>simp_all add: objs_inv_def state_sameD(9) [OF assms(2)] state_same_sets(3) [OF assms(2)] assms(3-7)\<close>)
  then show ?thesis by (simp add: objs_inv_def)
qed

lemma kinv_state_same:
  assumes "kinv k" and "state_same k k'" and "waits_same k k'" and "sems k' = sems k"
    and "queues k' = queues k" and "buf_queues k' = buf_queues k" and "g_sys_stat k' = g_sys_stat k"
    and "g_intrpt_nested_level k' = g_intrpt_nested_level k" and "g_sched_lock k' = g_sched_lock k" and "events k' = events k"
  shows "kinv k'"
  using assms by (intro state_same_kinv [OF assms(1,2) objs_inv_state_same]) (auto simp: kinv_def)

lemma kpre_state_same:
  assumes "kpre k" and "state_same k k'" and "waits_same k k'" and "sems k' = sems k"
    and "queues k' = queues k" and "buf_queues k' = buf_queues k" and "g_sys_stat k' = g_sys_stat k"
    and "g_sched_lock k' = g_sched_lock k" and "events k' = events k"
  shows "kpre k'"
proof -
  have "objs_inv k'" using assms(1) by (intro objs_inv_state_same [OF _ assms(2-6,9)]) (simp add: kpre_def)
  then show ?thesis
    using assms(1,7,8) state_same_winv [OF assms(2)] state_same_sets [OF assms(2)] state_sameD(18) [OF assms(2)]
    by (simp add: kpre_def)
qed

text \<open>An update of the content of one object.\<close>

lemma kinv_upd_obj:
  assumes "kinv k" and "state_same k k'" and "waits_same k k'"
    and "\<And>d. d \<noteq> b \<Longrightarrow> sems k' d = sems k d \<and> queues k' d = queues k d \<and> buf_queues k' d = buf_queues k d \<and>
      events k' d = events k d"
    and "obj_inv k' b" and "g_sys_stat k' = g_sys_stat k"
    and "g_intrpt_nested_level k' = g_intrpt_nested_level k" and "g_sched_lock k' = g_sched_lock k"
  shows "kinv k'"
proof (rule state_same_kinv [OF assms(1,2) _ assms(6-8)])
  have "obj_inv k' d" for d
  proof (cases "d = b")
    case False
    with assms(4) [of d] show ?thesis
      by (intro obj_inv_mono [OF kinvD(3) [OF assms(1), of d]])
        (simp_all add: state_sameD(9) [OF assms(2)] state_same_sets(3) [OF assms(2)] assms(3))
  qed (simp add: assms(5))
  then show "objs_inv k'" by (simp add: objs_inv_def)
qed

lemma kinv_upd_event: "kinv k \<Longrightarrow> e \<noteq> NULL \<Longrightarrow> obj_inv (upd_event e f k) e \<Longrightarrow> kinv (upd_event e f k)"
  by (rule kinv_upd_obj [where b = e]) (simp_all add: waits_same_tasks)

lemma kinv_store32: "kinv k \<Longrightarrow> a \<noteq> 0 \<Longrightarrow> kinv (store32 a v k)"
  by (rule kinv_state_same) (simp_all add: waits_same_tasks)

lemma kinv_store_bytes: "kinv k \<Longrightarrow> a \<noteq> 0 \<Longrightarrow> kinv (store_bytes a bs k)"
  by (rule kinv_state_same) (simp_all add: waits_same_tasks)

lemma kpre_store_bytes: "kpre k \<Longrightarrow> a \<noteq> 0 \<Longrightarrow> kpre (store_bytes a bs k)"
  by (rule kpre_state_same) (simp_all add: waits_same_tasks)

lemma kpre_store32: "kpre k \<Longrightarrow> a \<noteq> 0 \<Longrightarrow> kpre (store32 a v k)"
  by (rule kpre_state_same) (simp_all add: waits_same_tasks)

lemma kpre_quiet:
  assumes "kpre k" and "winv k'" and "quiet k k'" and "\<And>b. pend_on k' b \<subseteq> pend_on k b"
  shows "kpre k'"
proof -
  have "obj_inv k' b" for b by (rule obj_inv_quiet [OF assms(3,4) kpreD(3) [OF assms(1)]])
  then show ?thesis
    using assms(1,2) tick_pos_quiet [OF assms(3)] quietD [OF assms(3)] by (auto simp: kpre_def objs_inv_def)
qed

lemma blk_list_pend_on: "kinv k \<Longrightarrow> set (blk_list (blk_objs k b)) = pend_on k b"
  by (rule bl_okD(2) [OF core_okD(2) [OF kinvD(5)]])

lemma blk_list_empty_iff: "kinv k \<Longrightarrow> blk_list (blk_objs k b) = [] \<longleftrightarrow> pend_on k b = {}"
  using blk_list_pend_on [of k b] by (metis set_empty)

lemma pend_on_upd [simp]:
  "pend_on (upd_sem s f k) = pend_on k" "pend_on (upd_event e g k) = pend_on k"
  "pend_on (upd_queue q h k) = pend_on k" "pend_on (upd_buf_queue q i k) = pend_on k"
  "pend_on (store32 a v k) = pend_on k" "pend_on (store_bytes a bs k) = pend_on k"
  by (simp_all add: pend_on_def fun_eq_iff)

context waker
begin

lemma kpre_wake:
  assumes "kpre k" and "t \<in> pend_on k b" and "obj_type (blk_objs k b) \<noteq> RHINO_MUTEX_OBJ_TYPE"
  shows "kpre (wake t k)"
  using kpreD(1) [OF assms(1)] wake_pend_on [OF _ assms(2,3)]
  by (intro kpre_quiet [OF assms(1) wake_winv wake_quiet]) (use assms(2,3) in auto)

end

end
