(* ===== verification/Rhino_Mutex.thy ===== *)
theory Rhino_Mutex
  imports Rhino_Inv
begin

text \<open>
  Mutexes with priority inheritance (\<^verbatim>\<open>k_mutex.c\<close>). The loops over the mutexes a task holds and
  the change of priorities are in \<open>Rhino_Prio\<close>.
\<close>

section \<open>Operations\<close>

definition mutex_create :: "oid \<Rightarrow> addr \<Rightarrow> u8 \<Rightarrow> kernel \<Rightarrow> kstat \<times> kernel" where
  "mutex_create mutex name mm_alloc_flag k =
     (if mutex = NULL then (RHINO_NULL_PTR, k)
      else if name = NULL then (RHINO_NULL_PTR, k)
      else
        let k = upd_blk mutex (\<lambda>x. x\<lparr>blk_list := [], blk_policy := BLK_POLICY_PRI\<rparr>) k;
            k = upd_mutex mutex (\<lambda>x. x\<lparr>mutex_task := NULL, mutex_mm_alloc_flag := mm_alloc_flag\<rparr>) k;
            k = upd_blk mutex (\<lambda>x. x\<lparr>obj_type := RHINO_MUTEX_OBJ_TYPE\<rparr>) k
        in (RHINO_SUCCESS, k))"

definition krhino_mutex_create :: "oid \<Rightarrow> addr \<Rightarrow> kernel \<Rightarrow> kstat \<times> kernel" where
  "krhino_mutex_create mutex name k = mutex_create mutex name K_OBJ_STATIC_ALLOC k"

definition krhino_mutex_del :: "oid \<Rightarrow> kernel \<Rightarrow> kstat \<times> kernel" where
  "krhino_mutex_del mutex k =
     (if mutex = NULL then (RHINO_NULL_PTR, k)
      else if g_intrpt_nested_level k > 0 then (RHINO_NOT_CALLED_BY_INTRPT, k)
      else if obj_type (blk_objs k mutex) \<noteq> RHINO_MUTEX_OBJ_TYPE then (RHINO_KOBJ_TYPE_ERR, k)
      else if mutex_mm_alloc_flag (mutexes k mutex) \<noteq> K_OBJ_STATIC_ALLOC then (RHINO_KOBJ_DEL_ERR, k)
      else
        let k = upd_blk mutex (\<lambda>x. x\<lparr>obj_type := RHINO_OBJ_TYPE_NONE\<rparr>) k;
            k = (if mutex_task (mutexes k mutex) \<noteq> NULL
                 then mutex_release (mutex_task (mutexes k mutex)) mutex k else k);
            k = wake_all pend_task_rm mutex k
        in (RHINO_SUCCESS, core_sched k))"

definition krhino_mutex_dyn_create :: "oid \<Rightarrow> u32 \<Rightarrow> addr \<Rightarrow> kernel \<Rightarrow> kstat \<times> kernel" where
  "krhino_mutex_dyn_create mutex_obj mutex name k =
     (if mutex = 0 then (RHINO_NULL_PTR, k)
      else if mutex_obj = NULL then (RHINO_NO_MEM, k)
      else
        let (stat, k) = mutex_create mutex_obj name K_OBJ_DYN_ALLOC k
        in if stat \<noteq> RHINO_SUCCESS then (stat, k)
           else (stat, store32 mutex (word_of_nat mutex_obj) k))"

definition krhino_mutex_dyn_del :: "oid \<Rightarrow> kernel \<Rightarrow> kstat \<times> kernel" where
  "krhino_mutex_dyn_del mutex k =
     (if mutex = NULL then (RHINO_NULL_PTR, k)
      else if g_intrpt_nested_level k > 0 then (RHINO_NOT_CALLED_BY_INTRPT, k)
      else if obj_type (blk_objs k mutex) \<noteq> RHINO_MUTEX_OBJ_TYPE then (RHINO_KOBJ_TYPE_ERR, k)
      else if mutex_mm_alloc_flag (mutexes k mutex) \<noteq> K_OBJ_DYN_ALLOC then (RHINO_KOBJ_DEL_ERR, k)
      else
        let k = upd_blk mutex (\<lambda>x. x\<lparr>obj_type := RHINO_OBJ_TYPE_NONE\<rparr>) k;
            k = (if mutex_task (mutexes k mutex) \<noteq> NULL
                 then mutex_release (mutex_task (mutexes k mutex)) mutex k else k);
            k = wake_all pend_task_rm mutex k
        in (RHINO_SUCCESS, core_sched k))"

definition krhino_mutex_lock :: "oid \<Rightarrow> u64 \<Rightarrow> kernel \<Rightarrow> outcome \<times> kernel" where
  "krhino_mutex_lock mutex ticks k =
     (if mutex = NULL then (Ret RHINO_NULL_PTR, k)
      else if g_sys_stat k = RHINO_STOPPED then (Ret RHINO_SUCCESS, k)
      else if g_intrpt_nested_level k > 0 then (Ret RHINO_NOT_CALLED_BY_INTRPT, k)
      else if obj_type (blk_objs k mutex) \<noteq> RHINO_MUTEX_OBJ_TYPE then (Ret RHINO_KOBJ_TYPE_ERR, k)
      else if g_active_task k = mutex_task (mutexes k mutex) then
        if owner_nested (mutexes k mutex) = - 1
        then (Ret RHINO_MUTEX_NESTED_OVF, k_err_proc RHINO_MUTEX_NESTED_OVF k)
        else (Ret RHINO_MUTEX_OWNER_NESTED,
          upd_mutex mutex (\<lambda>x. x\<lparr>owner_nested := owner_nested x + 1\<rparr>) k)
      else if mutex_task (mutexes k mutex) = NULL then
        let k = upd_mutex mutex (\<lambda>x. x\<lparr>mutex_task := g_active_task k\<rparr>) k;
            k = upd_task (g_active_task k) (\<lambda>x. x\<lparr>mutex_list := mutex # mutex_list x\<rparr>) k;
            k = upd_mutex mutex (\<lambda>x. x\<lparr>owner_nested := 1\<rparr>) k
        in (Ret RHINO_SUCCESS, k)
      else if ticks = RHINO_NO_WAIT then (Ret RHINO_NO_PEND_WAIT, k)
      else if g_sched_lock k > 0 then (Ret RHINO_SCHED_DISABLE, k)
      else
        let a = g_active_task k;
            owner = mutex_task (mutexes k mutex);
            k = (if prio (tasks k a) < prio (tasks k owner)
                 then snd (task_pri_change owner (prio (tasks k a)) k) else k)
        in (Blocked, core_sched (pend_to_blk_obj mutex (g_active_task k) ticks k)))"

definition krhino_mutex_unlock :: "oid \<Rightarrow> kernel \<Rightarrow> kstat \<times> kernel" where
  "krhino_mutex_unlock mutex k =
     (if mutex = NULL then (RHINO_NULL_PTR, k)
      else if g_sys_stat k = RHINO_STOPPED then (RHINO_SUCCESS, k)
      else if g_intrpt_nested_level k > 0 then (RHINO_NOT_CALLED_BY_INTRPT, k)
      else if obj_type (blk_objs k mutex) \<noteq> RHINO_MUTEX_OBJ_TYPE then (RHINO_KOBJ_TYPE_ERR, k)
      else if g_active_task k \<noteq> mutex_task (mutexes k mutex)
      then (RHINO_MUTEX_NOT_RELEASED_BY_OWNER, k)
      else
        let k = upd_mutex mutex (\<lambda>x. x\<lparr>owner_nested := owner_nested x - 1\<rparr>) k
        in if owner_nested (mutexes k mutex) > 0 then (RHINO_MUTEX_OWNER_NESTED, k)
           else
             let k = mutex_release (g_active_task k) mutex k
             in case blk_list (blk_objs k mutex) of
                  [] \<Rightarrow> (RHINO_SUCCESS, upd_mutex mutex (\<lambda>x. x\<lparr>mutex_task := NULL\<rparr>) k)
                | task # _ \<Rightarrow>
                    let k = pend_task_wakeup task k;
                        k = upd_mutex mutex (\<lambda>x. x\<lparr>mutex_task := task\<rparr>) k;
                        k = upd_task task (\<lambda>x. x\<lparr>mutex_list := mutex # mutex_list x\<rparr>) k;
                        k = upd_mutex mutex (\<lambda>x. x\<lparr>owner_nested := 1\<rparr>) k
                    in (RHINO_SUCCESS, core_sched k))"

definition krhino_mutex_is_valid :: "oid \<Rightarrow> kernel \<Rightarrow> kstat" where
  "krhino_mutex_is_valid mutex k =
     (if mutex = NULL then RHINO_NULL_PTR
      else if obj_type (blk_objs k mutex) \<noteq> RHINO_MUTEX_OBJ_TYPE then RHINO_KOBJ_TYPE_ERR
      else RHINO_SUCCESS)"

section \<open>A change of priorities keeps the rest\<close>

lemma pri_frame_rest:
  assumes fr: "pri_frame k k'"
  shows "timed k' = timed k" and "ticks_left k' t = ticks_left k t" and "tick_ok k' = tick_ok k"
    and "susp_ok k' = susp_ok k" and "waits_same k k'" and "tick_pos k' = tick_pos k"
    and "obj_inv k b \<Longrightarrow> obj_inv k' b"
proof -
  note f = pri_frame_task [OF fr] pri_frame_kernel [OF fr] pri_frame_sets [OF fr]
  have info: "pend_info (tasks k' t) = pend_info (tasks k t)" "task_msg (tasks k' t) = task_msg (tasks k t)"
    "pend_option (tasks k' t) = pend_option (tasks k t)" "pend_flags (tasks k' t) = pend_flags (tasks k t)" for t
  proof -
    have "tasks k t = (tasks k' t)\<lparr>prio := prio (tasks k t)\<rparr>" using fr by (simp add: pri_frame_def)
    from arg_cong [OF this, of pend_info] arg_cong [OF this, of task_msg] arg_cong [OF this, of pend_option]
      arg_cong [OF this, of pend_flags]
    show "pend_info (tasks k' t) = pend_info (tasks k t)" "task_msg (tasks k' t) = task_msg (tasks k t)"
      "pend_option (tasks k' t) = pend_option (tasks k t)" "pend_flags (tasks k' t) = pend_flags (tasks k t)" by simp_all
  qed
  show timed: "timed k' = timed k" and left: "ticks_left k' t = ticks_left k t" for t
    by (simp_all add: timed_def ticks_left_def f)
  have "tq_ok (timed k) k' = tq_ok (timed k) k" by (rule tq_ok_cong) (simp_all add: f)
  then show "tick_ok k' = tick_ok k" by (simp add: tick_ok_def timed f)
  show "susp_ok k' = susp_ok k" by (simp add: susp_ok_def f)
  show w: "waits_same k k'" by (simp add: waits_same_def f info)
  show "tick_pos k' = tick_pos k" by (simp add: tick_pos_def timed left)
  show "obj_inv k b \<Longrightarrow> obj_inv k' b" by (rule obj_inv_mono) (auto simp: f w)
qed

lemma pri_frame_winv:
  assumes "pri_frame k k'" and "core_ok k'" and "pi_ok k'" and "tick_ok k" and "susp_ok k"
    and "\<not> g_fault k" and "g_err_log k = []" and "g_active_task k \<noteq> NULL"
  shows "winv k'"
  using assms pri_frame_rest [OF assms(1)] pri_frame_kernel [OF assms(1)] by (simp add: winv_def)

section \<open>Creation\<close>

lemma winv_new_mutex:
  assumes inv: "winv k" and m: "m \<noteq> NULL" and old: "obj_type (blk_objs k m) \<noteq> RHINO_MUTEX_OBJ_TYPE"
    and f: "blk_list (f (blk_objs k m)) = []" "blk_policy (f (blk_objs k m)) = BLK_POLICY_PRI"
    and g: "mutex_task (g (mutexes k m)) = NULL" and empty: "pend_on k m = {}"
  shows "winv (upd_blk m f (upd_mutex m g k))"
proof -
  let ?k = "upd_blk m f (upd_mutex m g k)"
  note w = winvD [OF inv] and c = core_okD [OF winvD(1) [OF inv]]
  have sets: "rdy ?k = rdy k" "live ?k = live k" "pend_on ?k = pend_on k" "timed ?k = timed k"
    "\<And>t. ticks_left ?k t = ticks_left k t"
    by (simp_all add: rdy_def live_def pend_on_def timed_def ticks_left_def fun_eq_iff)
  have out: "m \<notin> set (mutex_list (tasks k t))" if "t \<in> live k" for t
    using own_okD(2) [OF c(3) that] old by auto
  have "rq_ok (rdy k) ?k" using c(1) by (subst rq_ok_cong [where k = k]) simp_all
  moreover have "tq_ok (timed k) ?k" using w(3) by (subst tq_ok_cong [where k = k]) (simp_all add: tick_ok_def)
  moreover have bl: "bl_ok (pend_on k) ?k"
    using bl_okD [OF c(2)] f empty unfolding bl_ok_def by (auto split: if_splits)
  moreover have "own_ok ?k"
  proof (rule own_okI, unfold sets)
    show "mutex_task (mutexes ?k x) = t \<and> obj_type (blk_objs ?k x) = RHINO_MUTEX_OBJ_TYPE"
      if "t \<in> live k" "x \<in> set (mutex_list (tasks ?k t))" for t x
      using own_okD(2) [OF c(3) that(1), of x] out [OF that(1)] that(2) by auto
    show "mutex_task (mutexes ?k x) \<noteq> NULL"
      if "obj_type (blk_objs ?k x) = RHINO_MUTEX_OBJ_TYPE" "u \<in> pend_on k x" for x u
      using own_okD(4) [OF c(3), of x u] that empty by (cases "x = m") auto
    show "mutex_task (mutexes ?k x) \<in> live k \<and> x \<in> set (mutex_list (tasks ?k (mutex_task (mutexes ?k x)))) \<and>
        mutex_task (mutexes ?k x) \<notin> pend_on k x \<and> owner_nested (mutexes ?k x) \<noteq> 0"
      if "obj_type (blk_objs ?k x) = RHINO_MUTEX_OBJ_TYPE" "mutex_task (mutexes ?k x) \<noteq> NULL" for x
      using own_okD(5) [OF c(3), of x] that g by (cases "x = m") auto
  qed (use own_okD(1,3) [OF c(3)] f m in \<open>auto split: if_splits\<close>)
  ultimately show ?thesis using w c m
    by (simp add: winv_def core_ok_def sets pi_ok_def eff_pri_demand [OF bl] eff_pri_demand [OF c(2)]
        tick_ok_def susp_ok_def demand_def)
qed

lemma mutex_create_kinv:
  assumes inv: "kinv k" and fresh: "obj_type (blk_objs k mutex) = RHINO_OBJ_TYPE_NONE"
  shows "kinv (snd (mutex_create mutex name flag k))"
proof (cases "mutex = NULL \<or> name = NULL")
  case True
  then show ?thesis using inv by (auto simp: mutex_create_def)
next
  case False
  let ?f = "\<lambda>x. x\<lparr>blk_list := [], blk_policy := BLK_POLICY_PRI, obj_type := RHINO_MUTEX_OBJ_TYPE\<rparr> :: blk_obj"
  let ?g = "\<lambda>x. x\<lparr>mutex_task := NULL, mutex_mm_alloc_flag := flag\<rparr> :: kmutex"
  let ?k = "upd_blk mutex ?f (upd_mutex mutex ?g k)"
  have eq: "snd (mutex_create mutex name flag k) = ?k"
    by (rule kernel.equality) (use False in \<open>auto simp: mutex_create_def\<close>)
  have empty: "pend_on k mutex = {}" using kinvD(3) [OF inv, of mutex] fresh by (simp add: obj_inv_def)
  have w: "winv ?k"
    by (rule winv_new_mutex [OF kinvD(1) [OF inv]]) (use False fresh empty in auto)
  have sets: "rdy ?k = rdy k" "live ?k = live k" "pend_on ?k = pend_on k" "timed ?k = timed k"
    "\<And>t. ticks_left ?k t = ticks_left k t" "top_task ?k = top_task k"
    by (simp_all add: rdy_def live_def pend_on_def timed_def ticks_left_def top_task_def fun_eq_iff)
  have "obj_inv ?k d" for d
    using kinvD(3) [OF inv, of d]
    by (cases "d = mutex") (auto simp: obj_inv_def sets cong: kobj_type.case_cong)
  then have "kinv ?k"
    using w kinvD(2,4) [OF inv] by (simp add: kinv_def objs_inv_def sched_ok_def tick_pos_def sets)
  with eq show ?thesis by simp
qed

section \<open>Deletion\<close>

text \<open>Once a mutex is no mutex any more, it can be taken from the list of its owner.\<close>

lemma core_ok_unlist:
  assumes inv: "winv k" and m: "m \<noteq> NULL" "obj_type (blk_objs k m) = RHINO_MUTEX_OBJ_TYPE"
    and t: "mutex_task (mutexes k m) = t" "t \<noteq> NULL"
  defines "k' \<equiv> upd_task t (\<lambda>x. x\<lparr>mutex_list := filter (\<lambda>y. y \<noteq> m) (mutex_list x)\<rparr>)
    (upd_blk m (\<lambda>x. x\<lparr>obj_type := RHINO_OBJ_TYPE_NONE\<rparr>) k)"
  shows "core_ok k'" and "pi_but t k'" and "t \<in> live k'" and "t \<noteq> g_idle_task"
    and "pend_on k' = pend_on k" and "live k' = live k" and "rdy k' = rdy k"
proof -
  note w = winvD [OF inv] and c = core_okD [OF winvD(1) [OF inv]]
  note o = own_okD(5) [OF c(3) m(2), unfolded t(1), OF t(2)]
  have tk: "task_state (tasks k' u) = task_state (tasks k u)" "prio (tasks k' u) = prio (tasks k u)"
    "b_prio (tasks k' u) = b_prio (tasks k u)" "blk_obj (tasks k' u) = blk_obj (tasks k u)" for u
    by (simp_all add: k'_def)
  have ml: "mutex_list (tasks k' u) = (if u = t then filter (\<lambda>y. y \<noteq> m) (mutex_list (tasks k u)) else mutex_list (tasks k u))" for u
    by (simp add: k'_def)
  have bo: "blk_list (blk_objs k' b) = blk_list (blk_objs k b)" "blk_policy (blk_objs k' b) = blk_policy (blk_objs k b)"
    "obj_type (blk_objs k' b) = (if b = m then RHINO_OBJ_TYPE_NONE else obj_type (blk_objs k b))" for b
    by (simp_all add: k'_def)
  have mx: "mutexes k' = mutexes k" by (simp add: k'_def)
  show pend: "pend_on k' = pend_on k" and live: "live k' = live k" and rdy: "rdy k' = rdy k"
    by (simp_all add: pend_on_def live_def rdy_def tk fun_eq_iff)
  show "t \<in> live k'" using o live by simp
  show idle: "t \<noteq> g_idle_task" using o c(7) by auto
  have out: "m \<notin> set (mutex_list (tasks k u))" if "u \<in> live k" "u \<noteq> t" for u
    using own_okD(2) [OF c(3) that(1), of m] t(1) that(2) by auto
  have rq: "rq_ok (rdy k) k'" using c(1) by (subst rq_ok_cong [where k = k]) (simp_all add: tk, simp_all add: k'_def)
  have bl: "bl_ok (pend_on k) k'" using c(2) by (subst bl_ok_cong [where k = k]) (simp_all add: tk bo)
  have own: "own_ok k'"
  proof (rule own_okI, unfold live pend mx)
    show "distinct (mutex_list (tasks k' u))" if "u \<in> live k" for u
      using own_okD(1) [OF c(3) that] by (auto simp: ml)
    show "mutex_task (mutexes k x) = u \<and> obj_type (blk_objs k' x) = RHINO_MUTEX_OBJ_TYPE"
      if "u \<in> live k" "x \<in> set (mutex_list (tasks k' u))" for u x
      using own_okD(2) [OF c(3) that(1), of x] out [OF that(1)] that(2) by (auto simp: ml bo split: if_splits)
    show "x \<noteq> NULL \<and> blk_policy (blk_objs k' x) = BLK_POLICY_PRI"
      if "obj_type (blk_objs k' x) = RHINO_MUTEX_OBJ_TYPE" for x
      using own_okD(3) [OF c(3), of x] that by (auto simp: bo split: if_splits)
    show "mutex_task (mutexes k x) \<noteq> NULL" if "obj_type (blk_objs k' x) = RHINO_MUTEX_OBJ_TYPE" "u \<in> pend_on k x" for x u
      using own_okD(4) [OF c(3), of x u] that by (auto simp: bo split: if_splits)
    show "mutex_task (mutexes k x) \<in> live k \<and> x \<in> set (mutex_list (tasks k' (mutex_task (mutexes k x)))) \<and>
        mutex_task (mutexes k x) \<notin> pend_on k x \<and> owner_nested (mutexes k x) \<noteq> 0"
      if "obj_type (blk_objs k' x) = RHINO_MUTEX_OBJ_TYPE" "mutex_task (mutexes k x) \<noteq> NULL" for x
      using own_okD(5) [OF c(3), of x] that by (auto simp: bo ml split: if_splits)
  qed
  show "core_ok k'"
  proof (rule core_okI)
    show "u \<notin> pend_on k' NULL" for u using c(10) [of u NULL] by (auto simp: pend)
  qed (use c rq bl own idle in \<open>simp_all add: live rdy pend tk ml\<close>)
  show "pi_but t k'"
    unfolding pi_but_def live
  proof (intro ballI impI)
    fix u assume u: "u \<in> live k" "u \<noteq> t"
    have "eff_pri k' u = eff_pri k u"
      by (rule eff_pri_cong [OF c(2) bl]) (simp_all add: tk ml u(2))
    then show "prio (tasks k' u) = eff_pri k' u" using w(2) u(1) by (simp add: tk pi_ok_def)
  qed
qed

lemma mutex_release_unlist:
  assumes core: "core_ok k\<^sub>1" and t: "t \<in> live k\<^sub>1" "t \<noteq> g_idle_task" and pi: "pi_but t k\<^sub>1"
    and k\<^sub>1: "k\<^sub>1 = upd_task t (\<lambda>x. x\<lparr>mutex_list := filter (\<lambda>y. y \<noteq> m) (mutex_list x)\<rparr>) k"
  shows "core_ok (mutex_release t m k)" and "pri_frame k\<^sub>1 (mutex_release t m k)" and "pi_ok (mutex_release t m k)"
proof -
  note c = core_okD [OF core]
  let ?ms = "filter (\<lambda>y. y \<noteq> m) (mutex_list (tasks k t))"
  have ms: "mutex_list (tasks k\<^sub>1 t) = ?ms" by (simp add: k\<^sub>1)
  have srt: "\<forall>x \<in> set ?ms. sorted (map (\<lambda>w. prio (tasks k w)) (blk_list (blk_objs k x)))"
  proof
    fix x assume "x \<in> set ?ms"
    then have "obj_type (blk_objs k\<^sub>1 x) = RHINO_MUTEX_OBJ_TYPE" using own_okD(2) [OF c(3) t(1), of x] ms by simp
    then have "sorted (map (\<lambda>w. prio (tasks k\<^sub>1 w)) (blk_list (blk_objs k\<^sub>1 x)))"
      using own_okD(3) [OF c(3), of x] bl_okD(3) [OF c(2), of x] by simp
    moreover have "prio (tasks k\<^sub>1 w) = prio (tasks k w)" "blk_objs k\<^sub>1 = blk_objs k" for w by (simp_all add: k\<^sub>1)
    ultimately show "sorted (map (\<lambda>w. prio (tasks k w)) (blk_list (blk_objs k x)))" by simp
  qed
  have "fst (mutex_pri_look t m k) = heads_min k (b_prio (tasks k t)) ?ms"
    unfolding mutex_pri_look_def Let_def using mutex_pri_scan_min [OF srt] by simp
  also have "\<dots> = eff_pri k\<^sub>1 t"
  proof -
    have "prio (tasks k\<^sub>1 w) = prio (tasks k w)" "b_prio (tasks k\<^sub>1 w) = b_prio (tasks k w)" "blk_objs k\<^sub>1 = blk_objs k" for w
      by (simp_all add: k\<^sub>1)
    then show ?thesis by (simp add: eff_pri_def heads_min_def ms)
  qed
  finally have "fst (mutex_pri_look t m k) = eff_pri k\<^sub>1 t" .
  moreover have "snd (mutex_pri_look t m k) = k\<^sub>1"
    by (simp add: mutex_pri_look_def Let_def k\<^sub>1 upd_task_def)
  ultimately have look: "mutex_pri_look t m k = (eff_pri k\<^sub>1 t, k\<^sub>1)" by (metis prod.collapse)
  have "core_ok (mutex_release t m k) \<and> pri_frame k\<^sub>1 (mutex_release t m k) \<and> pi_ok (mutex_release t m k)"
  proof (cases "eff_pri k\<^sub>1 t = prio (tasks k\<^sub>1 t)")
    case True
    then have "pi_ok k\<^sub>1" using pi by (auto simp: pi_ok_def pi_but_def)
    with True core look show ?thesis by (simp add: mutex_release_def)
  next
    case False
    with look task_pri_change_ok [OF core t pi] show ?thesis by (auto simp: mutex_release_def)
  qed
  then show "core_ok (mutex_release t m k)" and "pri_frame k\<^sub>1 (mutex_release t m k)" and "pi_ok (mutex_release t m k)"
    by simp_all
qed

text \<open>Up to the waking of the waiting tasks.\<close>

lemma mutex_retire:
  assumes inv: "kinv k" and m: "m \<noteq> NULL" "obj_type (blk_objs k m) = RHINO_MUTEX_OBJ_TYPE"
  defines "k0 \<equiv> upd_blk m (\<lambda>x. x\<lparr>obj_type := RHINO_OBJ_TYPE_NONE\<rparr>) k"
  defines "k' \<equiv> if mutex_task (mutexes k0 m) \<noteq> NULL then mutex_release (mutex_task (mutexes k0 m)) m k0 else k0"
  shows "winv k'" and "tick_pos k'" and "\<And>d. d \<noteq> m \<Longrightarrow> obj_inv k' d" and "obj_type (blk_objs k' m) = RHINO_OBJ_TYPE_NONE"
    and "g_sys_stat k' = g_sys_stat k" and "g_active_task k' = g_active_task k" and "live k' = live k"
    and "rdy k' = rdy k" and "g_sched_lock k' = g_sched_lock k"
proof -
  note w = winvD [OF kinvD(1) [OF inv]] and c = core_okD [OF kinvD(5) [OF inv]]
  have own_m: "m \<notin> set (mutex_list (tasks k u))" if "mutex_task (mutexes k m) = NULL" "u \<in> live k" for u
    using own_okD(2) [OF c(3) that(2), of m] that c(5) by auto
  define t where "t = mutex_task (mutexes k m)"
  define k1 where "k1 = upd_task t (\<lambda>x. x\<lparr>mutex_list := filter (\<lambda>y. y \<noteq> m) (mutex_list x)\<rparr>) k0"
  have sets: "rdy k0 = rdy k" "live k0 = live k" "pend_on k0 = pend_on k" "timed k0 = timed k" "ticks_left k0 u = ticks_left k u" for u
    by (simp_all add: k0_def rdy_def live_def pend_on_def timed_def ticks_left_def fun_eq_iff)
  have sets1: "rdy k1 = rdy k" "live k1 = live k" "pend_on k1 = pend_on k" "timed k1 = timed k" "ticks_left k1 u = ticks_left k u" for u
  proof -
    have "task_state (tasks k1 v) = task_state (tasks k v)" "blk_obj (tasks k1 v) = blk_obj (tasks k v)"
      "tick_head (tasks k1 v) = tick_head (tasks k v)" "tick_match (tasks k1 v) = tick_match (tasks k v)"
      "g_tick_count k1 = g_tick_count k" for v by (simp_all add: k1_def k0_def)
    then show "rdy k1 = rdy k" "live k1 = live k" "pend_on k1 = pend_on k" "timed k1 = timed k" "ticks_left k1 u = ticks_left k u"
      by (simp_all add: rdy_def live_def pend_on_def timed_def ticks_left_def fun_eq_iff)
  qed
  have rest: "tick_ok k1" "susp_ok k1"
    using w(3,4) unfolding tick_ok_def susp_ok_def sets1
    by (auto simp: k1_def k0_def tq_ok_cong [of k1 k, unfolded k1_def k0_def])
  have waits: "waits_same k k1" by (simp add: waits_same_def k1_def k0_def)
  have ob: "obj_inv k1 d" if "d \<noteq> m" for d
    by (rule obj_inv_mono [OF kinvD(3) [OF inv, of d] _ _ _ _ _ waits]) (use that in \<open>simp_all add: sets1, simp_all add: k1_def k0_def\<close>)
  have "winv k' \<and> tick_pos k' \<and> (\<forall>d. d \<noteq> m \<longrightarrow> obj_inv k' d) \<and> obj_type (blk_objs k' m) = RHINO_OBJ_TYPE_NONE \<and>
    g_sys_stat k' = g_sys_stat k \<and> g_active_task k' = g_active_task k \<and> live k' = live k \<and> rdy k' = rdy k \<and>
    g_sched_lock k' = g_sched_lock k"
  proof (cases "t = NULL")
    case False
    note u = core_ok_unlist [OF kinvD(1) [OF inv] m t_def [symmetric] False, folded k0_def, folded k1_def]
    note r = mutex_release_unlist [OF u(1,3,4,2) k1_def]
    have k': "k' = mutex_release t m k0" using False by (simp add: k'_def k0_def t_def)
    have nf: "\<not> g_fault k1" "g_err_log k1 = []" "g_active_task k1 \<noteq> NULL"
      using w(5-7) m(1) False by (simp_all add: k1_def k0_def)
    have "winv k'" unfolding k' by (rule pri_frame_winv [OF r(2,1,3) rest nf])
    moreover note f = pri_frame_rest [OF r(2), folded k'] pri_frame_kernel [OF r(2), folded k']
      pri_frame_sets [OF r(2), folded k'] pri_frame_task(9) [OF r(2), folded k']
    moreover have "tick_pos k1" using kinvD(2) [OF inv] by (simp add: tick_pos_def sets1)
    ultimately show ?thesis using ob by (simp add: sets1) (simp add: k1_def k0_def)
  next
    case True
    have k': "k' = k0" using True by (simp add: k'_def k0_def t_def)
    have "rq_ok (rdy k) k0" using c(1) by (subst rq_ok_cong [where k = k]) (simp_all add: k0_def)
    moreover have bl: "bl_ok (pend_on k) k0" using c(2) by (subst bl_ok_cong [where k = k]) (simp_all add: k0_def)
    moreover have "own_ok k0"
    proof (rule own_okI, unfold sets)
      show "mutex_task (mutexes k0 x) = u \<and> obj_type (blk_objs k0 x) = RHINO_MUTEX_OBJ_TYPE"
        if "u \<in> live k" "x \<in> set (mutex_list (tasks k0 u))" for u x
        using own_okD(2) [OF c(3) that(1), of x] own_m [OF _ that(1)] that(2) True by (auto simp: k0_def t_def)
    qed (use own_okD(1,3-5) [OF c(3)] in \<open>auto simp: k0_def split: if_splits\<close>)
    moreover have "eff_pri k0 u = eff_pri k u" for u
      using eff_pri_demand [OF bl, of u] eff_pri_demand [OF c(2), of u] by (simp add: demand_def k0_def)
    moreover have "tick_ok k0" "susp_ok k0"
      using w(3,4) unfolding tick_ok_def susp_ok_def sets
      by (auto simp: k0_def tq_ok_cong [of k0 k, unfolded k0_def])
    ultimately have "winv k0"
      using w c m(1) by (simp add: winv_def core_ok_def pi_ok_def sets) (simp add: k0_def)
    moreover have "obj_inv k0 d" if "d \<noteq> m" for d
      by (rule obj_inv_mono [OF kinvD(3) [OF inv, of d]]) (use that in \<open>simp_all add: sets waits_same_tasks, simp_all add: k0_def waits_same_tasks\<close>)
    moreover have "tick_pos k0" using kinvD(2) [OF inv] by (simp add: tick_pos_def sets)
    ultimately show ?thesis by (simp add: k' sets) (simp add: k0_def)
  qed
  then show "winv k'" and "tick_pos k'" and "\<And>d. d \<noteq> m \<Longrightarrow> obj_inv k' d" and "obj_type (blk_objs k' m) = RHINO_OBJ_TYPE_NONE"
    and "g_sys_stat k' = g_sys_stat k" and "g_active_task k' = g_active_task k" and "live k' = live k"
    and "rdy k' = rdy k" and "g_sched_lock k' = g_sched_lock k" by simp_all
qed

lemma mutex_del_kinv:
  assumes inv: "kinv k"
  shows "kinv (snd (krhino_mutex_del mutex k))" and "kinv (snd (krhino_mutex_dyn_del mutex k))"
proof -
  let ?k0 = "upd_blk mutex (\<lambda>x. x\<lparr>obj_type := RHINO_OBJ_TYPE_NONE\<rparr>) k"
  let ?k1 = "if mutex_task (mutexes ?k0 mutex) \<noteq> NULL then mutex_release (mutex_task (mutexes ?k0 mutex)) mutex ?k0 else ?k0"
  let ?k2 = "wake_all pend_task_rm mutex ?k1"
  have "kinv (core_sched ?k2)" if m: "mutex \<noteq> NULL" "obj_type (blk_objs k mutex) = RHINO_MUTEX_OBJ_TYPE"
  proof -
    note r = mutex_retire [OF inv m]
    have nm: "obj_type (blk_objs ?k1 mutex) \<noteq> RHINO_MUTEX_OBJ_TYPE" using r(4) by simp
    note w = rm.wake_all_ok [OF r(1) nm]
    have "obj_inv ?k2 d" for d
    proof (cases "d = mutex")
      case True
      have "obj_type (blk_objs ?k2 mutex) = RHINO_OBJ_TYPE_NONE" using quietD(11) [OF w(3), of mutex] r(4) by simp
      with True w(2) show ?thesis by (simp add: obj_inv_def)
    next
      case False
      then show ?thesis using obj_inv_quiet [OF w(3) _ r(3)] w(2) by auto
    qed
    then have ob: "objs_inv ?k2" by (simp add: objs_inv_def)
    have q: "g_sys_stat ?k2 = g_sys_stat k" "g_active_task ?k2 = g_active_task k" "live ?k2 = live k"
      "rdy k \<subseteq> rdy ?k2" "g_sched_lock ?k2 = g_sched_lock k"
      using quietD(1,3,5,12,13) [OF w(3)] r(5-9) by simp_all
    show ?thesis
      using kinvD(4) [OF inv] q
      by (intro kinv_core_sched [OF w(1) tick_pos_quiet [OF w(3) r(2)] ob]) (auto simp: sched_ok_def)
  qed
  then show "kinv (snd (krhino_mutex_del mutex k))" and "kinv (snd (krhino_mutex_dyn_del mutex k))"
    using inv by (simp_all add: krhino_mutex_del_def krhino_mutex_dyn_del_def Let_def)
qed

section \<open>Locking\<close>

lemma winv_upd_nested:
  assumes inv: "winv k" and m: "m \<noteq> NULL" and f: "mutex_task (f (mutexes k m)) = mutex_task (mutexes k m)"
    "owner_nested (f (mutexes k m)) \<noteq> 0"
  shows "winv (upd_mutex m f k)"
proof -
  let ?k = "upd_mutex m f k"
  note w = winvD [OF inv] and c = core_okD [OF winvD(1) [OF inv]]
  have sets: "rdy ?k = rdy k" "live ?k = live k" "pend_on ?k = pend_on k" "timed ?k = timed k"
    by (simp_all add: rdy_def live_def pend_on_def timed_def fun_eq_iff)
  have "own_ok ?k"
    by (rule own_okI, unfold sets) (use own_okD [OF c(3)] f in \<open>auto split: if_splits\<close>)
  moreover have "rq_ok (rdy k) ?k" using c(1) by (subst rq_ok_cong [where k = k]) simp_all
  moreover have "bl_ok (pend_on k) ?k" using c(2) by (subst bl_ok_cong [where k = k]) simp_all
  moreover have "tq_ok (timed k) ?k" using w(3) by (subst tq_ok_cong [where k = k]) (simp_all add: tick_ok_def)
  moreover have "eff_pri ?k t = eff_pri k t" for t by (simp add: eff_pri_def heads_min_def)
  ultimately show ?thesis using w c m by (simp add: winv_def core_ok_def pi_ok_def tick_ok_def susp_ok_def sets)
qed

text \<open>A mutex nobody holds, or whose owner has just handed it over, gets a new owner \<open>a\<close>; all
  waiting tasks have lower priority.\<close>

lemma own_ok_new_owner:
  assumes own: "own_ok k" and a: "a \<in> live k" and m: "obj_type (blk_objs k m) = RHINO_MUTEX_OBJ_TYPE"
    and free: "\<And>t. t \<in> live k \<Longrightarrow> m \<notin> set (mutex_list (tasks k t))" "a \<notin> pend_on k m"
    and k': "blk_objs k' = blk_objs k" "live k' = live k" "pend_on k' = pend_on k"
      "\<And>t. mutex_list (tasks k' t) = (if t = a then m # mutex_list (tasks k t) else mutex_list (tasks k t))"
      "\<And>x. x \<noteq> m \<Longrightarrow> mutexes k' x = mutexes k x" "mutex_task (mutexes k' m) = a" "owner_nested (mutexes k' m) \<noteq> 0"
      "a \<noteq> NULL"
  shows "own_ok k'"
proof (rule own_okI, unfold k'(1,2,3))
  note o = own_okD [OF own]
  show "distinct (mutex_list (tasks k' t))" if "t \<in> live k" for t
    using o(1) [OF that] free(1) [OF that] by (auto simp: k'(4))
  show "mutex_task (mutexes k' x) = t \<and> obj_type (blk_objs k x) = RHINO_MUTEX_OBJ_TYPE"
    if "t \<in> live k" "x \<in> set (mutex_list (tasks k' t))" for t x
    using o(2) [OF that(1), of x] that(2) free(1) [OF that(1)] m k'(5,6)
    by (cases "x = m") (auto simp: k'(4) split: if_splits)
  show "x \<noteq> NULL \<and> blk_policy (blk_objs k x) = BLK_POLICY_PRI" if "obj_type (blk_objs k x) = RHINO_MUTEX_OBJ_TYPE" for x
    by (rule o(3) [OF that])
  show "mutex_task (mutexes k' x) \<noteq> NULL" if "obj_type (blk_objs k x) = RHINO_MUTEX_OBJ_TYPE" "w \<in> pend_on k x" for x w
    using o(4) [OF that] k'(5,6,8) by (cases "x = m") auto
  show "mutex_task (mutexes k' x) \<in> live k \<and> x \<in> set (mutex_list (tasks k' (mutex_task (mutexes k' x)))) \<and>
      mutex_task (mutexes k' x) \<notin> pend_on k x \<and> owner_nested (mutexes k' x) \<noteq> 0"
    if "obj_type (blk_objs k x) = RHINO_MUTEX_OBJ_TYPE" "mutex_task (mutexes k' x) \<noteq> NULL" for x
    using o(5) [OF that(1)] that(2) k'(5-7) a free(2) by (cases "x = m") (auto simp: k'(4))
qed

lemma mutex_get_winv:
  assumes inv: "winv k" and a: "a \<in> live k" "a \<noteq> g_idle_task"
    and m: "obj_type (blk_objs k m) = RHINO_MUTEX_OBJ_TYPE" "mutex_task (mutexes k m) = NULL"
  defines "k' \<equiv> upd_mutex m (\<lambda>x. x\<lparr>owner_nested := 1\<rparr>) (upd_task a (\<lambda>x. x\<lparr>mutex_list := m # mutex_list x\<rparr>)
    (upd_mutex m (\<lambda>x. x\<lparr>mutex_task := a\<rparr>) k))"
  shows "winv k'" and "rdy k' = rdy k" and "live k' = live k" and "pend_on k' = pend_on k" and "timed k' = timed k"
    and "\<And>t. ticks_left k' t = ticks_left k t"
proof -
  note w = winvD [OF inv] and c = core_okD [OF winvD(1) [OF inv]]
  have tk: "task_state (tasks k' v) = task_state (tasks k v)" "blk_obj (tasks k' v) = blk_obj (tasks k v)"
    "prio (tasks k' v) = prio (tasks k v)" "b_prio (tasks k' v) = b_prio (tasks k v)"
    "tick_head (tasks k' v) = tick_head (tasks k v)" "tick_match (tasks k' v) = tick_match (tasks k v)"
    "suspend_count (tasks k' v) = suspend_count (tasks k v)"
    "mutex_list (tasks k' v) = (if v = a then m # mutex_list (tasks k v) else mutex_list (tasks k v))" for v
    by (simp_all add: k'_def)
  have fr: "blk_objs k' = blk_objs k" "g_tick_count k' = g_tick_count k" "g_tick_head k' = g_tick_head k"
    "cur_list_item k' = cur_list_item k" "task_bit_map k' = task_bit_map k" "highest_pri k' = highest_pri k"
    by (simp_all add: k'_def)
  show sets: "rdy k' = rdy k" "live k' = live k" "pend_on k' = pend_on k" "timed k' = timed k"
    "\<And>t. ticks_left k' t = ticks_left k t"
    by (simp_all add: rdy_def live_def pend_on_def timed_def ticks_left_def fun_eq_iff tk fr)
  have empty: "pend_on k m = {}" using own_okD(4) [OF c(3) m(1)] m(2) by blast
  have free: "m \<notin> set (mutex_list (tasks k t))" if "t \<in> live k" for t
    using own_okD(2) [OF c(3) that, of m] m(2) c(11) [OF that] by auto
  have nn: "a \<noteq> NULL" "m \<noteq> NULL" using c(11) [OF a(1)] own_okD(3) [OF c(3) m(1)] by auto
  have "own_ok k'"
    by (rule own_ok_new_owner [OF c(3) a(1) m(1) free])
      (use empty nn in \<open>simp_all add: sets tk fr\<close>, simp_all add: k'_def)
  moreover have "rq_ok (rdy k) k'" using c(1) by (subst rq_ok_cong [where k = k]) (simp_all add: tk fr)
  moreover have bl: "bl_ok (pend_on k) k'" using c(2) by (subst bl_ok_cong [where k = k]) (simp_all add: tk fr)
  moreover have "tq_ok (timed k) k'" using w(3) by (subst tq_ok_cong [where k = k]) (simp_all add: tick_ok_def tk fr)
  moreover have "eff_pri k' u = eff_pri k u" for u
    by (rule eff_pri_cong [OF c(2) bl]) (simp_all add: tk empty)
  moreover have "\<not> g_fault k'" "g_err_log k' = []" "g_active_task k' \<noteq> NULL" using w nn by (simp_all add: k'_def)
  ultimately show "winv k'"
    using w c a(2) by (simp add: winv_def core_ok_def pi_ok_def tick_ok_def susp_ok_def sets tk)
qed

lemma kinv_sets:
  assumes "kinv k" and "winv k'" and "rdy k' = rdy k" and "live k' = live k" and "\<And>b. pend_on k' b \<subseteq> pend_on k b"
    and "timed k' \<subseteq> timed k" and "\<And>t. ticks_left k' t = ticks_left k t"
    and "\<And>b. obj_type (blk_objs k' b) = obj_type (blk_objs k b)" and "sems k' = sems k" and "queues k' = queues k"
    and "buf_queues k' = buf_queues k" and "waits_same k k'" and "g_sys_stat k' = g_sys_stat k"
    and "g_intrpt_nested_level k' = g_intrpt_nested_level k" and "g_sched_lock k' = g_sched_lock k"
    and "g_active_task k' = g_active_task k" and "top_task k' = top_task k" and "events k' = events k"
  shows "kinv k'"
proof -
  have "obj_inv k' b" for b
    by (rule obj_inv_mono [OF kinvD(3) [OF assms(1), of b]]) (use assms in simp_all)
  moreover have "tick_pos k'" using kinvD(2) [OF assms(1)] assms(6,7) by (auto simp: tick_pos_def)
  ultimately show ?thesis using assms kinvD(4) [OF assms(1)] by (simp add: kinv_def objs_inv_def sched_ok_def)
qed

text \<open>While priorities are raised, a task keeps its priority or gets the new one, a better one.\<close>

lemma pri_loop_up:
  assumes "pri_loop t p k = Some r" and "p \<le> prio (tasks k t)"
  shows "prio (tasks (snd r) u) = prio (tasks k u) \<or> prio (tasks (snd r) u) = p \<and> p < prio (tasks k u)"
proof -
  have "p \<le> prio (tasks k t) \<longrightarrow>
    (\<forall>u. prio (tasks (snd r) u) = prio (tasks k u) \<or> prio (tasks (snd r) u) = p \<and> p < prio (tasks k u))"
  proof (rule pri_loop.raw_induct [OF _ assms(1), where P = "\<lambda>t p k r. p \<le> prio (tasks k t) \<longrightarrow>
      (\<forall>u. prio (tasks (snd r) u) = prio (tasks k u) \<or> prio (tasks (snd r) u) = p \<and> p < prio (tasks k u))"], goal_cases)
    case (1 loop t p k r)
    define k2 where "k2 = pend_list_reorder t (upd_task t (\<lambda>x. x\<lparr>prio := p\<rparr>) k)"
    let ?o = "mutex_task (mutexes k (blk_obj (tasks k t)))"
    have k2: "prio (tasks k2 t) = p" "blk_obj (tasks k2 t) = blk_obj (tasks k t)" "mutexes k2 = mutexes k"
      by (simp_all add: k2_def)
    show ?case
    proof
      assume le: "p \<le> prio (tasks k t)"
      show "\<forall>u. prio (tasks (snd r) u) = prio (tasks k u) \<or> prio (tasks (snd r) u) = p \<and> p < prio (tasks k u)"
      proof (cases "prio (tasks k t) = p \<or> task_state (tasks k t) \<notin> {K_PEND, K_PEND_SUSPENDED}")
        case True
        have "tasks (snd r) = tasks k \<or> tasks (snd r) = (tasks k)(t := (tasks k t)\<lparr>prio := p\<rparr>)"
        proof (cases "prio (tasks k t) = p")
          case eq: True
          with 1(2) have "r = (RHINO_SUCCESS, k)" by simp
          then show ?thesis by simp
        next
          case ne: False
          with True have st: "task_state (tasks k t) \<notin> {K_PEND, K_PEND_SUSPENDED}" by simp
          from 1(2) ne st show ?thesis
            by (cases "task_state (tasks k t)") (simp_all only: Let_def if_False if_True split: if_split, auto)
        qed
        then show ?thesis using le by (auto split: if_splits)
      next
        case False
        then have lt: "p < prio (tasks k t)" "prio (tasks k t) \<noteq> p"
          and st: "task_state (tasks k t) \<in> {K_PEND, K_PEND_SUSPENDED}" "task_state (tasks k t) \<noteq> K_RDY"
            "task_state (tasks k t) \<notin> {K_SLEEP, K_SUSPENDED, K_SLEEP_SUSPENDED}" using le by auto
        have pr: "prio (tasks k2 u) = (if u = t then p else prio (tasks k u))" for u by (simp add: k2_def)
        from 1(2) have "(if obj_type (blk_objs k2 (blk_obj (tasks k t))) \<noteq> RHINO_MUTEX_OBJ_TYPE then Some (RHINO_SUCCESS, k2)
            else if ?o = NULL then Some (RHINO_SUCCESS, fault k2)
            else if prio (tasks k2 ?o) > p then loop ?o p k2
            else if prio (tasks k2 ?o) = prio (tasks k t) then
              if fst (mutex_pri_look ?o NULL k2) \<noteq> prio (tasks k2 ?o)
              then loop ?o (fst (mutex_pri_look ?o NULL k2)) (snd (mutex_pri_look ?o NULL k2))
              else Some (RHINO_SUCCESS, snd (mutex_pri_look ?o NULL k2))
            else Some (RHINO_SUCCESS, k2)) = Some r"
          by (simp only: st lt k2 if_False if_True Let_def flip: k2_def)
        then consider (stop) "snd r = k2 \<or> snd r = fault k2" | (next_owner) "loop ?o p k2 = Some r" "p < prio (tasks k2 ?o)"
          using lt(1) by (auto split: if_splits)
        then show ?thesis
        proof cases
          case stop
          then have "tasks (snd r) = tasks k2" by auto
          then show ?thesis using lt by (simp add: pr)
        next
          case next_owner
          have "\<forall>u. prio (tasks (snd r) u) = prio (tasks k2 u) \<or> prio (tasks (snd r) u) = p \<and> p < prio (tasks k2 u)"
            using 1(1) [OF next_owner(1)] next_owner(2) by simp
          moreover have "p < prio (tasks k u)" if "p < prio (tasks k2 u)" for u using that by (simp add: pr split: if_splits)
          moreover have "prio (tasks k2 u) = prio (tasks k u) \<or> prio (tasks k2 u) = p \<and> p < prio (tasks k u)" for u
            using lt by (simp add: pr)
          ultimately show ?thesis by metis
        qed
      qed
    qed
  qed
  with assms(2) show ?thesis by blast
qed

lemma raise_ready_to_block:
  assumes inv: "winv k" and m: "obj_type (blk_objs k m) = RHINO_MUTEX_OBJ_TYPE"
    and o: "mutex_task (mutexes k m) = ow" "ow \<noteq> NULL" "ow \<noteq> g_active_task k"
  defines "p \<equiv> prio (tasks k (g_active_task k))"
  defines "k' \<equiv> if p < prio (tasks k ow) then snd (task_pri_change ow p k) else k"
  shows "core_ok k'" and "pri_frame k k'" and "ready_to_block m k'"
proof -
  note w = winvD [OF inv] and c = core_okD [OF winvD(1) [OF inv]]
  note ob = own_okD(5) [OF c(3) m, unfolded o(1), OF o(2)]
  have idle: "ow \<noteq> g_idle_task" using ob c(7) by auto
  have "core_ok k' \<and> pri_frame k k' \<and> ready_to_block m k'"
  proof (cases "p < prio (tasks k ow)")
    case True
    obtain k1 where k1: "task_pri_change ow p k = (RHINO_SUCCESS, k1)" "core_ok k1" "pri_frame k k1"
      "\<forall>u \<in> live k. prio (tasks k1 u) = eff_with ow p k1 u"
      using task_pri_change_raise [OF w(1) _ idle w(2) True] ob by blast
    have "\<not> g_fault k1" using w(5) pri_frame_kernel(18) [OF k1(3)] by simp
    then have "pri_loop ow p k = Some (RHINO_SUCCESS, k1)"
      using k1(1) by (cases "pri_loop ow p k") (auto simp: task_pri_change_def)
    from pri_loop_up [OF this, of "g_active_task k"] True have "prio (tasks k1 (g_active_task k)) = p" by (auto simp: p_def)
    moreover have "k' = k1" using True k1(1) by (simp add: k'_def)
    ultimately show ?thesis
      using k1 m o by (simp add: ready_to_block_def pri_frame_kernel [OF k1(3)] pri_frame_task [OF k1(3)] pri_frame_sets [OF k1(3)])
  next
    case False
    have "prio (tasks k u) = eff_with ow p k u" if "u \<in> live k" for u
      using w(2) that False by (auto simp: pi_ok_def eff_with_def)
    then have "ready_to_block m k" using m o by (simp add: ready_to_block_def p_def)
    then show ?thesis using False w(1) by (simp add: k'_def)
  qed
  then show "core_ok k'" and "pri_frame k k'" and "ready_to_block m k'" by simp_all
qed

lemma mutex_block_kinv:
  assumes inv: "kinv k" and cpu: "g_intrpt_nested_level k = 0" "g_sched_lock k = 0"
    and a: "g_active_task k \<noteq> g_idle_task" and tm: "ticks \<noteq> 0"
    and m: "obj_type (blk_objs k m) = RHINO_MUTEX_OBJ_TYPE"
    and o: "mutex_task (mutexes k m) = ow" "ow \<noteq> NULL" "ow \<noteq> g_active_task k"
  defines "k1 \<equiv> if prio (tasks k (g_active_task k)) < prio (tasks k ow)
    then snd (task_pri_change ow (prio (tasks k (g_active_task k))) k) else k"
  shows "kinv (core_sched (pend_to_blk_obj m (g_active_task k1) ticks k1))"
proof -
  note w = winvD [OF kinvD(1) [OF inv]]
  note r = raise_ready_to_block [OF kinvD(1) [OF inv] m o, folded k1_def]
  note f = pri_frame_kernel [OF r(2)] pri_frame_sets [OF r(2)] pri_frame_task [OF r(2)] pri_frame_rest [OF r(2)]
  let ?k = "pend_to_blk_obj m (g_active_task k1) ticks k1"
  have nn: "m \<noteq> NULL" using own_okD(3) [OF core_okD(3) [OF w(1)] m] by simp
  have tk: "tick_ok k1" "susp_ok k1" "\<not> g_fault k1" "g_err_log k1 = []" using w by (simp_all add: f)
  have ra: "g_active_task k1 \<in> rdy k1" "g_active_task k1 \<noteq> g_idle_task"
    using kinv_active_rdy [OF inv cpu(1)] a by (simp_all add: f)
  note l = winv_block [OF r(1) tk ra r(3) nn tm]
  have ob1: "obj_inv k1 d" for d by (rule pri_frame_rest(7) [OF r(2) kinvD(3) [OF inv]])
  have tp1: "tick_pos k1" using kinvD(2) [OF inv] by (simp add: f)
  have "ticks_left ?k t \<noteq> 0" if t: "t \<in> timed ?k" for t
  proof (cases "t = g_active_task k1")
    case True
    then show ?thesis using l(7) t tm by simp
  next
    case False
    then show ?thesis using l(5,6) [OF False] t tp1 by (simp add: tick_pos_def)
  qed
  moreover have "obj_inv ?k d" for d
  proof (cases "d = m")
    case True
    have "obj_type (blk_objs ?k m) = RHINO_MUTEX_OBJ_TYPE" using m l(8) [of m] pri_frame_task(9) [OF r(2), of m] by simp
    with True show ?thesis by (simp add: obj_inv_def)
  next
    case False
    have "pend_on ?k d = pend_on k1 d" using l(2) False by simp
    with ob1 [of d] show ?thesis
      unfolding obj_inv_def l(8) by (simp add: pend_to_blk_obj_info cong: kobj_type.case_cong)
  qed
  moreover have "g_sys_stat k = RHINO_RUNNING" using kinvD(4) [OF inv] by (simp add: sched_ok_def)
  ultimately show ?thesis
    using cpu by (intro kinv_core_sched [OF l(1)]) (simp_all add: objs_inv_def tick_pos_def f)
qed

lemma mutex_lock_kinv:
  assumes inv: "kinv k" and a: "g_active_task k \<noteq> g_idle_task"
    and nest: "g_active_task k = mutex_task (mutexes k mutex) \<Longrightarrow> owner_nested (mutexes k mutex) \<noteq> - 1"
  shows "kinv (snd (krhino_mutex_lock mutex ticks k))"
proof (cases "mutex \<noteq> NULL \<and> g_sys_stat k \<noteq> RHINO_STOPPED \<and> g_intrpt_nested_level k = 0 \<and>
    obj_type (blk_objs k mutex) = RHINO_MUTEX_OBJ_TYPE")
  case False
  then show ?thesis using inv by (auto simp: krhino_mutex_lock_def word_greater_zero_iff)
next
  case ok: True
  then have m: "obj_type (blk_objs k mutex) = RHINO_MUTEX_OBJ_TYPE" by simp
  let ?a = "g_active_task k" and ?o = "mutex_task (mutexes k mutex)"
  have same: "kinv k'" if "winv k'" "rdy k' = rdy k" "live k' = live k" "pend_on k' = pend_on k" "timed k' = timed k"
      "\<And>t. ticks_left k' t = ticks_left k t" "blk_objs k' = blk_objs k" "sems k' = sems k" "queues k' = queues k"
      "buf_queues k' = buf_queues k" "waits_same k k'" "g_sys_stat k' = g_sys_stat k"
      "g_intrpt_nested_level k' = g_intrpt_nested_level k" "g_sched_lock k' = g_sched_lock k"
      "g_active_task k' = g_active_task k" "cur_list_item k' = cur_list_item k" "highest_pri k' = highest_pri k"
      "events k' = events k" for k'
    by (rule kinv_sets [OF inv]) (use that in \<open>simp_all add: top_task_def\<close>)
  consider (nested) "?a = ?o" | (free) "?a \<noteq> ?o" "?o = NULL" | (held) "?a \<noteq> ?o" "?o \<noteq> NULL" by blast
  then show ?thesis
  proof cases
    case nested
    then have "owner_nested (mutexes k mutex) + 1 \<noteq> 0" using nest by (metis add.commute add_eq_0_iff)
    then have "winv (upd_mutex mutex (\<lambda>x. x\<lparr>owner_nested := owner_nested x + 1\<rparr>) k)"
      using ok by (intro winv_upd_nested [OF kinvD(1) [OF inv]]) simp_all
    then have "kinv (upd_mutex mutex (\<lambda>x. x\<lparr>owner_nested := owner_nested x + 1\<rparr>) k)"
      by (rule same) (simp_all add: rdy_def live_def pend_on_def timed_def ticks_left_def fun_eq_iff waits_same_tasks)
    then show ?thesis using ok nested nest by (simp add: krhino_mutex_lock_def)
  next
    case free
    have al: "?a \<in> live k" using kinvD(4) [OF inv] by (simp add: sched_ok_def)
    note g = mutex_get_winv [OF kinvD(1) [OF inv] al a m free(2)]
    from g(1) have "kinv (upd_mutex mutex (\<lambda>x. x\<lparr>owner_nested := 1\<rparr>) (upd_task ?a (\<lambda>x. x\<lparr>mutex_list := mutex # mutex_list x\<rparr>)
        (upd_mutex mutex (\<lambda>x. x\<lparr>mutex_task := ?a\<rparr>) k)))"
      by (rule same) (simp_all add: g(2-6) waits_same_def)
    then show ?thesis using ok free by (simp add: krhino_mutex_lock_def Let_def)
  next
    case held
    then have "kinv (snd (Blocked, core_sched (pend_to_blk_obj mutex (g_active_task k1) ticks k1)))"
      if "ticks \<noteq> 0" "g_sched_lock k = 0" "k1 = (if prio (tasks k ?a) < prio (tasks k ?o)
        then snd (task_pri_change ?o (prio (tasks k ?a)) k) else k)" for k1
      using mutex_block_kinv [OF inv _ that(2) a that(1) m refl held(2)] ok that(3) by auto
    then show ?thesis
      using ok held inv by (simp add: krhino_mutex_lock_def Let_def RHINO_NO_WAIT_def word_greater_zero_iff)
  qed
qed

section \<open>Unlocking\<close>

text \<open>The running task gives up a mutex: its list gets shorter and its priority becomes what the
  remaining mutexes demand.\<close>

lemma release_running:
  assumes rq: "rq_ok A k" "a \<in> A" "A - {a} \<noteq> {}" and bl: "bl_ok W k" "\<And>b. a \<notin> W b"
    and st: "task_state (tasks k a) = K_RDY" and nn: "a \<noteq> NULL"
    and ms: "ms = filter (\<lambda>y. y \<noteq> m) (mutex_list (tasks k a))"
    and srt: "\<forall>x \<in> set ms. sorted (map (\<lambda>w. prio (tasks k w)) (blk_list (blk_objs k x)))"
    and p: "p = heads_min k (b_prio (tasks k a)) ms" "p < RHINO_CONFIG_PRI_MAX"
  defines "k1 \<equiv> upd_task a (\<lambda>x. x\<lparr>mutex_list := ms\<rparr>) k"
  defines "k2 \<equiv> mutex_release a m k"
  shows "rq_ok A k2" and "bl_ok W k2" and "pri_frame k1 k2"
    and "tasks k2 = (tasks k)(a := (tasks k a)\<lparr>mutex_list := ms, prio := p\<rparr>)" and "blk_objs k2 = blk_objs k"
proof -
  have look: "mutex_pri_look a m k = (p, k1)"
    unfolding mutex_pri_look_def Let_def ms [symmetric] k1_def using mutex_pri_scan_min [OF srt] p(1) by simp
  have rq1: "rq_ok A k1" using rq(1) by (subst rq_ok_cong [where k = k]) (simp_all add: k1_def)
  have bl1: "bl_ok W k1" using bl(1) by (subst bl_ok_cong [where k = k]) (simp_all add: k1_def)
  have t1: "tasks k1 = (tasks k)(a := (tasks k a)\<lparr>mutex_list := ms\<rparr>)" by (simp add: k1_def)
  have "rq_ok A k2 \<and> bl_ok W k2 \<and> pri_frame k1 k2 \<and>
    tasks k2 = (tasks k)(a := (tasks k a)\<lparr>mutex_list := ms, prio := p\<rparr>) \<and> blk_objs k2 = blk_objs k"
  proof (cases "p = prio (tasks k a)")
    case True
    then have "k2 = k1" by (simp add: k2_def mutex_release_def look t1)
    then show ?thesis using rq1 bl1 True by (simp add: t1) (simp add: k1_def)
  next
    case False
    note r = pri_change_rdy [OF rq1 rq(2,3) bl1 bl(2) p(2) nn]
    have "k2 = (let x = upd_task a (\<lambda>x. x\<lparr>prio := p\<rparr>) (ready_list_rm a k1)
      in if a = g_active_task x then ready_list_add_head a x else ready_list_add_tail a x)"
      using False st by (simp add: k2_def mutex_release_def look t1 task_pri_change_def pri_loop.simps Let_def)
    then show ?thesis using r by (simp add: t1 Let_def) (simp add: k1_def)
  qed
  then show "rq_ok A k2" and "bl_ok W k2" and "pri_frame k1 k2"
    and "tasks k2 = (tasks k)(a := (tasks k a)\<lparr>mutex_list := ms, prio := p\<rparr>)" and "blk_objs k2 = blk_objs k"
    by simp_all
qed

text \<open>Passing a mutex from \<open>a\<close> to \<open>w\<close>.\<close>

lemma own_ok_pass:
  assumes own: "own_ok k" and m: "obj_type (blk_objs k m) = RHINO_MUTEX_OBJ_TYPE" "mutex_task (mutexes k m) = a"
    and w: "w \<in> live k" "w \<noteq> a" "w \<noteq> NULL" and a: "a \<noteq> NULL"
    and k': "\<And>b. obj_type (blk_objs k' b) = obj_type (blk_objs k b)" "\<And>b. blk_policy (blk_objs k' b) = blk_policy (blk_objs k b)"
      "live k' = live k" "pend_on k' = (pend_on k)(m := pend_on k m - {w})"
      "\<And>t. mutex_list (tasks k' t) = (if t = a then filter (\<lambda>y. y \<noteq> m) (mutex_list (tasks k t))
        else if t = w then m # mutex_list (tasks k t) else mutex_list (tasks k t))"
      "\<And>x. x \<noteq> m \<Longrightarrow> mutexes k' x = mutexes k x" "mutex_task (mutexes k' m) = w" "owner_nested (mutexes k' m) \<noteq> 0"
  shows "own_ok k'"
proof (rule own_okI, unfold k'(1,2,3))
  note o = own_okD [OF own]
  have out: "m \<notin> set (mutex_list (tasks k t))" if "t \<in> live k" "t \<noteq> a" for t
    using o(2) [OF that(1), of m] m(2) that(2) by auto
  show "distinct (mutex_list (tasks k' t))" if "t \<in> live k" for t
    using o(1) [OF that] out [OF that] w(2) by (auto simp: k'(5))
  show "mutex_task (mutexes k' x) = t \<and> obj_type (blk_objs k x) = RHINO_MUTEX_OBJ_TYPE"
    if "t \<in> live k" "x \<in> set (mutex_list (tasks k' t))" for t x
    using o(2) [OF that(1), of x] that(2) out [OF that(1)] m(1) k'(6,7)
    by (cases "x = m") (auto simp: k'(5) split: if_splits)
  show "x \<noteq> NULL \<and> blk_policy (blk_objs k x) = BLK_POLICY_PRI" if "obj_type (blk_objs k x) = RHINO_MUTEX_OBJ_TYPE" for x
    by (rule o(3) [OF that])
  show "mutex_task (mutexes k' x) \<noteq> NULL" if "obj_type (blk_objs k x) = RHINO_MUTEX_OBJ_TYPE" "v \<in> pend_on k' x" for x v
    using o(4) [OF that(1), of v] that(2) k'(6,7) w(3) by (cases "x = m") (auto simp: k'(4))
  show "mutex_task (mutexes k' x) \<in> live k \<and> x \<in> set (mutex_list (tasks k' (mutex_task (mutexes k' x)))) \<and>
      mutex_task (mutexes k' x) \<notin> pend_on k' x \<and> owner_nested (mutexes k' x) \<noteq> 0"
    if "obj_type (blk_objs k x) = RHINO_MUTEX_OBJ_TYPE" "mutex_task (mutexes k' x) \<noteq> NULL" for x
    using o(5) [OF that(1)] that(2) k'(6-8) w by (cases "x = m") (auto simp: k'(4,5))
qed

lemma own_ok_drop:
  assumes own: "own_ok k" and m: "obj_type (blk_objs k m) = RHINO_MUTEX_OBJ_TYPE" "mutex_task (mutexes k m) = a"
    and none: "pend_on k m = {}"
    and k': "blk_objs k' = blk_objs k" "live k' = live k" "pend_on k' = pend_on k"
      "\<And>t. mutex_list (tasks k' t) = (if t = a then filter (\<lambda>y. y \<noteq> m) (mutex_list (tasks k t)) else mutex_list (tasks k t))"
      "\<And>x. x \<noteq> m \<Longrightarrow> mutexes k' x = mutexes k x" "mutex_task (mutexes k' m) = NULL"
  shows "own_ok k'"
proof (rule own_okI, unfold k'(1,2,3))
  note o = own_okD [OF own]
  have out: "m \<notin> set (mutex_list (tasks k t))" if "t \<in> live k" "t \<noteq> a" for t
    using o(2) [OF that(1), of m] m(2) that(2) by auto
  show "distinct (mutex_list (tasks k' t))" if "t \<in> live k" for t
    using o(1) [OF that] by (auto simp: k'(4))
  show "mutex_task (mutexes k' x) = t \<and> obj_type (blk_objs k x) = RHINO_MUTEX_OBJ_TYPE"
    if "t \<in> live k" "x \<in> set (mutex_list (tasks k' t))" for t x
    using o(2) [OF that(1), of x] that(2) out [OF that(1)] k'(5)
    by (cases "x = m") (auto simp: k'(4) split: if_splits)
  show "x \<noteq> NULL \<and> blk_policy (blk_objs k x) = BLK_POLICY_PRI" if "obj_type (blk_objs k x) = RHINO_MUTEX_OBJ_TYPE" for x
    by (rule o(3) [OF that])
  show "mutex_task (mutexes k' x) \<noteq> NULL" if "obj_type (blk_objs k x) = RHINO_MUTEX_OBJ_TYPE" "v \<in> pend_on k x" for x v
    using o(4) [OF that] that(2) k'(5) none by (cases "x = m") auto
  show "mutex_task (mutexes k' x) \<in> live k \<and> x \<in> set (mutex_list (tasks k' (mutex_task (mutexes k' x)))) \<and>
      mutex_task (mutexes k' x) \<notin> pend_on k x \<and> owner_nested (mutexes k' x) \<noteq> 0"
    if "obj_type (blk_objs k x) = RHINO_MUTEX_OBJ_TYPE" "mutex_task (mutexes k' x) \<noteq> NULL" for x
    using o(5) [OF that(1)] that(2) k'(5,6) by (cases "x = m") (auto simp: k'(4))
qed

text \<open>The first waiting task has the best priority among those that wait, so it needs no raise.\<close>

lemma eff_pri_first_waiter:
  assumes bl: "bl_ok W k" "bl_ok W' k'" and W': "W' = W(m := W m - {w})"
    and ml: "mutex_list (tasks k' w) = m # mutex_list (tasks k w)" "m \<notin> set (mutex_list (tasks k w))"
    and same: "b_prio (tasks k' w) = b_prio (tasks k w)" "\<And>u b. u \<in> W b \<Longrightarrow> prio (tasks k' u) = prio (tasks k u)"
    and first: "\<And>u. u \<in> W m \<Longrightarrow> eff_pri k w \<le> prio (tasks k u)"
  shows "eff_pri k' w = eff_pri k w"
proof -
  let ?R = "(\<lambda>u. prio (tasks k u)) ` (W m - {w})"
  have "(\<Union>x \<in> set (mutex_list (tasks k w)). (\<lambda>u. prio (tasks k' u)) ` W' x) =
      (\<Union>x \<in> set (mutex_list (tasks k w)). (\<lambda>u. prio (tasks k u)) ` W x)"
    by (rule SUP_cong [OF refl]) (use ml(2) same(2) in \<open>auto simp: W'\<close>)
  moreover have "(\<lambda>u. prio (tasks k' u)) ` W' m = ?R" using same(2) by (intro image_cong) (auto simp: W')
  ultimately have d: "demand W' k' w = ?R \<union> demand W k w" by (auto simp: demand_def ml(1) same(1))
  have fin: "finite ?R" "finite (demand W k w)" "demand W k w \<noteq> {}"
    using bl_okD(2) [OF bl(1), of m, symmetric] finite_demand [OF bl(1)] by (auto simp: demand_def)
  have "Min (?R \<union> demand W k w) = Min (demand W k w)"
  proof (rule antisym)
    show "Min (?R \<union> demand W k w) \<le> Min (demand W k w)" using fin by (intro Min_antimono) auto
    show "Min (demand W k w) \<le> Min (?R \<union> demand W k w)"
      using fin first eff_pri_demand [OF bl(1)] by (auto simp: Min_ge_iff)
  qed
  then show ?thesis using eff_pri_demand [OF bl(1)] eff_pri_demand [OF bl(2)] d by simp
qed

lemma mutex_pass_winv:
  assumes inv: "winv k" and m: "obj_type (blk_objs k m) = RHINO_MUTEX_OBJ_TYPE" "mutex_task (mutexes k m) = a"
    and a: "a \<in> rdy k" and ws: "blk_list (blk_objs k m) = w # ws"
  defines "k2 \<equiv> mutex_release a m (upd_mutex m (\<lambda>x. x\<lparr>owner_nested := owner_nested x - 1\<rparr>) k)"
  defines "k' \<equiv> upd_mutex m (\<lambda>x. x\<lparr>owner_nested := 1\<rparr>) (upd_task w (\<lambda>x. x\<lparr>mutex_list := m # mutex_list x\<rparr>)
    (upd_mutex m (\<lambda>x. x\<lparr>mutex_task := w\<rparr>) (pend_task_wakeup w k2)))"
  shows "winv k'" and "pend_on k' = (pend_on k)(m := pend_on k m - {w})" and "quiet k (k'\<lparr>mutexes := mutexes k\<rparr>)"
    and "blk_objs k2 = blk_objs k" and "blk_objs k' = (blk_objs k)(m := (blk_objs k m)\<lparr>blk_list := ws\<rparr>)"
    and "mutexes k' = (mutexes k)(m := (mutexes k m)\<lparr>mutex_task := w, owner_nested := 1\<rparr>)"
    and "tasks k' w = (woken BLK_FINISH (tasks k w))\<lparr>mutex_list := m # mutex_list (tasks k w)\<rparr>"
    and "mutex_list (tasks k' a) = filter (\<lambda>y. y \<noteq> m) (mutex_list (tasks k a))"
proof -
  note v = winvD [OF inv] and c = core_okD [OF winvD(1) [OF inv]]
  have al: "a \<in> live k" by (rule rdy_live [OF a])
  have nn: "a \<noteq> NULL" by (rule c(11) [OF al])
  note o = own_okD(5) [OF c(3) m(1), unfolded m(2), OF nn]
  have mn: "m \<noteq> NULL" and pol: "blk_policy (blk_objs k m) = BLK_POLICY_PRI" using own_okD(3) [OF c(3) m(1)] by auto
  have idle: "a \<noteq> g_idle_task" using o c(7) by auto
  have st: "task_state (tasks k a) = K_RDY" using a by (simp add: rdy_def)
  have out: "a \<notin> pend_on k b" for b using st by (auto simp: pend_on_def pended_def)
  have wp: "w \<in> pend_on k m" using ws bl_okD(2) [OF c(2), of m] by auto
  have wl: "w \<in> live k" by (rule pend_on_live [OF wp])
  have wn: "w \<noteq> NULL" by (rule c(11) [OF wl])
  have wa: "w \<noteq> a" using wp out by auto
  have wst: "pended (task_state (tasks k w))" "blk_obj (tasks k w) = m" using wp by (simp_all add: pend_on_def)
  have wr: "w \<notin> rdy k" using wst(1) by (auto simp: rdy_def pended_def)
  define k0 where "k0 = upd_mutex m (\<lambda>x. x\<lparr>owner_nested := owner_nested x - 1\<rparr>) k"
  define ms where "ms = filter (\<lambda>y. y \<noteq> m) (mutex_list (tasks k a))"
  define p where "p = heads_min k (b_prio (tasks k a)) ms"
  have rq0: "rq_ok (rdy k) k0" using c(1) by (subst rq_ok_cong [where k = k]) (simp_all add: k0_def)
  have bl0: "bl_ok (pend_on k) k0" using c(2) by (subst bl_ok_cong [where k = k]) (simp_all add: k0_def)
  have A: "rdy k - {a} \<noteq> {}" using c(6) idle by auto
  have srt: "\<forall>x \<in> set ms. sorted (map (\<lambda>u. prio (tasks k0 u)) (blk_list (blk_objs k0 x)))"
    using own_okD(2) [OF c(3) al] own_okD(3) [OF c(3)] bl_okD(3) [OF c(2)] by (auto simp: ms_def k0_def)
  have pm: "p < RHINO_CONFIG_PRI_MAX"
    using c(9) [OF al] by (rule le_less_trans [rotated]) (simp add: p_def heads_min_def)
  have p0: "p = heads_min k0 (b_prio (tasks k0 a)) ms" by (simp add: p_def heads_min_def k0_def)
  have st0: "task_state (tasks k0 a) = K_RDY" and ms0: "ms = filter (\<lambda>y. y \<noteq> m) (mutex_list (tasks k0 a))"
    using st by (simp_all add: k0_def ms_def)
  note r = release_running [OF rq0 a A bl0 out st0 nn ms0 srt p0 pm, folded k2_def [folded k0_def]]
  note fr = pri_frame_kernel [OF r(3)]
  show bo2: "blk_objs k2 = blk_objs k" using r(5) by (simp add: k0_def)
  have t2: "tasks k2 u = (if u = a then (tasks k a)\<lparr>mutex_list := ms, prio := p\<rparr> else tasks k u)" for u
    by (simp add: r(4) k0_def)
  have tq2: "tq_ok (timed k) k2"
    using v(3) by (subst tq_ok_cong [where k = k]) (simp_all add: tick_ok_def t2 fr, simp_all add: k0_def)
  have w2: "blk_obj (tasks k2 w) = m" "pended (task_state (tasks k2 w))" "prio (tasks k2 w) < RHINO_CONFIG_PRI_MAX"
    "g_active_task k2 \<noteq> NULL"
    using wst wa c(8) [OF wl] v(7) by (simp_all add: t2 fr) (simp add: k0_def)
  note l = wake_with_lists [OF r(1) wr r(2) wp tq2 w2(1) mn w2(2-4) wn, of BLK_FINISH, folded wake_with_eqs]
  let ?A = "if task_state (tasks k w) = K_PEND then insert w (rdy k) else rdy k"
  have A2: "(if task_state (tasks k2 w) = K_PEND then insert w (rdy k) else rdy k) = ?A" using wa by (simp add: t2)
  have tk: "tasks k' u = (if u = w then (woken BLK_FINISH (tasks k w))\<lparr>mutex_list := m # mutex_list (tasks k w)\<rparr>
      else if u = a then (tasks k a)\<lparr>mutex_list := ms, prio := p\<rparr> else tasks k u)" for u
    using wa by (simp add: k'_def l(4) t2 woken_def)
  show bo: "blk_objs k' = (blk_objs k)(m := (blk_objs k m)\<lparr>blk_list := ws\<rparr>)"
    by (simp add: k'_def l(7) bo2 ws)
  show mx: "mutexes k' = (mutexes k)(m := (mutexes k m)\<lparr>mutex_task := w, owner_nested := 1\<rparr>)"
    by (simp add: k'_def fr) (simp add: k0_def)
  have fields: "b_prio (tasks k' u) = b_prio (tasks k u)" "suspend_count (tasks k' u) = suspend_count (tasks k u)"
    "tick_match (tasks k' u) = tick_match (tasks k u)" "prio (tasks k' u) = (if u = a then p else prio (tasks k u))" for u
    using wa by (simp_all add: tk woken_def)
  have ml: "mutex_list (tasks k' u) = (if u = a then filter (\<lambda>y. y \<noteq> m) (mutex_list (tasks k u))
      else if u = w then m # mutex_list (tasks k u) else mutex_list (tasks k u))" for u
    using wa by (simp add: tk ms_def)
  show "tasks k' w = (woken BLK_FINISH (tasks k w))\<lparr>mutex_list := m # mutex_list (tasks k w)\<rparr>"
    and "mutex_list (tasks k' a) = filter (\<lambda>y. y \<noteq> m) (mutex_list (tasks k a))"
    using ml [of a] by (simp_all add: tk)
  have rdy: "rdy k' = ?A" using wr wa st by (auto simp: rdy_def tk woken_def)
  have live: "live k' = live k" using al wl by (auto simp: live_def tk woken_def)
  show pend: "pend_on k' = (pend_on k)(m := pend_on k m - {w})"
    using wst st wa by (auto simp: pend_on_def tk woken_def pended_def fun_eq_iff)
  have timed: "timed k' = timed k - {w}" by (auto simp: timed_def tk woken_def)
  have rq: "rq_ok ?A k'" using l(1) [unfolded A2] by (subst rq_ok_cong [where k = "pend_task_wakeup w k2"]) (simp_all add: k'_def)
  have bl: "bl_ok ((pend_on k)(m := pend_on k m - {w})) k'"
    using l(2) by (subst bl_ok_cong [where k = "pend_task_wakeup w k2"]) (simp_all add: k'_def)
  have tq: "tq_ok (timed k - {w}) k'"
    using l(3) by (subst tq_ok_cong [where k = "pend_task_wakeup w k2"]) (simp_all add: k'_def)
  have own: "own_ok k'"
    by (rule own_ok_pass [OF c(3) m wl wa wn nn _ _ live pend ml]) (simp_all add: bo mx)
  have core: "core_ok k'"
  proof (rule core_okI)
    show "u \<notin> pend_on k' NULL" for u using c(10) [of u NULL] mn by (auto simp: pend)
    show "prio (tasks k' u) < RHINO_CONFIG_PRI_MAX" if "u \<in> live k'" for u
      using c(8) [of u] that pm by (simp add: fields live)
    show "mutex_list (tasks k' g_idle_task) = []" using c(7) idle wr c(6) by (auto simp: ml)
  qed (use c rq bl own in \<open>simp_all add: rdy live pend fields\<close>)
  have eff: "eff_pri k' u = prio (tasks k' u)" if u: "u \<in> live k" for u
  proof (cases "u = a")
    case True
    have "(\<Union>x \<in> set ms. (\<lambda>v. prio (tasks k' v)) ` ((pend_on k)(m := pend_on k m - {w})) x) =
        (\<Union>x \<in> set ms. (\<lambda>v. prio (tasks k v)) ` set (blk_list (blk_objs k x)))"
      by (rule SUP_cong [OF refl]) (use out in \<open>auto simp: ms_def fields bl_okD(2) [OF c(2)] image_iff\<close>)
    then show ?thesis
      using True eff_pri_demand [OF bl] by (simp add: demand_def ml ms_def [symmetric] fields p_def heads_min_def)
  next
    case na: False
    have pu: "prio (tasks k u) = eff_pri k u" using v(2) u by (simp add: pi_ok_def)
    have mu: "m \<notin> set (mutex_list (tasks k u))" using own_okD(2) [OF c(3) u, of m] m(2) na by auto
    show ?thesis
    proof (cases "u = w")
      case True
      have "sorted (map (\<lambda>v. prio (tasks k v)) (w # ws))" using bl_okD(3) [OF c(2) pol] ws by simp
      have first: "eff_pri k w \<le> prio (tasks k v)" if "v \<in> pend_on k m" for v
      proof -
        have "v = w \<or> v \<in> set ws" using that bl_okD(2) [OF c(2), of m] ws by auto
        then show ?thesis using \<open>sorted _\<close> pu True by auto
      qed
      have "eff_pri k' w = eff_pri k w"
        by (rule eff_pri_first_waiter [OF c(2) bl refl _ _ _ _ first]) (use mu True wa out in \<open>auto simp: ml fields\<close>)
      then show ?thesis using True pu wa by (simp add: fields)
    next
      case False
      have "eff_pri k' u = eff_pri k u"
        by (rule eff_pri_cong [OF c(2) bl fields(1)])
          (rule SUP_cong, use na False mu out in \<open>auto simp: ml fields image_iff\<close>)
      then show ?thesis using pu na by (simp add: fields)
    qed
  qed
  have "tick_ok k'"
    using v(3) tq st unfolding tick_ok_def timed by (auto simp: tk woken_def pended_def sleeping_def)
  moreover have "susp_ok k'"
    using v(4) wst(1) unfolding susp_ok_def fields by (auto simp: tk woken_def suspended_def pended_def)
  moreover have "g_fault k' = g_fault k" "g_err_log k' = g_err_log k" "g_active_task k' = g_active_task k"
    using l(5,6) mn wn nn by (simp_all add: k'_def fr) (simp_all add: k0_def)
  ultimately show "winv k'" using core eff v by (simp add: winv_def pi_ok_def live)
  have "waits_same k k'" using st by (auto simp: waits_same_def tk woken_def pended_def)
  moreover have "ticks_left k' t = ticks_left k t" for t
    by (simp add: ticks_left_def fields) (simp add: k'_def fr k0_def)
  ultimately show "quiet k (k'\<lparr>mutexes := mutexes k\<rparr>)"
    using live rdy timed bo unfolding quiet_def
    by (auto simp: live_def rdy_def timed_def ticks_left_def waits_same_def) (simp_all add: k'_def fr k0_def)
qed

text \<open>Giving up a mutex nobody waits for.\<close>

lemma mutex_drop_winv:
  assumes inv: "winv k" and m: "obj_type (blk_objs k m) = RHINO_MUTEX_OBJ_TYPE" "mutex_task (mutexes k m) = a"
    and a: "a \<in> rdy k" and ws: "blk_list (blk_objs k m) = []"
  defines "k2 \<equiv> mutex_release a m (upd_mutex m (\<lambda>x. x\<lparr>owner_nested := owner_nested x - 1\<rparr>) k)"
  defines "k' \<equiv> upd_mutex m (\<lambda>x. x\<lparr>mutex_task := NULL\<rparr>) k2"
  shows "winv k'" and "k2 = upd_task a (\<lambda>x. x\<lparr>mutex_list := filter (\<lambda>y. y \<noteq> m) (mutex_list x)\<rparr>)
      (upd_mutex m (\<lambda>x. x\<lparr>owner_nested := owner_nested x - 1\<rparr>) k)"
    and "rdy k' = rdy k" and "live k' = live k" and "pend_on k' = pend_on k" and "timed k' = timed k"
    and "\<And>t. ticks_left k' t = ticks_left k t"
proof -
  note v = winvD [OF inv] and c = core_okD [OF winvD(1) [OF inv]]
  have al: "a \<in> live k" by (rule rdy_live [OF a])
  have nn: "a \<noteq> NULL" by (rule c(11) [OF al])
  note o = own_okD(5) [OF c(3) m(1), unfolded m(2), OF nn]
  have mn: "m \<noteq> NULL" using own_okD(3) [OF c(3) m(1)] by auto
  have empty: "pend_on k m = {}" using ws bl_okD(2) [OF c(2), of m] by simp
  let ?ms = "filter (\<lambda>y. y \<noteq> m) (mutex_list (tasks k a))"
  have "heads_min k (b_prio (tasks k a)) ?ms = eff_pri k a"
  proof -
    have "(\<Union>x \<in> set ?ms. (\<lambda>u. prio (tasks k u)) ` set (blk_list (blk_objs k x))) =
        (\<Union>x \<in> set (mutex_list (tasks k a)). (\<lambda>u. prio (tasks k u)) ` set (blk_list (blk_objs k x)))"
      using ws by auto
    then show ?thesis by (simp add: eff_pri_def heads_min_def)
  qed
  then have p: "heads_min k (b_prio (tasks k a)) ?ms = prio (tasks k a)" using v(2) al by (simp add: pi_ok_def)
  have srt: "\<forall>x \<in> set ?ms. sorted (map (\<lambda>u. prio (tasks k u)) (blk_list (blk_objs k x)))"
    using own_okD(2) [OF c(3) al] own_okD(3) [OF c(3)] bl_okD(3) [OF c(2)] by auto
  let ?k0 = "upd_mutex m (\<lambda>x. x\<lparr>owner_nested := owner_nested x - 1\<rparr>) k"
  have "mutex_pri_scan ?k0 q q ?ms = heads_min k q ?ms" for q
    using mutex_pri_scan_min [of ?ms ?k0 q q] srt by (simp add: heads_min_def)
  then have "mutex_pri_look a m ?k0 = (prio (tasks k a), upd_task a (\<lambda>x. x\<lparr>mutex_list := ?ms\<rparr>) ?k0)"
    using p by (simp add: mutex_pri_look_def Let_def)
  then show k2: "k2 = upd_task a (\<lambda>x. x\<lparr>mutex_list := filter (\<lambda>y. y \<noteq> m) (mutex_list x)\<rparr>) ?k0"
    by (simp add: k2_def mutex_release_def upd_task_def)
  have tk: "task_state (tasks k' u) = task_state (tasks k u)" "blk_obj (tasks k' u) = blk_obj (tasks k u)"
    "prio (tasks k' u) = prio (tasks k u)" "b_prio (tasks k' u) = b_prio (tasks k u)"
    "tick_head (tasks k' u) = tick_head (tasks k u)" "tick_match (tasks k' u) = tick_match (tasks k u)"
    "suspend_count (tasks k' u) = suspend_count (tasks k u)"
    "mutex_list (tasks k' u) = (if u = a then filter (\<lambda>y. y \<noteq> m) (mutex_list (tasks k u)) else mutex_list (tasks k u))" for u
    by (simp_all add: k'_def k2)
  have fr: "blk_objs k' = blk_objs k" "g_tick_count k' = g_tick_count k" "g_tick_head k' = g_tick_head k"
    "cur_list_item k' = cur_list_item k" "task_bit_map k' = task_bit_map k" "highest_pri k' = highest_pri k"
    "g_fault k' = g_fault k" "g_err_log k' = g_err_log k" "g_active_task k' = g_active_task k"
    using nn mn by (simp_all add: k'_def k2)
  show sets: "rdy k' = rdy k" "live k' = live k" "pend_on k' = pend_on k" "timed k' = timed k"
    "\<And>t. ticks_left k' t = ticks_left k t"
    by (simp_all add: rdy_def live_def pend_on_def timed_def ticks_left_def fun_eq_iff tk fr)
  have "own_ok k'"
    by (rule own_ok_drop [OF c(3) m empty fr(1) sets(2,3) tk(8)]) (simp_all add: k'_def k2)
  moreover have "rq_ok (rdy k) k'" using c(1) by (subst rq_ok_cong [where k = k]) (simp_all add: tk fr)
  moreover have bl: "bl_ok (pend_on k) k'" using c(2) by (subst bl_ok_cong [where k = k]) (simp_all add: tk fr)
  moreover have "tq_ok (timed k) k'" using v(3) by (subst tq_ok_cong [where k = k]) (simp_all add: tick_ok_def tk fr)
  moreover have "eff_pri k' u = eff_pri k u" for u
    by (rule eff_pri_cong [OF c(2) bl]) (use empty in \<open>auto simp: tk\<close>)
  ultimately show "winv k'"
    using v c by (simp add: winv_def core_ok_def pi_ok_def tick_ok_def susp_ok_def sets tk fr)
qed

lemma mutex_unlock_kinv:
  assumes inv: "kinv k"
  shows "kinv (snd (krhino_mutex_unlock mutex k))"
proof (cases "mutex \<noteq> NULL \<and> g_sys_stat k \<noteq> RHINO_STOPPED \<and> g_intrpt_nested_level k = 0 \<and>
    obj_type (blk_objs k mutex) = RHINO_MUTEX_OBJ_TYPE \<and> g_active_task k = mutex_task (mutexes k mutex)")
  case False
  then show ?thesis using inv by (auto simp: krhino_mutex_unlock_def word_greater_zero_iff)
next
  case ok: True
  let ?a = "g_active_task k"
  have m: "obj_type (blk_objs k mutex) = RHINO_MUTEX_OBJ_TYPE" "mutex_task (mutexes k mutex) = ?a" using ok by simp_all
  have a: "?a \<in> rdy k" using kinv_active_rdy [OF inv] ok by simp
  let ?k0 = "upd_mutex mutex (\<lambda>x. x\<lparr>owner_nested := owner_nested x - 1\<rparr>) k"
  have st: "task_state (tasks k ?a) = K_RDY" using a by (simp add: rdy_def)
  show ?thesis
  proof (cases "owner_nested (mutexes k mutex) = 1")
    case False
    then have nz: "owner_nested (mutexes k mutex) - 1 \<noteq> 0" by simp
    then have "winv ?k0" using ok by (intro winv_upd_nested [OF kinvD(1) [OF inv]]) simp_all
    then have "kinv ?k0"
      by (rule kinv_sets [OF inv]) (simp_all add: rdy_def live_def pend_on_def timed_def ticks_left_def fun_eq_iff waits_same_tasks top_task_def)
    then show ?thesis using ok nz by (simp add: krhino_mutex_unlock_def Let_def word_greater_zero_iff)
  next
    case one: True
    show ?thesis
    proof (cases "blk_list (blk_objs k mutex)")
      case Nil
      note d = mutex_drop_winv [OF kinvD(1) [OF inv] m a Nil]
      let ?k2 = "mutex_release ?a mutex ?k0"
      have "kinv (upd_mutex mutex (\<lambda>x. x\<lparr>mutex_task := NULL\<rparr>) ?k2)"
        by (rule kinv_sets [OF inv d(1)]) (simp_all add: d(3-7), simp_all add: d(2) waits_same_def top_task_def)
      moreover have "blk_list (blk_objs ?k2 mutex) = []" using Nil by (simp add: d(2))
      ultimately show ?thesis using ok one by (simp add: krhino_mutex_unlock_def Let_def)
    next
      case (Cons w ws)
      note d = mutex_pass_winv [OF kinvD(1) [OF inv] m a Cons]
      let ?k2 = "mutex_release ?a mutex ?k0"
      let ?k' = "upd_mutex mutex (\<lambda>x. x\<lparr>owner_nested := 1\<rparr>) (upd_task w (\<lambda>x. x\<lparr>mutex_list := mutex # mutex_list x\<rparr>)
        (upd_mutex mutex (\<lambda>x. x\<lparr>mutex_task := w\<rparr>) (pend_task_wakeup w ?k2)))"
      let ?q = "?k'\<lparr>mutexes := mutexes k\<rparr>"
      note q = quietD [OF d(3)]
      have sets: "live ?q = live ?k'" "rdy ?q = rdy ?k'" "timed ?q = timed ?k'" "ticks_left ?q t = ticks_left ?k' t"
        "pend_on ?q = pend_on ?k'" "obj_inv ?q b = obj_inv ?k' b" "waits_same k ?q = waits_same k ?k'" for t b
        by (simp_all add: live_def rdy_def timed_def ticks_left_def pend_on_def fun_eq_iff obj_inv_def waits_same_def cong: kobj_type.case_cong)
      have "obj_inv ?q b" for b by (rule obj_inv_quiet [OF d(3) _ kinvD(3) [OF inv]]) (simp add: sets d(2))
      then have ob: "objs_inv ?k'" by (simp add: objs_inv_def sets)
      have "tick_pos ?q" by (rule tick_pos_quiet [OF d(3) kinvD(2) [OF inv]])
      then have tp: "tick_pos ?k'" by (simp add: tick_pos_def sets)
      have "kinv (core_sched ?k')"
        using kinvD(4) [OF inv] q(1,3,5,12,13) by (intro kinv_core_sched [OF d(1) tp ob]) (auto simp: sets sched_ok_def)
      moreover have "blk_list (blk_objs ?k2 mutex) = w # ws" by (simp add: d(4) Cons)
      ultimately show ?thesis using ok one by (simp add: krhino_mutex_unlock_def Let_def)
    qed
  qed
qed

end
