(* ===== verification/Rhino_Tick.thy ===== *)
theory Rhino_Tick
  imports Rhino_Mutex
begin

text \<open>
  The clock tick (\<^verbatim>\<open>tick_list_update\<close> of \<^verbatim>\<open>k_tick.c\<close>), and the contract shared by the operations
  that take a task out of a wait without serving it: the timeout, \<^verbatim>\<open>krhino_task_wait_abort\<close> and
  \<^verbatim>\<open>krhino_task_del\<close>.
\<close>

section \<open>Operations\<close>

definition tick_expire :: "tid \<Rightarrow> kernel \<Rightarrow> kernel" where
  "tick_expire t k =
     (case task_state (tasks k t) of
        K_SLEEP \<Rightarrow>
          let k = upd_task t (\<lambda>x. x\<lparr>blk_state := BLK_FINISH, task_state := K_RDY\<rparr>) k;
              k = tick_list_rm t k
          in ready_list_add t k
      | K_PEND \<Rightarrow>
          let k = tick_list_rm t k;
              k = pend_list_rm t k;
              k = ready_list_add t k;
              k = upd_task t (\<lambda>x. x\<lparr>blk_state := BLK_TIMEOUT, task_state := K_RDY\<rparr>) k;
              k = mutex_task_pri_reset t k
          in upd_task t (\<lambda>x. x\<lparr>blk_obj := NULL\<rparr>) k
      | K_PEND_SUSPENDED \<Rightarrow>
          let k = tick_list_rm t k;
              k = pend_list_rm t k;
              k = upd_task t (\<lambda>x. x\<lparr>blk_state := BLK_TIMEOUT, task_state := K_SUSPENDED\<rparr>) k;
              k = mutex_task_pri_reset t k
          in upd_task t (\<lambda>x. x\<lparr>blk_obj := NULL\<rparr>) k
      | K_SLEEP_SUSPENDED \<Rightarrow>
          let k = upd_task t (\<lambda>x. x\<lparr>task_state := K_SUSPENDED, blk_state := BLK_FINISH\<rparr>) k
          in tick_list_rm t k
      | _ \<Rightarrow> k_err_proc RHINO_SYS_FATAL_ERR k)"

text \<open>The walk over the tick list: the successor is read before the task is taken off the list,
  so the walk follows the list as it was. \<^verbatim>\<open>delta\<close> is signed.\<close>

fun tick_scan :: "tid list \<Rightarrow> kernel \<Rightarrow> kernel" where
  "tick_scan [] k = k"
| "tick_scan (t # ts) k =
     (let delta = sint (tick_match (tasks k t) - g_tick_count k)
      in if delta \<le> 0 then tick_scan ts (tick_expire t k) else k)"

definition tick_list_update :: "kernel \<Rightarrow> kernel" where
  "tick_list_update k =
     (let k = k\<lparr>g_tick_count := g_tick_count k + 1, g_sys_time_tick := g_sys_time_tick k + 1\<rparr>
      in tick_scan (g_tick_head k) k)"

section \<open>Leaving a wait\<close>

text \<open>
  \<open>left_wait t b st k k'\<close>: from \<open>k\<close> to \<open>k'\<close> the task \<open>t\<close> has left the list of the object \<open>b\<close> and
  the tick list, and is in state \<open>st\<close>; it still remembers \<open>b\<close>. What a deleted task held is
  left open.
\<close>

definition left_wait :: "tid \<Rightarrow> oid \<Rightarrow> task_stat \<Rightarrow> kernel \<Rightarrow> kernel \<Rightarrow> bool" where
  "left_wait t b st k k' \<longleftrightarrow>
     rq_ok (if st = K_RDY then insert t (rdy k) else rdy k) k' \<and>
     bl_ok ((pend_on k)(b := pend_on k b - {t})) k' \<and> tq_ok (timed k - {t}) k' \<and>
     (\<forall>u. u \<noteq> t \<longrightarrow> tasks k' u = tasks k u) \<and>
     task_state (tasks k' t) = st \<and> blk_obj (tasks k' t) = b \<and> \<not> tick_head (tasks k' t) \<and>
     prio (tasks k' t) = prio (tasks k t) \<and>
     (st \<noteq> K_DELETED \<longrightarrow> mutex_list (tasks k' t) = mutex_list (tasks k t) \<and> b_prio (tasks k' t) = b_prio (tasks k t)) \<and>
     suspend_count (tasks k' t) = suspend_count (tasks k t) \<and> tick_match (tasks k' t) = tick_match (tasks k t) \<and>
     (\<forall>d. obj_type (blk_objs k' d) = obj_type (blk_objs k d) \<and> blk_policy (blk_objs k' d) = blk_policy (blk_objs k d)) \<and>
     mutexes k' = mutexes k \<and> sems k' = sems k \<and> queues k' = queues k \<and> buf_queues k' = buf_queues k \<and> events k' = events k \<and>
     g_fault k' = g_fault k \<and> g_err_log k' = g_err_log k \<and> g_active_task k' = g_active_task k \<and>
     g_sys_stat k' = g_sys_stat k \<and> g_sched_lock k' = g_sched_lock k \<and>
     g_intrpt_nested_level k' = g_intrpt_nested_level k \<and> g_tick_count k' = g_tick_count k"

lemma left_waitD:
  assumes "left_wait t b st k k'"
  shows "rq_ok (if st = K_RDY then insert t (rdy k) else rdy k) k'"
    and "bl_ok ((pend_on k)(b := pend_on k b - {t})) k'" and "tq_ok (timed k - {t}) k'"
    and "u \<noteq> t \<Longrightarrow> tasks k' u = tasks k u" and "task_state (tasks k' t) = st" and "blk_obj (tasks k' t) = b"
    and "\<not> tick_head (tasks k' t)" and "prio (tasks k' u) = prio (tasks k u)"
    and "u \<noteq> t \<or> st \<noteq> K_DELETED \<Longrightarrow> b_prio (tasks k' u) = b_prio (tasks k u)"
    and "u \<noteq> t \<or> st \<noteq> K_DELETED \<Longrightarrow> mutex_list (tasks k' u) = mutex_list (tasks k u)"
    and "suspend_count (tasks k' u) = suspend_count (tasks k u)" and "tick_match (tasks k' u) = tick_match (tasks k u)"
    and "obj_type (blk_objs k' d) = obj_type (blk_objs k d)" and "blk_policy (blk_objs k' d) = blk_policy (blk_objs k d)"
    and "mutexes k' = mutexes k" and "sems k' = sems k" and "queues k' = queues k" and "buf_queues k' = buf_queues k"
    and "g_fault k' = g_fault k" and "g_err_log k' = g_err_log k" and "g_active_task k' = g_active_task k"
    and "g_sys_stat k' = g_sys_stat k" and "g_sched_lock k' = g_sched_lock k"
    and "g_intrpt_nested_level k' = g_intrpt_nested_level k" and "g_tick_count k' = g_tick_count k"
    and "events k' = events k"
  using assms unfolding left_wait_def by (cases "u = t"; simp)+

lemma left_wait_lists:
  assumes rq: "rq_ok (rdy k) k" and bl: "bl_ok (pend_on k) k" and tq: "tq_ok (timed k) k"
    and t: "t \<in> pend_on k b" "t \<noteq> NULL" "b \<noteq> NULL" "prio (tasks k t) < RHINO_CONFIG_PRI_MAX"
    and a: "g_active_task k \<noteq> NULL"
    and f: "\<And>x. task_state (f x) = st \<and> blk_obj (f x) = blk_obj x \<and> tick_head (f x) = tick_head x \<and> prio (f x) = prio x \<and>
      b_prio (f x) = b_prio x \<and> mutex_list (f x) = mutex_list x \<and> suspend_count (f x) = suspend_count x \<and>
      tick_match (f x) = tick_match x"
  defines "k1 \<equiv> pend_list_rm t (tick_list_rm t k)"
  defines "k' \<equiv> upd_task t f (if st = K_RDY then ready_list_add t k1 else k1)"
  shows "left_wait t b st k k'"
proof -
  have bt: "blk_obj (tasks k t) = b" and pd: "pended (task_state (tasks k t))" using t(1) by (simp_all add: pend_on_def)
  define k0 where "k0 = tick_list_rm t k"
  have t0: "tasks k0 = (tasks k)(t := (tasks k t)\<lparr>tick_head := False\<rparr>)" unfolding k0_def by (rule tq_rm_tasks [OF tq])
  have b0: "blk_obj (tasks k0 t) = b" by (simp add: t0 bt)
  have bl0: "bl_ok (pend_on k) k0" using bl by (subst bl_ok_cong [where k = k]) (simp_all add: t0, simp_all add: k0_def)
  have tb: "t \<in> pend_on k (blk_obj (tasks k0 t))" using t(1) b0 by simp
  note r = bl_rm [OF bl0 tb, unfolded b0, folded k0_def]
  have k1: "k1 = pend_list_rm t k0" by (simp add: k1_def k0_def)
  have t1: "tasks k1 = tasks k0" by (simp add: k1)
  have tq1: "tq_ok (timed k - {t}) k1"
    using tq_rm [OF tq, of t] by (subst tq_ok_cong [where k = k0]) (simp_all add: k1, simp_all add: k0_def)
  have rq1: "rq_ok (rdy k) k1" using rq by (subst rq_ok_cong [where k = k]) (simp_all add: t1 t0, simp_all add: k1 k0_def)
  have nr: "t \<notin> rdy k" using pd by (auto simp: rdy_def pended_def)
  have "rq_ok (insert t (rdy k)) (ready_list_add t k1)"
    using rq1 nr t(4) a by (intro rq_add) (simp_all add: t1 t0, simp add: k1 k0_def)
  then have rq2: "rq_ok (if st = K_RDY then insert t (rdy k) else rdy k) (if st = K_RDY then ready_list_add t k1 else k1)"
    using rq1 by simp
  have fp: "prio (f x) = prio x" for x using f by simp
  have "rq_ok (if st = K_RDY then insert t (rdy k) else rdy k) k'"
    using rq2 unfolding k'_def by (subst rq_ok_cong [of "upd_task t f x" x for x]) (simp_all add: fp)
  moreover have "bl_ok ((pend_on k)(b := pend_on k b - {t})) k'"
    using r(1) by (subst bl_ok_cong [where k = k1]) (simp_all add: k'_def fp k1)
  moreover have "tq_ok (timed k - {t}) k'"
    using tq1 by (subst tq_ok_cong [where k = k1]) (use f in \<open>auto simp: k'_def\<close>)
  moreover have "g_fault k' = g_fault k"
    using r(2) t(2,3) a tq_rm_fault [OF tq t(2)] by (simp add: k'_def k1) (simp add: k0_def)
  moreover have "tasks k' = (tasks k)(t := f ((tasks k t)\<lparr>tick_head := False\<rparr>))" by (simp add: k'_def t1 t0)
  ultimately show ?thesis
    using f bt unfolding left_wait_def by (auto simp: k'_def k1 k0_def)
qed

lemma left_wait_core:
  assumes core: "core_ok k" and t: "t \<in> pend_on k b" and l: "left_wait t b st k k\<^sub>1"
    and st: "\<not> pended st" "\<not> sleeping st" "st \<noteq> K_SEED"
    and del: "st = K_DELETED \<Longrightarrow> mutex_list (tasks k t) = []"
  shows "core_ok k\<^sub>1" and "rdy k\<^sub>1 = (if st = K_RDY then insert t (rdy k) else rdy k)"
    and "live k\<^sub>1 = (if st = K_DELETED then live k - {t} else live k)"
    and "pend_on k\<^sub>1 = (pend_on k)(b := pend_on k b - {t})" and "timed k\<^sub>1 = timed k - {t}"
    and "\<And>u. ticks_left k\<^sub>1 u = ticks_left k u" and "waits_same k k\<^sub>1"
proof -
  note c = core_okD [OF core] and d = left_waitD [OF l]
  have tl: "t \<in> live k" by (rule pend_on_live [OF t])
  have bt: "blk_obj (tasks k t) = b" "pended (task_state (tasks k t))" using t by (simp_all add: pend_on_def)
  have tk: "tasks k\<^sub>1 u = tasks k u" if "u \<noteq> t" for u by (rule d(4) [OF that])
  have nr: "t \<notin> rdy k" using bt(2) by (auto simp: rdy_def pended_def)
  show rdy: "rdy k\<^sub>1 = (if st = K_RDY then insert t (rdy k) else rdy k)"
  proof -
    have "u \<in> rdy k\<^sub>1 \<longleftrightarrow> u \<in> (if st = K_RDY then insert t (rdy k) else rdy k)" for u
      using nr d(5) tk [of u] by (cases "u = t") (auto simp: rdy_def)
    then show ?thesis by blast
  qed
  show live: "live k\<^sub>1 = (if st = K_DELETED then live k - {t} else live k)"
  proof -
    have "u \<in> live k\<^sub>1 \<longleftrightarrow> u \<in> (if st = K_DELETED then live k - {t} else live k)" for u
      using tl d(5) tk [of u] st(3) by (cases "u = t") (auto simp: live_def)
    then show ?thesis by blast
  qed
  show pend: "pend_on k\<^sub>1 = (pend_on k)(b := pend_on k b - {t})"
  proof -
    have "u \<in> pend_on k\<^sub>1 x \<longleftrightarrow> u \<in> ((pend_on k)(b := pend_on k b - {t})) x" for u x
      using bt d(5) tk [of u] st(1) by (cases "u = t") (auto simp: pend_on_def)
    then show ?thesis by blast
  qed
  show "timed k\<^sub>1 = timed k - {t}"
  proof -
    have "u \<in> timed k\<^sub>1 \<longleftrightarrow> u \<in> timed k - {t}" for u using d(7) tk [of u] by (cases "u = t") (auto simp: timed_def)
    then show ?thesis by blast
  qed
  show "ticks_left k\<^sub>1 u = ticks_left k u" for u by (simp add: ticks_left_def d(12,25))
  show "waits_same k k\<^sub>1"
    unfolding waits_same_def
  proof (intro allI impI)
    fix u assume p: "pended (task_state (tasks k\<^sub>1 u))"
    then have "u \<noteq> t" using d(5) st(1) by auto
    with tk [OF this] p show "pended (task_state (tasks k u)) \<and> pend_info (tasks k\<^sub>1 u) = pend_info (tasks k u) \<and>
      task_msg (tasks k\<^sub>1 u) = task_msg (tasks k u) \<and> pend_option (tasks k\<^sub>1 u) = pend_option (tasks k u) \<and>
      pend_flags (tasks k\<^sub>1 u) = pend_flags (tasks k u)" by simp
  qed
  have held: "mutex_task (mutexes k m) \<noteq> t" if "obj_type (blk_objs k m) = RHINO_MUTEX_OBJ_TYPE" "st = K_DELETED" for m
    using own_okD(5) [OF c(3) that(1)] del [OF that(2)] c(11) [OF tl] by auto
  have own: "own_ok k\<^sub>1"
  proof (rule own_okI, unfold d(13,14,15))
    show "distinct (mutex_list (tasks k\<^sub>1 u))" if "u \<in> live k\<^sub>1" for u
      using own_okD(1) [OF c(3), of u] that d(10) [of u] by (auto simp: live split: if_splits)
    show "mutex_task (mutexes k m) = u \<and> obj_type (blk_objs k m) = RHINO_MUTEX_OBJ_TYPE"
      if "u \<in> live k\<^sub>1" "m \<in> set (mutex_list (tasks k\<^sub>1 u))" for u m
      using own_okD(2) [OF c(3), of u m] that d(10) [of u] by (auto simp: live split: if_splits)
    show "m \<noteq> NULL \<and> blk_policy (blk_objs k m) = BLK_POLICY_PRI" if "obj_type (blk_objs k m) = RHINO_MUTEX_OBJ_TYPE" for m
      by (rule own_okD(3) [OF c(3) that])
    show "mutex_task (mutexes k m) \<noteq> NULL"
      if "obj_type (blk_objs k m) = RHINO_MUTEX_OBJ_TYPE" "w \<in> pend_on k\<^sub>1 m" for m w
      using own_okD(4) [OF c(3) that(1), of w] that(2) by (auto simp: pend split: if_splits)
    show "mutex_task (mutexes k m) \<in> live k\<^sub>1 \<and> m \<in> set (mutex_list (tasks k\<^sub>1 (mutex_task (mutexes k m)))) \<and>
        mutex_task (mutexes k m) \<notin> pend_on k\<^sub>1 m \<and> owner_nested (mutexes k m) \<noteq> 0"
      if "obj_type (blk_objs k m) = RHINO_MUTEX_OBJ_TYPE" "mutex_task (mutexes k m) \<noteq> NULL" for m
      using own_okD(5) [OF c(3) that] held [OF that(1)] d(10) [of "mutex_task (mutexes k m)"]
      by (auto simp: live pend)
  qed
  have idle: "g_idle_task \<noteq> t" using nr c(6) by auto
  show "core_ok k\<^sub>1"
  proof (rule core_okI)
    show "u \<notin> pend_on k\<^sub>1 NULL" for u using c(10) [of u NULL] by (auto simp: pend split: if_splits)
    show "mutex_list (tasks k\<^sub>1 g_idle_task) = []" using c(7) d(10) [of g_idle_task] idle by simp
    show "g_idle_task \<in> rdy k\<^sub>1" using c(6) by (simp add: rdy)
    show "finite (live k\<^sub>1)" "NULL \<notin> live k\<^sub>1" using c(4,5) by (auto simp: live)
    show "prio (tasks k\<^sub>1 u) < RHINO_CONFIG_PRI_MAX" "b_prio (tasks k\<^sub>1 u) < RHINO_CONFIG_PRI_MAX" if "u \<in> live k\<^sub>1" for u
      using c(8,9) [of u] that d(9) [of u] by (auto simp: live d(8) split: if_splits)
    show "b_prio (tasks k\<^sub>1 g_idle_task) = RHINO_IDLE_PRI" using c(12) d(9) [of g_idle_task] idle by simp
  qed (use d(1,2) own in \<open>simp_all add: rdy pend\<close>)
qed

text \<open>The owner of the mutex may have a better priority than it needs now; nobody else has.\<close>

lemma left_wait_pi:
  assumes inv: "winv k" and t: "t \<in> pend_on k b" and l: "left_wait t b st k k\<^sub>1"
    and st: "\<not> pended st" "\<not> sleeping st" "st \<noteq> K_SEED"
    and del: "st = K_DELETED \<Longrightarrow> mutex_list (tasks k t) = []"
  shows "obj_type (blk_objs k\<^sub>1 b) \<noteq> RHINO_MUTEX_OBJ_TYPE \<Longrightarrow> pi_ok k\<^sub>1"
    and "obj_type (blk_objs k\<^sub>1 b) = RHINO_MUTEX_OBJ_TYPE \<Longrightarrow> mutex_task (mutexes k\<^sub>1 b) \<noteq> NULL \<and>
      pi_but (mutex_task (mutexes k\<^sub>1 b)) k\<^sub>1 \<and>
      (prio (tasks k\<^sub>1 (mutex_task (mutexes k\<^sub>1 b))) \<noteq> prio (tasks k\<^sub>1 t) \<longrightarrow> pi_ok k\<^sub>1)"
proof -
  note c = core_okD [OF winvD(1) [OF inv]] and d = left_waitD [OF l] and w = left_wait_core [OF winvD(1) [OF inv] t l st del]
  have bl1: "bl_ok (pend_on k\<^sub>1) k\<^sub>1" by (rule core_okD(2) [OF w(1)])
  have pi: "prio (tasks k u) = eff_pri k u" if "u \<in> live k" for u using winvD(2) [OF inv] that by (simp add: pi_ok_def)
  have lv: "u \<in> live k" "mutex_list (tasks k\<^sub>1 u) = mutex_list (tasks k u)" "b_prio (tasks k\<^sub>1 u) = b_prio (tasks k u)"
    if "u \<in> live k\<^sub>1" for u
    using that d(9,10) [of u] by (auto simp: w(3) split: if_splits)
  have free: "prio (tasks k\<^sub>1 u) = eff_pri k\<^sub>1 u" if u: "u \<in> live k\<^sub>1" and b: "b \<notin> set (mutex_list (tasks k u))" for u
  proof -
    have "(\<Union>m \<in> set (mutex_list (tasks k u)). (\<lambda>x. prio (tasks k x)) ` pend_on k\<^sub>1 m) =
        (\<Union>m \<in> set (mutex_list (tasks k u)). (\<lambda>x. prio (tasks k x)) ` pend_on k m)"
      by (rule SUP_cong) (use b in \<open>auto simp: w(4)\<close>)
    then have "eff_pri k\<^sub>1 u = eff_pri k u"
      by (intro eff_pri_cong [OF c(2) bl1]) (simp_all add: d(8) lv [OF u])
    then show ?thesis using pi [OF lv(1) [OF u]] by (simp add: d(8))
  qed
  show "pi_ok k\<^sub>1" if nm: "obj_type (blk_objs k\<^sub>1 b) \<noteq> RHINO_MUTEX_OBJ_TYPE"
    unfolding pi_ok_def
  proof
    fix u assume u: "u \<in> live k\<^sub>1"
    then have "b \<notin> set (mutex_list (tasks k u))" using own_okD(2) [OF c(3) lv(1) [OF u]] nm by (auto simp: d(13))
    then show "prio (tasks k\<^sub>1 u) = eff_pri k\<^sub>1 u" by (rule free [OF u])
  qed
  assume m: "obj_type (blk_objs k\<^sub>1 b) = RHINO_MUTEX_OBJ_TYPE"
  let ?o = "mutex_task (mutexes k b)"
  have mk: "obj_type (blk_objs k b) = RHINO_MUTEX_OBJ_TYPE" using m by (simp add: d(13))
  have o: "?o \<noteq> NULL" by (rule own_okD(4) [OF c(3) mk t])
  note ow = own_okD(5) [OF c(3) mk o]
  have ot: "?o \<noteq> t" using ow t by auto
  have but: "pi_but ?o k\<^sub>1"
    unfolding pi_but_def
  proof (intro ballI impI)
    fix u assume u: "u \<in> live k\<^sub>1" "u \<noteq> ?o"
    then have "b \<notin> set (mutex_list (tasks k u))" using own_okD(2) [OF c(3) lv(1) [OF u(1)]] by auto
    then show "prio (tasks k\<^sub>1 u) = eff_pri k\<^sub>1 u" by (rule free [OF u(1)])
  qed
  have "prio (tasks k\<^sub>1 ?o) = eff_pri k\<^sub>1 ?o" if ne: "prio (tasks k ?o) \<noteq> prio (tasks k t)"
  proof -
    have o1: "?o \<in> live k\<^sub>1" using ow ot by (simp add: w(3))
    have pk: "pend_on k = (pend_on k\<^sub>1)(b := insert t (pend_on k\<^sub>1 b))" using t by (auto simp: w(4) fun_eq_iff)
    have D: "demand (pend_on k) k ?o = insert (prio (tasks k t)) (demand (pend_on k\<^sub>1) k\<^sub>1 ?o)"
      unfolding demand_def d(8) lv(2,3) [OF o1]
      by (subst pk, subst UN_upd_insert) (use ow in auto)
    have "eff_pri k ?o = min (prio (tasks k t)) (eff_pri k\<^sub>1 ?o)"
      unfolding eff_pri_demand [OF c(2)] eff_pri_demand [OF bl1] D
      by (rule Min_insert) (auto simp: finite_demand [OF bl1], simp add: demand_def)
    then show ?thesis using pi [of ?o] ow ne by (auto simp: d(8) min_def split: if_splits)
  qed
  then show "mutex_task (mutexes k\<^sub>1 b) \<noteq> NULL \<and> pi_but (mutex_task (mutexes k\<^sub>1 b)) k\<^sub>1 \<and>
      (prio (tasks k\<^sub>1 (mutex_task (mutexes k\<^sub>1 b))) \<noteq> prio (tasks k\<^sub>1 t) \<longrightarrow> pi_ok k\<^sub>1)"
    using but o by (auto simp: d(8,15) pi_ok_def pi_but_def)
qed

section \<open>What a state loses\<close>

text \<open>
  \<open>eased k k'\<close>: the objects are as before and waits have only ended; nothing is said about the
  ready tasks and the mutexes.
\<close>

definition eased :: "kernel \<Rightarrow> kernel \<Rightarrow> bool" where
  "eased k k' \<longleftrightarrow>
     g_sys_stat k' = g_sys_stat k \<and> g_sched_lock k' = g_sched_lock k \<and>
     g_intrpt_nested_level k' = g_intrpt_nested_level k \<and> g_active_task k' = g_active_task k \<and>
     sems k' = sems k \<and> queues k' = queues k \<and> buf_queues k' = buf_queues k \<and>
     g_tick_count k' = g_tick_count k \<and> (\<forall>t. tick_match (tasks k' t) = tick_match (tasks k t)) \<and>
     (\<forall>b. obj_type (blk_objs k' b) = obj_type (blk_objs k b)) \<and>
     (\<forall>b. pend_on k' b \<subseteq> pend_on k b) \<and> timed k' \<subseteq> timed k \<and> waits_same k k' \<and>
     events k' = events k"

lemma easedD:
  assumes "eased k k'"
  shows "g_sys_stat k' = g_sys_stat k" and "g_sched_lock k' = g_sched_lock k"
    and "g_intrpt_nested_level k' = g_intrpt_nested_level k" and "g_active_task k' = g_active_task k"
    and "sems k' = sems k" and "queues k' = queues k" and "buf_queues k' = buf_queues k"
    and "g_tick_count k' = g_tick_count k" and "tick_match (tasks k' t) = tick_match (tasks k t)"
    and "obj_type (blk_objs k' b) = obj_type (blk_objs k b)" and "pend_on k' b \<subseteq> pend_on k b"
    and "timed k' \<subseteq> timed k" and "waits_same k k'" and "ticks_left k' t = ticks_left k t"
    and "events k' = events k"
  using assms by (simp_all add: eased_def ticks_left_def)

lemma eased_refl [simp]: "eased k k"
  by (simp add: eased_def waits_same_def)

lemma eased_trans: "eased k k' \<Longrightarrow> eased k' k'' \<Longrightarrow> eased k k''"
  unfolding eased_def by (intro conjI allI; (elim conjE)?; (rule waits_same_trans; assumption | blast | simp))

lemma eased_objs_inv:
  assumes "eased k k'" and "objs_inv k"
  shows "objs_inv k'"
  unfolding objs_inv_def
proof
  fix b
  show "obj_inv k' b"
    by (rule obj_inv_mono [of k]) (use assms(2) easedD [OF assms(1)] in \<open>simp_all add: objs_inv_def\<close>)
qed

lemma kpre_eased:
  assumes "kpre k" and "winv k'" and e: "eased k k'" and "g_active_task k' \<in> live k'"
    and "g_sched_lock k' \<noteq> 0 \<longrightarrow> g_active_task k' \<in> rdy k'"
  shows "kpre k'"
proof -
  have "tick_pos k'" using assms(1) easedD(12,14) [OF e] by (auto simp: kpre_def tick_pos_def)
  moreover have "objs_inv k'" by (rule eased_objs_inv [OF e]) (use assms(1) in \<open>simp add: kpre_def\<close>)
  ultimately show ?thesis using assms easedD(1) [OF e] by (simp add: kpre_def)
qed

lemma eased_pri_frame:
  assumes "pri_frame k k'"
  shows "eased k k'"
  using pri_frame_kernel [OF assms] pri_frame_task [OF assms] pri_frame_sets [OF assms] pri_frame_rest(1,5) [OF assms]
  by (simp add: eased_def)

lemma eased_state_same:
  assumes "state_same k k'" and "waits_same k k'" and "sems k' = sems k" and "queues k' = queues k"
    and "buf_queues k' = buf_queues k" and "g_sys_stat k' = g_sys_stat k"
    and "g_intrpt_nested_level k' = g_intrpt_nested_level k" and "g_sched_lock k' = g_sched_lock k"
    and "events k' = events k"
  shows "eased k k'"
  using assms state_sameD [OF assms(1)] state_same_sets [OF assms(1)] by (simp add: eased_def)

lemma eased_left_wait:
  assumes core: "core_ok k" and t: "t \<in> pend_on k b" and l: "left_wait t b st k k\<^sub>1"
    and st: "\<not> pended st" "\<not> sleeping st" "st \<noteq> K_SEED"
    and del: "st = K_DELETED \<Longrightarrow> mutex_list (tasks k t) = []"
  shows "eased k k\<^sub>1"
  using left_waitD [OF l] left_wait_core [OF core t l st del] by (auto simp: eased_def)

text \<open>The task has left; the owner of the mutex gives up what it had for its sake.\<close>

lemma left_wait_winv:
  assumes inv: "winv k" and t: "t \<in> pend_on k b" and l: "left_wait t b st k k\<^sub>1"
    and st: "\<not> pended st" "\<not> sleeping st" "st \<noteq> K_SEED"
    and del: "st = K_DELETED \<Longrightarrow> mutex_list (tasks k t) = []"
    and susp: "st = K_SUSPENDED \<Longrightarrow> suspend_count (tasks k t) \<noteq> 0"
  defines "k' \<equiv> mutex_task_pri_reset t k\<^sub>1"
  shows "winv k'" and "eased k k'" and "pri_frame k\<^sub>1 k'"
proof -
  note w = winvD [OF inv] and c = core_okD [OF winvD(1) [OF inv]] and d = left_waitD [OF l]
  note cr = left_wait_core [OF w(1) t l st del] and pi = left_wait_pi [OF inv t l st del]
  have "core_ok k' \<and> pri_frame k\<^sub>1 k' \<and> pi_ok k'"
    unfolding k'_def by (rule mutex_task_pri_reset_ok [OF cr(1) d(6) c(10) [OF t] pi(2,1)])
  then have r: "core_ok k'" "pri_frame k\<^sub>1 k'" "pi_ok k'" by simp_all
  have tk: "tick_ok k\<^sub>1"
    unfolding tick_ok_def
  proof (intro conjI allI)
    show "tq_ok (timed k\<^sub>1) k\<^sub>1" using d(3) by (simp add: cr(5))
    show "u \<in> timed k\<^sub>1 \<longrightarrow> pended (task_state (tasks k\<^sub>1 u)) \<or> sleeping (task_state (tasks k\<^sub>1 u))" for u
      using w(3) d(4) [of u] by (cases "u = t") (auto simp: tick_ok_def cr(5))
    show "sleeping (task_state (tasks k\<^sub>1 u)) \<longrightarrow> u \<in> timed k\<^sub>1" for u
      using w(3) d(4) [of u] d(5) st(2) by (cases "u = t") (auto simp: tick_ok_def cr(5))
  qed
  have su: "susp_ok k\<^sub>1"
    unfolding susp_ok_def
  proof (intro allI impI)
    fix u assume s: "suspended (task_state (tasks k\<^sub>1 u))"
    show "suspend_count (tasks k\<^sub>1 u) \<noteq> 0"
    proof (cases "u = t")
      case True
      then have "st = K_SUSPENDED" using s d(5) st(1,2) by (auto simp: suspended_def pended_def sleeping_def)
      with susp True show ?thesis by (simp add: d(11))
    next
      case False
      then show ?thesis using w(4) s d(4) [of u] by (auto simp: susp_ok_def)
    qed
  qed
  show "winv k'"
    by (rule pri_frame_winv [OF r(2,1,3) tk su]) (use w(5-7) in \<open>simp_all add: d(19-21)\<close>)
  show "pri_frame k\<^sub>1 k'" by (rule r(2))
  show "eased k k'" by (rule eased_trans [OF eased_left_wait [OF w(1) t l st del] eased_pri_frame [OF r(2)]])
qed

section \<open>A task that does not wait\<close>

text \<open>
  A change of state of one task that waits for nothing before and after: it becomes ready,
  suspended or asleep, it is created (\<open>t \<notin> live k\<close>) or deleted. The lists are up to date in \<open>k'\<close>.
\<close>

lemma winv_restate:
  assumes inv: "winv k" and t: "t \<noteq> NULL" "t \<noteq> g_idle_task" "\<not> pended (task_state (tasks k t))"
    and k': "tasks k' = (tasks k)(t := y)" "blk_objs k' = blk_objs k" "mutexes k' = mutexes k"
      "g_fault k' = g_fault k" "g_err_log k' = g_err_log k" "g_active_task k' = g_active_task k"
    and lists: "rq_ok (rdy k') k'" "tq_ok (timed k') k'"
    and y: "\<not> pended (task_state y)" "tick_head y \<longleftrightarrow> sleeping (task_state y)"
      "suspended (task_state y) \<Longrightarrow> suspend_count y \<noteq> 0"
    and stay: "t \<in> live k \<Longrightarrow> t \<in> live k' \<Longrightarrow>
      mutex_list y = mutex_list (tasks k t) \<and> prio y = prio (tasks k t) \<and> b_prio y = b_prio (tasks k t)"
    and new: "t \<notin> live k \<Longrightarrow> t \<in> live k' \<Longrightarrow> mutex_list y = [] \<and> prio y = b_prio y \<and> prio y < RHINO_CONFIG_PRI_MAX"
    and del: "t \<in> live k \<Longrightarrow> t \<notin> live k' \<Longrightarrow> mutex_list (tasks k t) = []"
  shows "winv k'" and "pend_on k' = pend_on k" and "waits_same k k'"
    and "\<And>u. u \<noteq> t \<Longrightarrow> u \<in> live k' \<longleftrightarrow> u \<in> live k" and "\<And>u. u \<noteq> t \<Longrightarrow> u \<in> rdy k' \<longleftrightarrow> u \<in> rdy k"
proof -
  note w = winvD [OF inv] and c = core_okD [OF winvD(1) [OF inv]]
  have oth: "tasks k' u = tasks k u" if "u \<noteq> t" for u using that by (simp add: k'(1))
  show lv: "\<And>u. u \<noteq> t \<Longrightarrow> u \<in> live k' \<longleftrightarrow> u \<in> live k" by (simp add: live_def oth)
  show rd: "\<And>u. u \<noteq> t \<Longrightarrow> u \<in> rdy k' \<longleftrightarrow> u \<in> rdy k" by (simp add: rdy_def oth)
  have pe: "u \<in> pend_on k' b \<longleftrightarrow> u \<in> pend_on k b" for u b
    using t(3) y(1) by (cases "u = t") (simp_all add: pend_on_def k'(1))
  then show pend: "pend_on k' = pend_on k" by (intro ext) blast
  show "waits_same k k'" using y(1) by (auto simp: waits_same_def k'(1))
  have np: "t \<notin> pend_on k b" for b using t(3) by (simp add: pend_on_def)
  have pr: "prio (tasks k' u) = prio (tasks k u)" if "u \<in> pend_on k b" for u b using that np oth by metis
  have bl: "bl_ok (pend_on k) k'" using c(2) by (subst bl_ok_cong [where k = k]) (simp_all add: k'(2) pr)
  have old: "u \<in> live k" "mutex_list (tasks k' u) = mutex_list (tasks k u)"
    if "u \<in> live k'" "mutex_list (tasks k' u) \<noteq> [] \<or> u \<noteq> t" for u
  proof -
    have "u \<in> live k \<and> mutex_list (tasks k' u) = mutex_list (tasks k u)"
    proof (cases "u = t")
      case True
      then show ?thesis using that stay new by (cases "t \<in> live k") (simp_all add: k'(1))
    qed (use that lv oth in auto)
    then show "u \<in> live k" "mutex_list (tasks k' u) = mutex_list (tasks k u)" by simp_all
  qed
  have own: "own_ok k'"
  proof (rule own_okI, unfold k'(2,3) pend)
    show "distinct (mutex_list (tasks k' u))" if u: "u \<in> live k'" for u
      using own_okD(1) [OF c(3), of u] old [OF u] by (cases "mutex_list (tasks k' u) = []") auto
    show "mutex_task (mutexes k m) = u \<and> obj_type (blk_objs k m) = RHINO_MUTEX_OBJ_TYPE"
      if u: "u \<in> live k'" and m: "m \<in> set (mutex_list (tasks k' u))" for u m
    proof -
      have "mutex_list (tasks k' u) \<noteq> []" using m by auto
      then have "u \<in> live k" "m \<in> set (mutex_list (tasks k u))" using old [OF u] m by auto
      then show ?thesis by (rule own_okD(2) [OF c(3)])
    qed
    show "mutex_task (mutexes k m) \<in> live k' \<and> m \<in> set (mutex_list (tasks k' (mutex_task (mutexes k m)))) \<and>
        mutex_task (mutexes k m) \<notin> pend_on k m \<and> owner_nested (mutexes k m) \<noteq> 0"
      if "obj_type (blk_objs k m) = RHINO_MUTEX_OBJ_TYPE" "mutex_task (mutexes k m) \<noteq> NULL" for m
    proof -
      note ow = own_okD(5) [OF c(3) that]
      have "mutex_task (mutexes k m) \<in> live k'" using ow del lv by (metis empty_iff list.set(1))
      moreover have "mutex_list (tasks k' (mutex_task (mutexes k m))) = mutex_list (tasks k (mutex_task (mutexes k m)))"
        using ow oth stay calculation by (cases "mutex_task (mutexes k m) = t") (simp_all add: k'(1))
      ultimately show ?thesis using ow by simp
    qed
  qed (use own_okD(3,4) [OF c(3)] in blast)+
  have core: "core_ok k'"
  proof (rule core_okI)
    show "bl_ok (pend_on k') k'" using bl by (simp add: pend)
    have "live k' \<subseteq> insert t (live k)" using lv by auto
    then show "finite (live k')" using c(4) by (meson finite_insert finite_subset)
    show "NULL \<notin> live k'" using c(5) t(1) lv [of NULL] by auto
    show "prio (tasks k' u) < RHINO_CONFIG_PRI_MAX" "b_prio (tasks k' u) < RHINO_CONFIG_PRI_MAX" if "u \<in> live k'" for u
      using c(8,9) [of u] that stay new lv by (cases "u = t"; cases "u \<in> live k"; simp add: k'(1))+
    show "u \<notin> pend_on k' NULL" for u using c(10) [of u NULL] by (auto simp: pend)
    show "g_idle_task \<in> rdy k'" using c(6) t(2) rd by metis
  qed (use lists(1) own c(7,12) t(2) in \<open>simp_all add: k'(1)\<close>)
  have "prio (tasks k' u) = eff_pri k' u" if u: "u \<in> live k'" for u
  proof (cases "u \<in> live k \<and> mutex_list (tasks k' u) = mutex_list (tasks k u) \<and> b_prio (tasks k' u) = b_prio (tasks k u) \<and>
      prio (tasks k' u) = prio (tasks k u)")
    case True
    have "eff_pri k' u = eff_pri k u"
      by (rule eff_pri_unchanged [OF c(2) bl]) (use True pr in simp_all)
    then show ?thesis using True w(2) by (simp add: pi_ok_def)
  next
    case False
    then have "u = t" "t \<notin> live k" using u stay lv oth by (auto simp: k'(1) split: if_splits)
    then show ?thesis using new u by (simp add: k'(1) eff_pri_def heads_min_def)
  qed
  then have pi: "pi_ok k'" by (simp add: pi_ok_def)
  have "tick_ok k'" using w(3) lists(2) y(1,2) by (auto simp: tick_ok_def timed_def k'(1))
  moreover have "susp_ok k'" using w(4) y(3) by (auto simp: susp_ok_def k'(1))
  ultimately show "winv k'" using core pi w(5-7) by (simp add: winv_def k'(4-6))
qed

text \<open>A sleeping task leaves the tick list, in state \<open>st\<close>.\<close>

lemma left_sleep:
  assumes inv: "winv k" and t: "sleeping (task_state (tasks k t))" and st: "st = K_RDY \<or> st = K_SUSPENDED"
    and susp: "st = K_SUSPENDED \<Longrightarrow> suspend_count (tasks k t) \<noteq> 0"
    and f: "\<And>x. task_state (f x) = st \<and> tick_head (f x) = tick_head x \<and> prio (f x) = prio x \<and>
      b_prio (f x) = b_prio x \<and> mutex_list (f x) = mutex_list x \<and> suspend_count (f x) = suspend_count x \<and>
      tick_match (f x) = tick_match x"
    and k': "tasks k' = (tasks k)(t := f ((tasks k t)\<lparr>tick_head := False\<rparr>))" "blk_objs k' = blk_objs k"
      "mutexes k' = mutexes k" "g_fault k' = g_fault k" "g_err_log k' = g_err_log k" "g_active_task k' = g_active_task k"
      "g_sys_stat k' = g_sys_stat k" "g_sched_lock k' = g_sched_lock k" "g_intrpt_nested_level k' = g_intrpt_nested_level k"
      "sems k' = sems k" "queues k' = queues k" "buf_queues k' = buf_queues k" "g_tick_count k' = g_tick_count k"
    and tq: "g_tick_head k' = remove1 t (g_tick_head k)"
    and rq: "rq_ok (rdy k) (k'\<lparr>cur_list_item := cur_list_item k, task_bit_map := task_bit_map k, highest_pri := highest_pri k\<rparr>) \<longrightarrow>
      rq_ok (if st = K_RDY then insert t (rdy k) else rdy k) k'"
    and ev: "events k' = events k"
  shows "winv k'" and "eased k k'" and "live k' = live k" and "rdy k' = (if st = K_RDY then insert t (rdy k) else rdy k)"
    and "timed k' = timed k - {t}"
proof -
  note w = winvD [OF inv] and c = core_okD [OF winvD(1) [OF inv]]
  have tl: "t \<in> live k" using t by (auto simp: sleeping_def live_def)
  have nr: "t \<notin> rdy k" using t by (auto simp: sleeping_def rdy_def)
  have idle: "t \<noteq> g_idle_task" using nr c(6) by auto
  have np: "\<not> pended (task_state (tasks k t))" using t by (auto simp: sleeping_def pended_def)
  show live: "live k' = live k" using st tl f by (auto simp: live_def k'(1))
  show rdy: "rdy k' = (if st = K_RDY then insert t (rdy k) else rdy k)"
    using st nr f by (auto simp: rdy_def k'(1) split: if_splits)
  show timed: "timed k' = timed k - {t}" using f by (auto simp: timed_def k'(1))
  have tq0: "tq_ok (timed k) k" using w(3) by (simp add: tick_ok_def)
  have tl1: "ticks_left k' u = ticks_left k u" for u using f by (auto simp: ticks_left_def k'(1,13))
  have "tq_ok (timed k') k'"
    using tq0 sorted_map_remove1 f unfolding tq_ok_def timed tq
    by (auto simp: tl1 [abs_def] set_remove1_eq k'(1))
  moreover have "rq_ok (rdy k') k'"
    unfolding rdy by (rule rq [THEN mp]) (subst rq_ok_cong [where k = k], use c(1) f in \<open>auto simp: k'(1)\<close>)
  ultimately have "winv k' \<and> pend_on k' = pend_on k \<and> waits_same k k'"
    using winv_restate(1-3) [OF inv c(11) [OF tl] idle np k'(1-6), simplified]
      st susp f tl live by (auto simp: pended_def sleeping_def suspended_def)
  then show "winv k'" and "eased k k'"
    using f by (auto simp: eased_def k'(1-13) ev timed)
qed

text \<open>Forgetting the object, once the task does not wait any more.\<close>

lemma forget_blk_obj:
  assumes "winv k" and "t \<noteq> NULL" and "\<not> pended (task_state (tasks k t))"
  shows "winv (upd_task t (\<lambda>x. x\<lparr>blk_obj := NULL\<rparr>) k)" and "eased k (upd_task t (\<lambda>x. x\<lparr>blk_obj := NULL\<rparr>) k)"
proof -
  have s: "state_same k (upd_task t (\<lambda>x. x\<lparr>blk_obj := NULL\<rparr>) k)"
    by (rule state_same_upd_task) (use assms in \<open>simp_all add: task_same_def\<close>)
  show "winv (upd_task t (\<lambda>x. x\<lparr>blk_obj := NULL\<rparr>) k)" using assms(1) by (simp add: state_same_winv(1) [OF s])
  show "eased k (upd_task t (\<lambda>x. x\<lparr>blk_obj := NULL\<rparr>) k)"
    by (rule eased_state_same [OF s]) (simp_all add: waits_same_def)
qed

text \<open>The end of a wait that was not served: the timeout and the abort.\<close>

lemma end_wait:
  assumes inv: "winv k" and t: "pended (task_state (tasks k t))" and st: "st = K_RDY \<or> st = K_SUSPENDED"
    and susp: "st = K_SUSPENDED \<Longrightarrow> suspend_count (tasks k t) \<noteq> 0"
    and f: "\<And>x. task_state (f x) = st \<and> blk_obj (f x) = blk_obj x \<and> tick_head (f x) = tick_head x \<and> prio (f x) = prio x \<and>
      b_prio (f x) = b_prio x \<and> mutex_list (f x) = mutex_list x \<and> suspend_count (f x) = suspend_count x \<and>
      tick_match (f x) = tick_match x"
  defines "k1 \<equiv> pend_list_rm t (tick_list_rm t k)"
  defines "k2 \<equiv> upd_task t f (if st = K_RDY then ready_list_add t k1 else k1)"
  defines "k' \<equiv> upd_task t (\<lambda>x. x\<lparr>blk_obj := NULL\<rparr>) (mutex_task_pri_reset t k2)"
  shows "winv k'" and "eased k k'" and "live k' = live k" and "rdy k' = (if st = K_RDY then insert t (rdy k) else rdy k)"
    and "timed k' = timed k - {t}" and "g_tick_head k' = remove1 t (g_tick_head k)"
    and "\<And>u. u \<noteq> t \<Longrightarrow> task_state (tasks k' u) = task_state (tasks k u) \<and> blk_state (tasks k' u) = blk_state (tasks k u)"
    and "task_state (tasks k' t) = st" and "blk_state (tasks k' t) = blk_state (f ((tasks k t)\<lparr>tick_head := False\<rparr>))"
proof -
  note w = winvD [OF inv] and c = core_okD [OF winvD(1) [OF inv]]
  let ?b = "blk_obj (tasks k t)"
  have tb: "t \<in> pend_on k ?b" using t by (simp add: pend_on_def)
  have tl: "t \<in> live k" by (rule pend_on_live [OF tb])
  have tq: "tq_ok (timed k) k" using w(3) by (simp add: tick_ok_def)
  have l: "left_wait t ?b st k k2"
    unfolding k2_def k1_def
    by (rule left_wait_lists [OF c(1,2) tq tb c(11) [OF tl] c(10) [OF tb] c(8) [OF tl] w(7) f])
  have st': "\<not> pended st" "\<not> sleeping st" "st \<noteq> K_SEED" "st \<noteq> K_DELETED"
    using st by (auto simp: pended_def sleeping_def)
  note r = left_wait_winv [OF inv tb l st'(1-3) _ susp] and cr = left_wait_core [OF w(1) tb l st'(1-3)]
  have np: "\<not> pended (task_state (tasks (mutex_task_pri_reset t k2) t))"
    using r(3) st'(4) left_waitD(5) [OF l] st'(1) by (simp add: pri_frame_task(1))
  note fg = forget_blk_obj [OF r(1) c(11) [OF tl] np, folded k'_def]
  show "winv k'" using fg st' by simp
  show "eased k k'" by (rule eased_trans [OF r(2) fg(2)]) (use st' in simp_all)
  have fr: "pri_frame k2 (mutex_task_pri_reset t k2)" using r(3) st'(4) by simp
  show "live k' = live k" "rdy k' = (if st = K_RDY then insert t (rdy k) else rdy k)"
    using pri_frame_sets(1,2) [OF fr] cr(2,3) st'(4) by (auto simp: k'_def live_def rdy_def)
  show "timed k' = timed k - {t}" using pri_frame_rest(1) [OF fr] cr(5) st'(4) by (auto simp: k'_def timed_def)
  show "g_tick_head k' = remove1 t (g_tick_head k)"
    using pri_frame_kernel(8) [OF fr] tq_rm_list [OF tq, of t] by (simp add: k'_def k2_def k1_def)
  have tk: "tasks k2 = (tasks k)(t := f ((tasks k t)\<lparr>tick_head := False\<rparr>))"
    by (simp add: k2_def k1_def tq_rm_tasks [OF tq])
  show "\<And>u. u \<noteq> t \<Longrightarrow> task_state (tasks k' u) = task_state (tasks k u) \<and> blk_state (tasks k' u) = blk_state (tasks k u)"
    and "task_state (tasks k' t) = st" and "blk_state (tasks k' t) = blk_state (f ((tasks k t)\<lparr>tick_head := False\<rparr>))"
    using pri_frame_task(1,8) [OF fr] f by (simp_all add: k'_def tk)
qed

lemma rq_add_any:
  assumes "rq_ok A (k\<lparr>cur_list_item := cur_list_item k0, task_bit_map := task_bit_map k0, highest_pri := highest_pri k0\<rparr>)"
    and "k = ready_list_add t k1" and "cur_list_item k0 = cur_list_item k1" "task_bit_map k0 = task_bit_map k1"
      "highest_pri k0 = highest_pri k1"
    and "t \<notin> A" "prio (tasks k1 t) < RHINO_CONFIG_PRI_MAX" "g_active_task k1 \<noteq> NULL"
  shows "rq_ok (insert t A) k"
proof -
  have "rq_ok A k1" using assms(1) by (subst (asm) rq_ok_cong [where k = k1]) (simp_all add: assms(2-5))
  then show ?thesis unfolding assms(2) by (rule rq_add) (use assms in simp_all)
qed

text \<open>What a task is after its time is up, and what its call will return.\<close>

definition expired_state :: "task_stat \<Rightarrow> task_stat" where
  "expired_state s = (if suspended s then K_SUSPENDED else K_RDY)"

definition expired_blk :: "task_stat \<Rightarrow> blk_state" where
  "expired_blk s = (if sleeping s then BLK_FINISH else BLK_TIMEOUT)"

lemma tick_expire_ok:
  assumes inv: "winv k" and t: "t \<in> timed k"
  defines "k' \<equiv> tick_expire t k"
  shows "winv k' \<and> eased k k' \<and> live k' = live k \<and> rdy k \<subseteq> rdy k' \<and> timed k' = timed k - {t} \<and>
    g_tick_head k' = remove1 t (g_tick_head k) \<and>
    (\<forall>u. u \<noteq> t \<longrightarrow> task_state (tasks k' u) = task_state (tasks k u) \<and> blk_state (tasks k' u) = blk_state (tasks k u)) \<and>
    task_state (tasks k' t) = expired_state (task_state (tasks k t)) \<and>
    blk_state (tasks k' t) = expired_blk (task_state (tasks k t))"
proof -
  note w = winvD [OF inv] and c = core_okD [OF winvD(1) [OF inv]]
  have tq: "tq_ok (timed k) k" using w(3) by (simp add: tick_ok_def)
  have "pended (task_state (tasks k t)) \<or> sleeping (task_state (tasks k t))" using w(3) t by (simp add: tick_ok_def)
  then consider "task_state (tasks k t) = K_SLEEP" | "task_state (tasks k t) = K_SLEEP_SUSPENDED"
    | "task_state (tasks k t) = K_PEND" | "task_state (tasks k t) = K_PEND_SUSPENDED"
    by (auto simp: pended_def sleeping_def)
  then show ?thesis
  proof cases
    case 1
    let ?f = "\<lambda>x. x\<lparr>blk_state := BLK_FINISH, task_state := K_RDY\<rparr>"
    have tl: "t \<in> live k" using 1 by (simp add: live_def)
    have tq1: "tq_ok (timed k) (upd_task t ?f k)" using tq by (subst tq_ok_cong [where k = k]) simp_all
    have k': "k' = ready_list_add t (tick_list_rm t (upd_task t ?f k))" by (simp add: k'_def tick_expire_def 1 Let_def)
    have tk: "tasks k' = (tasks k)(t := ?f ((tasks k t)\<lparr>tick_head := False\<rparr>))"
      by (cases "tasks k t") (simp add: k' tq_rm_tasks [OF tq1])
    have nr: "t \<notin> rdy k" using 1 by (simp add: rdy_def)
    have fa: "g_fault k' = g_fault k" using tq_rm_fault [OF tq1 c(11) [OF tl]] w(7) c(11) [OF tl] by (simp add: k')
    have rq: "rq_ok (rdy k) (k'\<lparr>cur_list_item := cur_list_item k, task_bit_map := task_bit_map k, highest_pri := highest_pri k\<rparr>)
        \<longrightarrow> rq_ok (if K_RDY = K_RDY then insert t (rdy k) else rdy k) k'"
      by simp (rule impI, erule rq_add_any [OF _ k'], use nr c(8) [OF tl] w(7) in \<open>simp_all add: tq_rm_tasks [OF tq1]\<close>)
    have "sleeping (task_state (tasks k t))" using 1 by (simp add: sleeping_def)
    from left_sleep [where f = ?f, OF inv this _ _ _ tk _ _ fa _ _ _ _ _ _ _ _ _ _ rq] show ?thesis
      using tq_rm_list [OF tq1, of t] tk 1
      by (simp add: k' subset_insertI) (simp add: k' expired_state_def expired_blk_def suspended_def sleeping_def)
  next
    case 2
    let ?f = "\<lambda>x. x\<lparr>task_state := K_SUSPENDED, blk_state := BLK_FINISH\<rparr>"
    have tl: "t \<in> live k" using 2 by (simp add: live_def)
    have tq1: "tq_ok (timed k) (upd_task t ?f k)" using tq by (subst tq_ok_cong [where k = k]) simp_all
    have k': "k' = tick_list_rm t (upd_task t ?f k)" by (simp add: k'_def tick_expire_def 2 Let_def)
    have tk: "tasks k' = (tasks k)(t := ?f ((tasks k t)\<lparr>tick_head := False\<rparr>))"
      by (cases "tasks k t") (simp add: k' tq_rm_tasks [OF tq1])
    have fa: "g_fault k' = g_fault k" using tq_rm_fault [OF tq1 c(11) [OF tl]] c(11) [OF tl] by (simp add: k')
    have sl: "sleeping (task_state (tasks k t))" and su: "suspend_count (tasks k t) \<noteq> 0"
      using 2 w(4) by (auto simp: sleeping_def susp_ok_def suspended_def)
    have rq: "rq_ok (rdy k) (k'\<lparr>cur_list_item := cur_list_item k, task_bit_map := task_bit_map k, highest_pri := highest_pri k\<rparr>)
        \<longrightarrow> rq_ok (if K_SUSPENDED = K_RDY then insert t (rdy k) else rdy k) k'"
      by simp (subst rq_ok_cong [where k = k'], simp_all add: k')
    from left_sleep [where f = ?f, OF inv sl _ su _ tk _ _ fa _ _ _ _ _ _ _ _ _ _ rq] show ?thesis
      using tq_rm_list [OF tq1, of t] tk 2
      by (simp add: k') (simp add: k' expired_state_def expired_blk_def suspended_def sleeping_def)
  next
    case 3
    then have p: "pended (task_state (tasks k t))" by (simp add: pended_def)
    from end_wait [OF inv p, of K_RDY "\<lambda>x. x\<lparr>blk_state := BLK_TIMEOUT, task_state := K_RDY\<rparr>"] show ?thesis
      by (simp add: k'_def tick_expire_def 3 Let_def subset_insertI expired_state_def expired_blk_def suspended_def sleeping_def)
  next
    case 4
    then have p: "pended (task_state (tasks k t))" and su: "suspend_count (tasks k t) \<noteq> 0"
      using w(4) by (auto simp: pended_def susp_ok_def suspended_def)
    from end_wait [OF inv p, of K_SUSPENDED "\<lambda>x. x\<lparr>blk_state := BLK_TIMEOUT, task_state := K_SUSPENDED\<rparr>"] su show ?thesis
      by (simp add: k'_def tick_expire_def 4 Let_def expired_state_def expired_blk_def suspended_def sleeping_def)
  qed
qed

section \<open>The tick\<close>

definition due :: "kernel \<Rightarrow> tid \<Rightarrow> bool" where
  "due k t \<longleftrightarrow> sint (ticks_left k t) \<le> 0"

lemma due_eased: "eased k k' \<Longrightarrow> due k' t = due k t"
  by (simp add: due_def easedD(14))

lemma tick_scan_ok:
  assumes "winv k" and "g_tick_head k = xs"
  shows "winv (tick_scan xs k) \<and> eased k (tick_scan xs k) \<and> live (tick_scan xs k) = live k \<and>
    rdy k \<subseteq> rdy (tick_scan xs k) \<and> g_tick_head (tick_scan xs k) = dropWhile (due k) xs \<and>
    (\<forall>t. task_state (tasks (tick_scan xs k) t) =
      (if t \<in> set (takeWhile (due k) xs) then expired_state (task_state (tasks k t)) else task_state (tasks k t)) \<and>
      blk_state (tasks (tick_scan xs k) t) =
      (if t \<in> set (takeWhile (due k) xs) then expired_blk (task_state (tasks k t)) else blk_state (tasks k t)))"
  using assms
proof (induction xs arbitrary: k)
  case (Cons t xs)
  note w = winvD [OF Cons.prems(1)]
  have tq: "distinct (t # xs)" "set (t # xs) = timed k" using w(3) Cons.prems(2) by (auto simp: tick_ok_def tq_ok_def)
  show ?case
  proof (cases "due k t")
    case True
    have "t \<in> timed k" using tq(2) by auto
    note e = tick_expire_ok [OF Cons.prems(1) this]
    let ?k = "tick_expire t k"
    have hd: "g_tick_head ?k = xs" using e Cons.prems(2) by simp
    have "winv ?k" using e by simp
    note ih = Cons.IH [OF this hd]
    have ea: "eased k ?k" using e by simp
    have du: "due ?k = due k" using due_eased [OF ea] by (simp add: fun_eq_iff)
    have t: "t \<notin> set (takeWhile (due k) xs)" using tq(1) set_takeWhileD by fastforce
    have sc: "tick_scan (t # xs) k = tick_scan xs ?k" using True by (simp add: due_def ticks_left_def)
    have st: "\<forall>u. u \<noteq> t \<longrightarrow> task_state (tasks ?k u) = task_state (tasks k u) \<and> blk_state (tasks ?k u) = blk_state (tasks k u)"
      "task_state (tasks ?k t) = expired_state (task_state (tasks k t))"
      "blk_state (tasks ?k t) = expired_blk (task_state (tasks k t))" using e by simp_all
    show ?thesis
      unfolding sc
    proof (intro conjI allI)
      show "winv (tick_scan xs ?k)" "live (tick_scan xs ?k) = live k" using ih e by simp_all
      show "eased k (tick_scan xs ?k)" using ih by (intro eased_trans [OF ea]) simp
      show "rdy k \<subseteq> rdy (tick_scan xs ?k)" using ih e by (metis subset_trans)
      show "g_tick_head (tick_scan xs ?k) = dropWhile (due k) (t # xs)" using ih True by (simp add: du)
      fix u
      show "task_state (tasks (tick_scan xs ?k) u) = (if u \<in> set (takeWhile (due k) (t # xs))
          then expired_state (task_state (tasks k u)) else task_state (tasks k u))"
        and "blk_state (tasks (tick_scan xs ?k) u) = (if u \<in> set (takeWhile (due k) (t # xs))
          then expired_blk (task_state (tasks k u)) else blk_state (tasks k u))"
        using ih t True st by (cases "u = t"; simp add: du)+
    qed
  next
    case False
    then show ?thesis using Cons.prems by (simp add: due_def ticks_left_def)
  qed
qed simp

text \<open>One tick nearer: a deadline in the future is not passed over.\<close>

lemma ticks_left_mono:
  fixes a b :: u64
  assumes "a \<le> b" and "a \<noteq> 0"
  shows "a - 1 \<le> b - 1"
proof -
  have "b \<noteq> 0" using assms by auto
  moreover have "1 \<le> unat a" using assms(2) by (simp add: Suc_le_eq unat_gt_0)
  ultimately show ?thesis using assms by (simp add: word_le_nat_alt unat_minus_one)
qed

definition tick_counted :: "kernel \<Rightarrow> kernel" where
  "tick_counted k = k\<lparr>g_tick_count := g_tick_count k + 1, g_sys_time_tick := g_sys_time_tick k + 1\<rparr>"

lemma tick_counted_sel [simp]:
  "tasks (tick_counted k) = tasks k" "g_tick_head (tick_counted k) = g_tick_head k"
  "ticks_left (tick_counted k) = (\<lambda>t. ticks_left k t - 1)"
  "rdy (tick_counted k) = rdy k" "live (tick_counted k) = live k" "pend_on (tick_counted k) = pend_on k"
  "blk_objs (tick_counted k) = blk_objs k" "mutexes (tick_counted k) = mutexes k"
  "g_fault (tick_counted k) = g_fault k" "g_err_log (tick_counted k) = g_err_log k"
  "g_active_task (tick_counted k) = g_active_task k" "timed (tick_counted k) = timed k"
  by (simp_all add: tick_counted_def ticks_left_def rdy_def live_def pend_on_def timed_def fun_eq_iff)

lemma tick_counted_winv:
  assumes inv: "winv k" and pos: "tick_pos k"
  shows "winv (tick_counted k)"
proof -
  let ?k = "tick_counted k"
  note w = winvD [OF inv]
  have "sorted (map (ticks_left k) (g_tick_head k))" "set (g_tick_head k) = timed k"
    using w(3) by (simp_all add: tick_ok_def tq_ok_def)
  then have "sorted (map (\<lambda>t. ticks_left k t - 1) (g_tick_head k))"
    using pos by (auto simp: sorted_map tick_pos_def intro: ticks_left_mono elim!: sorted_wrt_mono_rel [rotated])
  then have tq: "tq_ok (timed k) ?k" using w(3) by (simp add: tick_ok_def tq_ok_def)
  have rq: "rq_ok A ?k = rq_ok A k" for A by (rule rq_ok_cong) (simp_all add: tick_counted_def)
  have bl: "bl_ok W ?k = bl_ok W k" for W by (rule bl_ok_cong) (simp_all add: tick_counted_def)
  have "eff_pri ?k t = eff_pri k t" for t by (simp add: eff_pri_def heads_min_def)
  then have "pi_ok ?k" using w(2) by (simp add: pi_ok_def)
  moreover have "core_ok ?k" using w(1) unfolding core_ok_def own_ok_def by (simp add: rq bl)
  moreover have "tick_ok ?k" "susp_ok ?k" using w(3,4) tq by (simp_all add: tick_ok_def susp_ok_def)
  ultimately show "winv ?k" using w(5-7) by (simp add: winv_def)
qed

lemma tick_list_update_ok:
  assumes inv: "kpre k"
  defines "k' \<equiv> tick_list_update k"
  shows "kpre k'" and "g_intrpt_nested_level k' = g_intrpt_nested_level k" and "g_sched_lock k' = g_sched_lock k"
    and "g_active_task k' = g_active_task k" and "live k' = live k" and "rdy k \<subseteq> rdy k'"
    and "g_tick_head k' = dropWhile (due (tick_counted k)) (g_tick_head k)"
    and "\<And>t. ticks_left k' t = ticks_left k t - 1"
    and "\<And>t. task_state (tasks k' t) = (if t \<in> set (takeWhile (due (tick_counted k)) (g_tick_head k))
      then expired_state (task_state (tasks k t)) else task_state (tasks k t))"
    and "\<And>t. blk_state (tasks k' t) = (if t \<in> set (takeWhile (due (tick_counted k)) (g_tick_head k))
      then expired_blk (task_state (tasks k t)) else blk_state (tasks k t))"
    and "timed k' = set (g_tick_head k')"
proof -
  let ?k = "tick_counted k"
  have inv': "winv k" "tick_pos k" "objs_inv k" using inv by (simp_all add: kpre_def)
  note tc = tick_counted_winv [OF inv'(1,2)]
  have k': "k' = tick_scan (g_tick_head k) ?k" by (simp add: k'_def tick_list_update_def tick_counted_def Let_def)
  note s = tick_scan_ok [OF tc refl, simplified, folded k']
  have e: "eased ?k k'" using s by simp
  note ed = easedD [OF e]
  show hd: "g_tick_head k' = dropWhile (due ?k) (g_tick_head k)" using s by simp
  show tl: "\<And>t. ticks_left k' t = ticks_left k t - 1" by (simp add: ed(14))
  show lv: "live k' = live k" using s by simp
  show rd: "rdy k \<subseteq> rdy k'" using s by simp
  have wk: "winv k'" using s by simp
  have tq: "set (g_tick_head k') = timed k'" "sorted (map (ticks_left k') (g_tick_head k'))"
    using winvD(3) [OF wk] by (simp_all add: tick_ok_def tq_ok_def)
  then show "timed k' = set (g_tick_head k')" by simp
  have pos: "tick_pos k'"
  proof (cases "g_tick_head k'")
    case (Cons u us)
    then have "\<not> due ?k u" using hd by (metis dropWhile_eq_Cons_conv)
    then have "ticks_left k' u \<noteq> 0" by (auto simp: due_def tl)
    moreover have "\<forall>v \<in> set us. ticks_left k' u \<le> ticks_left k' v" using tq(2) Cons by simp
    ultimately show ?thesis unfolding tick_pos_def tq(1) [symmetric] Cons by auto
  qed (use tq in \<open>simp add: tick_pos_def\<close>)
  have "obj_inv ?k b" for b
    by (rule obj_inv_mono [of k]) (use inv'(3) in \<open>simp_all add: objs_inv_def waits_same_tasks\<close>, simp_all add: tick_counted_def)
  then have "objs_inv ?k" by (simp add: objs_inv_def)
  then have ob: "objs_inv k'" by (rule eased_objs_inv [OF e])
  show "kpre k'"
    using inv wk pos ob lv rd ed(1-4) by (auto simp: kpre_def tick_counted_def)
  show "g_intrpt_nested_level k' = g_intrpt_nested_level k" "g_sched_lock k' = g_sched_lock k"
    "g_active_task k' = g_active_task k" using ed(2-4) by (simp_all add: tick_counted_def)
  show "\<And>t. task_state (tasks k' t) = (if t \<in> set (takeWhile (due (tick_counted k)) (g_tick_head k))
      then expired_state (task_state (tasks k t)) else task_state (tasks k t))"
    and "\<And>t. blk_state (tasks k' t) = (if t \<in> set (takeWhile (due (tick_counted k)) (g_tick_head k))
      then expired_blk (task_state (tasks k t)) else blk_state (tasks k t))"
    using s by simp_all
qed

text \<open>In interrupt context the choice of the running task is left to the end of the interrupt.\<close>

lemma kpre_kinv: "kpre k \<Longrightarrow> g_intrpt_nested_level k \<noteq> 0 \<Longrightarrow> kinv k"
  by (simp add: kpre_def kinv_def sched_ok_def)

lemma tick_list_update_kinv: "kinv k \<Longrightarrow> g_intrpt_nested_level k \<noteq> 0 \<Longrightarrow> kinv (tick_list_update k)"
  using tick_list_update_ok(1,2) [OF kinv_kpre] by (auto intro: kpre_kinv)

end
