(* ===== verification/Rhino_Sem.thy ===== *)
theory Rhino_Sem
  imports Rhino_Inv
begin

text \<open>
  Counting semaphores (\<^verbatim>\<open>k_sem.c\<close>) and the semaphore of a task (\<^verbatim>\<open>k_task_sem.c\<close>). A call that
  blocks ends its first half in the scheduler with outcome \<open>Blocked\<close>; the second half, after
  the task runs again, is \<open>pend_state_end_proc\<close> of the running task. The address that
  \<^verbatim>\<open>krhino_mm_alloc\<close> returns is an argument of the functions that allocate.
\<close>

section \<open>Operations\<close>

definition sem_create :: "oid \<Rightarrow> addr \<Rightarrow> u32 \<Rightarrow> u8 \<Rightarrow> kernel \<Rightarrow> kstat \<times> kernel" where
  "sem_create sem name count mm_alloc_flag k =
     (if sem = NULL then (RHINO_NULL_PTR, k)
      else if name = NULL then (RHINO_NULL_PTR, k)
      else
        let k = upd_blk sem (\<lambda>x. x\<lparr>blk_list := []\<rparr>) k;
            k = upd_sem sem (\<lambda>x. x\<lparr>sem_count := count, sem_peak_count := count,
                  sem_mm_alloc_flag := mm_alloc_flag\<rparr>) k;
            k = upd_blk sem (\<lambda>x. x\<lparr>blk_policy := BLK_POLICY_PRI\<rparr>) k;
            k = upd_blk sem (\<lambda>x. x\<lparr>obj_type := RHINO_SEM_OBJ_TYPE\<rparr>) k
        in (RHINO_SUCCESS, k))"

definition krhino_sem_create :: "oid \<Rightarrow> addr \<Rightarrow> u32 \<Rightarrow> kernel \<Rightarrow> kstat \<times> kernel" where
  "krhino_sem_create sem name count k = sem_create sem name count K_OBJ_STATIC_ALLOC k"

definition krhino_sem_del :: "oid \<Rightarrow> kernel \<Rightarrow> kstat \<times> kernel" where
  "krhino_sem_del sem k =
     (if sem = NULL then (RHINO_NULL_PTR, k)
      else if g_intrpt_nested_level k > 0 then (RHINO_NOT_CALLED_BY_INTRPT, k)
      else if obj_type (blk_objs k sem) \<noteq> RHINO_SEM_OBJ_TYPE then (RHINO_KOBJ_TYPE_ERR, k)
      else if sem_mm_alloc_flag (sems k sem) \<noteq> K_OBJ_STATIC_ALLOC then (RHINO_KOBJ_DEL_ERR, k)
      else
        let k = upd_blk sem (\<lambda>x. x\<lparr>obj_type := RHINO_OBJ_TYPE_NONE\<rparr>) k;
            k = wake_all pend_task_rm sem k
        in (RHINO_SUCCESS, core_sched k))"

definition krhino_sem_dyn_create :: "oid \<Rightarrow> u32 \<Rightarrow> addr \<Rightarrow> u32 \<Rightarrow> kernel \<Rightarrow> kstat \<times> kernel" where
  "krhino_sem_dyn_create sem_obj sem name count k =
     (if sem = 0 then (RHINO_NULL_PTR, k)
      else if sem_obj = NULL then (RHINO_NO_MEM, k)
      else
        let (stat, k) = sem_create sem_obj name count K_OBJ_DYN_ALLOC k
        in if stat \<noteq> RHINO_SUCCESS then (stat, k)
           else (stat, store32 sem (word_of_nat sem_obj) k))"

definition krhino_sem_dyn_del :: "oid \<Rightarrow> kernel \<Rightarrow> kstat \<times> kernel" where
  "krhino_sem_dyn_del sem k =
     (if sem = NULL then (RHINO_NULL_PTR, k)
      else if g_intrpt_nested_level k > 0 then (RHINO_NOT_CALLED_BY_INTRPT, k)
      else if obj_type (blk_objs k sem) \<noteq> RHINO_SEM_OBJ_TYPE then (RHINO_KOBJ_TYPE_ERR, k)
      else if sem_mm_alloc_flag (sems k sem) \<noteq> K_OBJ_DYN_ALLOC then (RHINO_KOBJ_DEL_ERR, k)
      else
        let k = upd_blk sem (\<lambda>x. x\<lparr>obj_type := RHINO_OBJ_TYPE_NONE\<rparr>) k;
            k = wake_all pend_task_rm sem k
        in (RHINO_SUCCESS, core_sched k))"

definition sem_give :: "oid \<Rightarrow> bool \<Rightarrow> kernel \<Rightarrow> kstat \<times> kernel" where
  "sem_give sem opt_wake_all k =
     (if obj_type (blk_objs k sem) \<noteq> RHINO_SEM_OBJ_TYPE then (RHINO_KOBJ_TYPE_ERR, k)
      else
        case blk_list (blk_objs k sem) of
          [] \<Rightarrow>
            if sem_count (sems k sem) = - 1 then (RHINO_SEM_OVF, k)
            else
              let k = upd_sem sem (\<lambda>x. x\<lparr>sem_count := sem_count x + 1\<rparr>) k;
                  k = (if sem_count (sems k sem) > sem_peak_count (sems k sem)
                       then upd_sem sem (\<lambda>x. x\<lparr>sem_peak_count := sem_count x\<rparr>) k else k)
              in (RHINO_SUCCESS, k)
        | t # _ \<Rightarrow>
            (RHINO_SUCCESS, core_sched
              (if opt_wake_all then wake_all pend_task_wakeup sem k else pend_task_wakeup t k)))"

definition krhino_sem_give :: "oid \<Rightarrow> kernel \<Rightarrow> kstat \<times> kernel" where
  "krhino_sem_give sem k = (if sem = NULL then (RHINO_NULL_PTR, k) else sem_give sem False k)"

definition krhino_sem_give_all :: "oid \<Rightarrow> kernel \<Rightarrow> kstat \<times> kernel" where
  "krhino_sem_give_all sem k = (if sem = NULL then (RHINO_NULL_PTR, k) else sem_give sem True k)"

definition krhino_sem_take :: "oid \<Rightarrow> u64 \<Rightarrow> kernel \<Rightarrow> outcome \<times> kernel" where
  "krhino_sem_take sem ticks k =
     (if sem = NULL then (Ret RHINO_NULL_PTR, k)
      else if g_intrpt_nested_level k > 0 then (Ret RHINO_NOT_CALLED_BY_INTRPT, k)
      else if obj_type (blk_objs k sem) \<noteq> RHINO_SEM_OBJ_TYPE then (Ret RHINO_KOBJ_TYPE_ERR, k)
      else if sem_count (sems k sem) > 0 then
        (Ret RHINO_SUCCESS, upd_sem sem (\<lambda>x. x\<lparr>sem_count := sem_count x - 1\<rparr>) k)
      else if ticks = RHINO_NO_WAIT then (Ret RHINO_NO_PEND_WAIT, k)
      else if g_sched_lock k > 0 then (Ret RHINO_SCHED_DISABLE, k)
      else (Blocked, core_sched (pend_to_blk_obj sem (g_active_task k) ticks k)))"

definition krhino_sem_count_set :: "oid \<Rightarrow> u32 \<Rightarrow> kernel \<Rightarrow> kstat \<times> kernel" where
  "krhino_sem_count_set sem count k =
     (if sem = NULL then (RHINO_NULL_PTR, k)
      else if g_intrpt_nested_level k > 0 then (RHINO_NOT_CALLED_BY_INTRPT, k)
      else if obj_type (blk_objs k sem) \<noteq> RHINO_SEM_OBJ_TYPE then (RHINO_KOBJ_TYPE_ERR, k)
      else if sem_count (sems k sem) = 0 \<and> blk_list (blk_objs k sem) \<noteq> []
      then (RHINO_SEM_TASK_WAITING, k)
      else
        let k = upd_sem sem (\<lambda>x. x\<lparr>sem_count := count\<rparr>) k;
            k = (if sem_count (sems k sem) > sem_peak_count (sems k sem)
                 then upd_sem sem (\<lambda>x. x\<lparr>sem_peak_count := sem_count x\<rparr>) k else k)
        in (RHINO_SUCCESS, k))"

definition krhino_sem_count_get :: "oid \<Rightarrow> u32 \<Rightarrow> kernel \<Rightarrow> kstat \<times> kernel" where
  "krhino_sem_count_get sem count k =
     (if sem = NULL then (RHINO_NULL_PTR, k)
      else if count = 0 then (RHINO_NULL_PTR, k)
      else (RHINO_SUCCESS, store32 count (sem_count (sems k sem)) k))"

definition krhino_sem_is_valid :: "oid \<Rightarrow> kernel \<Rightarrow> kstat" where
  "krhino_sem_is_valid sem k =
     (if sem = NULL then RHINO_NULL_PTR
      else if obj_type (blk_objs k sem) \<noteq> RHINO_SEM_OBJ_TYPE then RHINO_KOBJ_TYPE_ERR
      else RHINO_SUCCESS)"

section \<open>The semaphore of a task\<close>

definition krhino_task_sem_create :: "tid \<Rightarrow> oid \<Rightarrow> addr \<Rightarrow> u32 \<Rightarrow> kernel \<Rightarrow> kstat \<times> kernel" where
  "krhino_task_sem_create task sem name count k =
     (if task = NULL then (RHINO_NULL_PTR, k)
      else
        let (ret, k) = krhino_sem_create sem name count k
        in if ret = RHINO_SUCCESS then (ret, upd_task task (\<lambda>x. x\<lparr>task_sem_obj := sem\<rparr>) k)
           else (ret, upd_task task (\<lambda>x. x\<lparr>task_sem_obj := NULL\<rparr>) k))"

definition krhino_task_sem_del :: "tid \<Rightarrow> kernel \<Rightarrow> kstat \<times> kernel" where
  "krhino_task_sem_del task k =
     (if task = NULL then (RHINO_NULL_PTR, k) else krhino_sem_del (task_sem_obj (tasks k task)) k)"

definition krhino_task_sem_give :: "tid \<Rightarrow> kernel \<Rightarrow> kstat \<times> kernel" where
  "krhino_task_sem_give task k =
     (if task = NULL then (RHINO_NULL_PTR, k) else krhino_sem_give (task_sem_obj (tasks k task)) k)"

definition krhino_task_sem_take :: "u64 \<Rightarrow> kernel \<Rightarrow> outcome \<times> kernel" where
  "krhino_task_sem_take ticks k = krhino_sem_take (task_sem_obj (tasks k (g_active_task k))) ticks k"

definition krhino_task_sem_count_set :: "tid \<Rightarrow> u32 \<Rightarrow> kernel \<Rightarrow> kstat \<times> kernel" where
  "krhino_task_sem_count_set task count k =
     (if task = NULL then (RHINO_NULL_PTR, k)
      else krhino_sem_count_set (task_sem_obj (tasks k task)) count k)"

definition krhino_task_sem_count_get :: "tid \<Rightarrow> u32 \<Rightarrow> kernel \<Rightarrow> kstat \<times> kernel" where
  "krhino_task_sem_count_get task count k =
     (if task = NULL then (RHINO_NULL_PTR, k)
      else krhino_sem_count_get (task_sem_obj (tasks k task)) count k)"

section \<open>The invariant\<close>

lemma sem_create_kinv:
  assumes inv: "kinv k" and fresh: "obj_type (blk_objs k sem) = RHINO_OBJ_TYPE_NONE"
  shows "kinv (snd (sem_create sem name count flag k))"
proof (cases "sem = NULL \<or> name = NULL")
  case True
  then show ?thesis using inv by (auto simp: sem_create_def)
next
  case False
  let ?k = "upd_sem sem (\<lambda>x. x\<lparr>sem_count := count, sem_peak_count := count, sem_mm_alloc_flag := flag\<rparr>) k"
  let ?f = "\<lambda>x. x\<lparr>blk_list := [], blk_policy := BLK_POLICY_PRI, obj_type := RHINO_SEM_OBJ_TYPE\<rparr> :: blk_obj"
  have "snd (sem_create sem name count flag k) = upd_blk sem ?f ?k"
    by (rule kernel.equality) (use False in \<open>auto simp: sem_create_def\<close>)
  moreover have "kinv (upd_blk sem ?f ?k)"
    by (rule kinv_new_header [OF inv _ fresh]) (use False in \<open>auto simp: obj_inv_def\<close>)
  ultimately show ?thesis by simp
qed

lemma sem_del_kinv:
  assumes "kinv k"
  shows "kinv (snd (krhino_sem_del sem k))" and "kinv (snd (krhino_sem_dyn_del sem k))"
proof -
  have "kinv (core_sched (del_waiters sem k))"
    if "sem \<noteq> NULL" "obj_type (blk_objs k sem) = RHINO_SEM_OBJ_TYPE"
    by (rule kinv_del_waiters [OF assms that(1)]) (simp_all add: that(2) state_same_def task_same_def)
  then show "kinv (snd (krhino_sem_del sem k))" and "kinv (snd (krhino_sem_dyn_del sem k))"
    using assms by (auto simp: krhino_sem_del_def krhino_sem_dyn_del_def del_waiters_def)
qed

lemma kinv_upd_sem: "kinv k \<Longrightarrow> s \<noteq> NULL \<Longrightarrow> obj_inv (upd_sem s f k) s \<Longrightarrow> kinv (upd_sem s f k)"
  by (rule kinv_upd_obj [where b = s]) (simp_all add: waits_same_tasks)

lemma sem_give_kinv:
  assumes inv: "kinv k" and s: "sem \<noteq> NULL"
  shows "kinv (snd (sem_give sem all k))"
proof (cases "obj_type (blk_objs k sem) = RHINO_SEM_OBJ_TYPE")
  case ty: True
  then have nm: "obj_type (blk_objs k sem) \<noteq> RHINO_MUTEX_OBJ_TYPE" by simp
  show ?thesis
  proof (cases "blk_list (blk_objs k sem)")
    case Nil
    then have "pend_on k sem = {}" using blk_list_empty_iff [OF inv] by simp
    then have up: "kinv (upd_sem sem f k)" "kinv (upd_sem sem g (upd_sem sem f k))" for f g
      using s ty by (auto intro!: kinv_upd_sem inv simp: obj_inv_def)
    show ?thesis using Nil inv up by (simp add: sem_give_def Let_def)
  next
    case (Cons t ts)
    with wk.kinv_wake_first [OF inv nm Cons] wk.kinv_wake_all [OF inv nm] ty show ?thesis
      by (simp add: sem_give_def)
  qed
qed (use inv in \<open>simp add: sem_give_def\<close>)

lemma sem_take_kinv:
  assumes inv: "kinv k" and a: "ticks \<noteq> RHINO_NO_WAIT \<Longrightarrow> g_intrpt_nested_level k = 0 \<Longrightarrow> g_sched_lock k = 0 \<Longrightarrow>
      g_active_task k \<noteq> g_idle_task"
  shows "kinv (snd (krhino_sem_take sem ticks k))"
proof -
  let ?ok = "sem \<noteq> NULL \<and> g_intrpt_nested_level k = 0 \<and> obj_type (blk_objs k sem) = RHINO_SEM_OBJ_TYPE"
  have "kinv (upd_sem sem (\<lambda>x. x\<lparr>sem_count := sem_count x - 1\<rparr>) k)"
    if "?ok" "sem_count (sems k sem) > 0"
    using that kinvD(3) [OF inv, of sem] by (intro kinv_upd_sem inv) (auto simp: obj_inv_def)
  moreover have "kinv (core_sched (pend_to_blk_obj sem (g_active_task k) ticks k))"
    if "?ok" "sem_count (sems k sem) = 0" "ticks \<noteq> 0" "g_sched_lock k = 0"
    by (rule kinv_block [OF inv]) (use that a in \<open>auto simp: obj_inv_def RHINO_NO_WAIT_def\<close>)
  ultimately show ?thesis
    using inv by (simp add: krhino_sem_take_def RHINO_NO_WAIT_def word_greater_zero_iff)
qed

lemma sem_count_set_kinv:
  assumes inv: "kinv k"
  shows "kinv (snd (krhino_sem_count_set sem count k))"
proof -
  have "pend_on k sem = {}"
    if "obj_type (blk_objs k sem) = RHINO_SEM_OBJ_TYPE"
      "\<not> (sem_count (sems k sem) = 0 \<and> blk_list (blk_objs k sem) \<noteq> [])"
    using that kinvD(3) [OF inv, of sem] blk_list_empty_iff [OF inv, of sem] by (auto simp: obj_inv_def)
  then have "kinv (upd_sem sem f k)" "kinv (upd_sem sem g (upd_sem sem f k))"
    if "sem \<noteq> NULL" "obj_type (blk_objs k sem) = RHINO_SEM_OBJ_TYPE"
      "\<not> (sem_count (sems k sem) = 0 \<and> blk_list (blk_objs k sem) \<noteq> [])" for f g
    using that by (auto intro!: kinv_upd_sem inv simp: obj_inv_def)
  then show ?thesis using inv by (simp add: krhino_sem_count_set_def Let_def)
qed

end
