(* ===== verification/Rhino_Task.thy ===== *)
theory Rhino_Task
  imports Rhino_Tick Rhino_Sem
begin

text \<open>
  Tasks (\<^verbatim>\<open>k_task.c\<close>): creation, sleeping, yielding, suspension, change of priority, abortion of a
  wait, deletion, and the small setters and getters. The stack memory of a task and the start
  context that the port writes there are not part of the state. Addresses that \<^verbatim>\<open>krhino_mm_alloc\<close>
  returns are arguments.
\<close>

section \<open>Creation\<close>

definition RHINO_CONFIG_TASK_INFO_NUM :: nat where
  "RHINO_CONFIG_TASK_INFO_NUM = 2"

text \<open>The semaphore the task that frees memory waits for; a global of \<^verbatim>\<open>k_obj.c\<close>.\<close>

definition g_res_sem :: oid where
  "g_res_sem = 1"

text \<open>A control block after \<^verbatim>\<open>memset(task, 0, sizeof(ktask_t))\<close>: all enumerations start with the value
  0.\<close>

definition zeroed_task :: ktask where
  "zeroed_task = \<lparr>suspend_count = 0, mutex_list = [], tick_match = 0, tick_remain = 0, tick_head = False,
     task_msg = 0, bq_msg_size = 0, task_state = K_SEED, blk_state = BLK_FINISH, blk_obj = NULL,
     task_sem_obj = NULL, task_time_slice = 0, time_total = 0, pend_flags = 0, pend_info = 0, pend_option = 0,
     sched_policy = 0, prio = 0, b_prio = 0, task_mm_alloc_flag = 0,
     user_info = replicate RHINO_CONFIG_TASK_INFO_NUM 0\<rparr>"

definition task_create ::
  "tid \<Rightarrow> addr \<Rightarrow> nat \<Rightarrow> u64 \<Rightarrow> addr \<Rightarrow> nat \<Rightarrow> addr \<Rightarrow> u8 \<Rightarrow> u8 \<Rightarrow> kernel \<Rightarrow> kstat \<times> kernel" where
  "task_create task name pri ticks stack_buf stack_size entry autorun mm_alloc_flag k =
     (if task = NULL then (RHINO_NULL_PTR, k)
      else if name = NULL then (RHINO_NULL_PTR, k)
      else if entry = NULL then (RHINO_NULL_PTR, k)
      else if stack_buf = NULL then (RHINO_NULL_PTR, k)
      else if stack_size = 0 then (RHINO_TASK_INV_STACK_SIZE, k)
      else if pri \<ge> RHINO_CONFIG_PRI_MAX then (RHINO_BEYOND_MAX_PRI, k)
      else if g_intrpt_nested_level k > 0 then (RHINO_NOT_CALLED_BY_INTRPT, k)
      else if pri = RHINO_IDLE_PRI \<and> g_idle_task_spawned k > 0 then (RHINO_IDLE_TASK_EXIST, k)
      else
        let k = (if pri = RHINO_IDLE_PRI then k\<lparr>g_idle_task_spawned := 1\<rparr> else k);
            k = upd_task task (\<lambda>_. zeroed_task) k;
            k = upd_task task (\<lambda>x. x\<lparr>time_total :=
                  if ticks > 0 then ucast ticks else RHINO_CONFIG_TIME_SLICE_DEFAULT\<rparr>) k;
            k = upd_task task (\<lambda>x. x\<lparr>task_time_slice := time_total x, sched_policy := KSCHED_RR\<rparr>) k;
            k = (if autorun > 0 then upd_task task (\<lambda>x. x\<lparr>task_state := K_RDY\<rparr>) k
                 else upd_task task (\<lambda>x. x\<lparr>task_state := K_SUSPENDED, suspend_count := 1\<rparr>) k);
            k = upd_task task (\<lambda>x. x\<lparr>prio := pri, b_prio := pri, task_mm_alloc_flag := mm_alloc_flag\<rparr>) k
        in if autorun > 0 then
             let k = ready_list_add_tail task k
             in if g_sys_stat k = RHINO_RUNNING then (RHINO_SUCCESS, core_sched k)
                else (RHINO_SUCCESS, k)
           else (RHINO_SUCCESS, k))"

definition krhino_task_create ::
  "tid \<Rightarrow> addr \<Rightarrow> nat \<Rightarrow> u64 \<Rightarrow> addr \<Rightarrow> nat \<Rightarrow> addr \<Rightarrow> u8 \<Rightarrow> kernel \<Rightarrow> kstat \<times> kernel" where
  "krhino_task_create task name pri ticks stack_buf stack_size entry autorun k =
     task_create task name pri ticks stack_buf stack_size entry autorun K_OBJ_STATIC_ALLOC k"

definition task_dyn_create ::
  "addr \<Rightarrow> tid \<Rightarrow> u32 \<Rightarrow> addr \<Rightarrow> nat \<Rightarrow> u64 \<Rightarrow> nat \<Rightarrow> addr \<Rightarrow> u8 \<Rightarrow> kernel \<Rightarrow> kstat \<times> kernel" where
  "task_dyn_create task_stack task_obj task name pri ticks stack entry autorun k =
     (if task = 0 then (RHINO_NULL_PTR, k)
      else if stack = 0 then (RHINO_INV_PARAM, k)
      else if task_stack = NULL then (RHINO_NO_MEM, k)
      else if task_obj = NULL then (RHINO_NO_MEM, k)
      else
        let k = store32 task (word_of_nat task_obj) k;
            (ret, k) = task_create task_obj name pri ticks task_stack stack entry autorun K_OBJ_DYN_ALLOC k
        in if ret \<noteq> RHINO_SUCCESS \<and> ret \<noteq> RHINO_STOPPED then (ret, store32 task 0 k)
           else (ret, k))"

definition krhino_task_dyn_create ::
  "addr \<Rightarrow> tid \<Rightarrow> u32 \<Rightarrow> addr \<Rightarrow> nat \<Rightarrow> u64 \<Rightarrow> nat \<Rightarrow> addr \<Rightarrow> u8 \<Rightarrow> kernel \<Rightarrow> kstat \<times> kernel" where
  "krhino_task_dyn_create task_stack task_obj task name pri ticks stack entry autorun k =
     task_dyn_create task_stack task_obj task name pri ticks stack entry autorun k"

section \<open>Sleeping, yielding, suspending\<close>

text \<open>The first half of the call, up to the scheduler; the second half is \<open>pend_state_end_proc\<close>.\<close>

definition krhino_task_sleep :: "u64 \<Rightarrow> kernel \<Rightarrow> outcome \<times> kernel" where
  "krhino_task_sleep ticks k =
     (if ticks = 0 then (Ret RHINO_INV_PARAM, k)
      else if g_intrpt_nested_level k > 0 then (Ret RHINO_NOT_CALLED_BY_INTRPT, k)
      else if g_sched_lock k > 0 then (Ret RHINO_SCHED_DISABLE, k)
      else
        let k = upd_task (g_active_task k) (\<lambda>x. x\<lparr>task_state := K_SLEEP\<rparr>) k;
            k = tick_list_insert (g_active_task k) ticks k;
            k = ready_list_rm (g_active_task k) k
        in (Blocked, core_sched k))"

definition krhino_task_yield :: "kernel \<Rightarrow> kstat \<times> kernel" where
  "krhino_task_yield k = (RHINO_SUCCESS, core_sched (ready_list_head_to_tail (g_active_task k) k))"

definition krhino_cur_task_get :: "kernel \<Rightarrow> tid" where
  "krhino_cur_task_get k = g_active_task k"

definition task_suspend :: "tid \<Rightarrow> kernel \<Rightarrow> kstat \<times> kernel" where
  "task_suspend task k =
     (if task = g_active_task k \<and> g_sched_lock k > 0 then (RHINO_SCHED_DISABLE, k)
      else
        case task_state (tasks k task) of
          K_RDY \<Rightarrow>
            let k = upd_task task (\<lambda>x. x\<lparr>suspend_count := 1, task_state := K_SUSPENDED\<rparr>) k
            in (RHINO_SUCCESS, core_sched (ready_list_rm task k))
        | K_SLEEP \<Rightarrow>
            (RHINO_SUCCESS, core_sched
              (upd_task task (\<lambda>x. x\<lparr>suspend_count := 1, task_state := K_SLEEP_SUSPENDED\<rparr>) k))
        | K_PEND \<Rightarrow>
            (RHINO_SUCCESS, core_sched
              (upd_task task (\<lambda>x. x\<lparr>suspend_count := 1, task_state := K_PEND_SUSPENDED\<rparr>) k))
        | K_SEED \<Rightarrow> (RHINO_INV_TASK_STATE, k)
        | K_DELETED \<Rightarrow> (RHINO_INV_TASK_STATE, k)
        | _ \<Rightarrow>
            if suspend_count (tasks k task) = - 1 then (RHINO_SUSPENDED_COUNT_OVF, k)
            else (RHINO_SUCCESS, core_sched
              (upd_task task (\<lambda>x. x\<lparr>suspend_count := suspend_count x + 1\<rparr>) k)))"

definition krhino_task_suspend :: "tid \<Rightarrow> kernel \<Rightarrow> kstat \<times> kernel" where
  "krhino_task_suspend task k =
     (if task = NULL then (RHINO_NULL_PTR, k)
      else if prio (tasks k task) = RHINO_IDLE_PRI then (RHINO_TASK_SUSPEND_NOT_ALLOWED, k)
      else task_suspend task k)"

definition task_resume :: "tid \<Rightarrow> kernel \<Rightarrow> kstat \<times> kernel" where
  "task_resume task k =
     (case task_state (tasks k task) of
        K_SUSPENDED \<Rightarrow>
          let k = upd_task task (\<lambda>x. x\<lparr>suspend_count := suspend_count x - 1\<rparr>) k;
              k = (if suspend_count (tasks k task) = 0
                   then ready_list_add task (upd_task task (\<lambda>x. x\<lparr>task_state := K_RDY\<rparr>) k) else k)
          in (RHINO_SUCCESS, core_sched k)
      | K_SLEEP_SUSPENDED \<Rightarrow>
          let k = upd_task task (\<lambda>x. x\<lparr>suspend_count := suspend_count x - 1\<rparr>) k;
              k = (if suspend_count (tasks k task) = 0
                   then upd_task task (\<lambda>x. x\<lparr>task_state := K_SLEEP\<rparr>) k else k)
          in (RHINO_SUCCESS, core_sched k)
      | K_PEND_SUSPENDED \<Rightarrow>
          let k = upd_task task (\<lambda>x. x\<lparr>suspend_count := suspend_count x - 1\<rparr>) k;
              k = (if suspend_count (tasks k task) = 0
                   then upd_task task (\<lambda>x. x\<lparr>task_state := K_PEND\<rparr>) k else k)
          in (RHINO_SUCCESS, core_sched k)
      | K_SEED \<Rightarrow> (RHINO_INV_TASK_STATE, k)
      | K_DELETED \<Rightarrow> (RHINO_INV_TASK_STATE, k)
      | _ \<Rightarrow> (RHINO_TASK_NOT_SUSPENDED, k))"

definition krhino_task_resume :: "tid \<Rightarrow> kernel \<Rightarrow> kstat \<times> kernel" where
  "krhino_task_resume task k = (if task = NULL then (RHINO_NULL_PTR, k) else task_resume task k)"

section \<open>Priority, abortion\<close>

text \<open>The last argument of the call is the address of a byte.\<close>

definition krhino_task_pri_change :: "tid \<Rightarrow> nat \<Rightarrow> u32 \<Rightarrow> kernel \<Rightarrow> kstat \<times> kernel" where
  "krhino_task_pri_change task pri old_pri k =
     (if task = NULL then (RHINO_NULL_PTR, k)
      else if old_pri = 0 then (RHINO_NULL_PTR, k)
      else if prio (tasks k task) \<ge> RHINO_IDLE_PRI then (RHINO_PRI_CHG_NOT_ALLOWED, k)
      else if pri \<ge> RHINO_IDLE_PRI then (RHINO_PRI_CHG_NOT_ALLOWED, k)
      else if task_state (tasks k task) = K_DELETED then (RHINO_INV_TASK_STATE, k)
      else if g_intrpt_nested_level k > 0 then (RHINO_NOT_CALLED_BY_INTRPT, k)
      else
        let pri_limit = mutex_pri_limit task pri k;
            k = upd_task task (\<lambda>x. x\<lparr>b_prio := pri\<rparr>) k;
            k = store_bytes old_pri [word_of_nat (prio (tasks k task))] k;
            (error, k) = task_pri_change task pri_limit k
        in if error \<noteq> RHINO_SUCCESS then (error, k)
           else (RHINO_SUCCESS, core_sched k))"

definition krhino_task_wait_abort :: "tid \<Rightarrow> kernel \<Rightarrow> kstat \<times> kernel" where
  "krhino_task_wait_abort task k =
     (if task = NULL then (RHINO_NULL_PTR, k)
      else if g_intrpt_nested_level k > 0 then (RHINO_NOT_CALLED_BY_INTRPT, k)
      else
        let abort_sleep =
              (let k = tick_list_rm task k;
                   k = ready_list_add task k
               in upd_task task (\<lambda>x. x\<lparr>task_state := K_RDY, blk_state := BLK_ABORT\<rparr>) k);
            abort_pend =
              (let k = tick_list_rm task k;
                   k = pend_list_rm task k;
                   k = ready_list_add task k;
                   k = upd_task task (\<lambda>x. x\<lparr>task_state := K_RDY, blk_state := BLK_ABORT\<rparr>) k;
                   k = mutex_task_pri_reset task k
               in upd_task task (\<lambda>x. x\<lparr>blk_obj := NULL\<rparr>) k)
        in case task_state (tasks k task) of
             K_RDY \<Rightarrow> (RHINO_SUCCESS, core_sched k)
           | K_SUSPENDED \<Rightarrow>
               (RHINO_SUCCESS, core_sched
                 (ready_list_add task (upd_task task (\<lambda>x. x\<lparr>task_state := K_RDY\<rparr>) k)))
           | K_SLEEP \<Rightarrow> (RHINO_SUCCESS, core_sched abort_sleep)
           | K_SLEEP_SUSPENDED \<Rightarrow> (RHINO_SUCCESS, core_sched abort_sleep)
           | K_PEND_SUSPENDED \<Rightarrow> (RHINO_SUCCESS, core_sched abort_pend)
           | K_PEND \<Rightarrow> (RHINO_SUCCESS, core_sched abort_pend)
           | _ \<Rightarrow> (RHINO_INV_TASK_STATE, k))"

section \<open>Deletion\<close>

text \<open>
  The loop over the mutexes a task holds: each goes to its first waiting task, or is free. The
  link to the next mutex is read before the mutex is passed on. The control block of the task
  is not written: its list is what it was. The code finds the next mutex through
  \<^verbatim>\<open>mutex->mutex_list\<close>; for a task that lives these links are its list. For a task that has been
  deleted before, later owners have rewritten the links, and the loop runs through mutexes of other
  tasks: the model does not follow it there and records a fault.
\<close>

fun task_mutex_free_loop :: "oid list \<Rightarrow> kernel \<Rightarrow> kernel" where
  "task_mutex_free_loop [] k = k"
| "task_mutex_free_loop (mutex # ms) k =
     (case blk_list (blk_objs k mutex) of
        next_task # _ \<Rightarrow>
          let k = pend_task_wakeup next_task k;
              k = upd_mutex mutex (\<lambda>x. x\<lparr>mutex_task := next_task\<rparr>) k;
              k = upd_task next_task (\<lambda>x. x\<lparr>mutex_list := mutex # mutex_list x\<rparr>) k
          in task_mutex_free_loop ms k
      | [] \<Rightarrow> task_mutex_free_loop ms (upd_mutex mutex (\<lambda>x. x\<lparr>mutex_task := NULL\<rparr>) k))"

definition task_mutex_free :: "tid \<Rightarrow> kernel \<Rightarrow> kernel" where
  "task_mutex_free task k =
     (if task_state (tasks k task) = K_DELETED \<and> mutex_list (tasks k task) \<noteq> [] then fault k
      else task_mutex_free_loop (mutex_list (tasks k task)) k)"

text \<open>The switch over the state of the deleted task, the same in both deletion calls; \<open>None\<close> for the
  states it has no case for.\<close>

definition task_del_switch :: "tid \<Rightarrow> kernel \<Rightarrow> kernel option" where
  "task_del_switch task k =
     (let del_pend =
            (let k = tick_list_rm task k;
                 k = pend_list_rm task k;
                 k = upd_task task (\<lambda>x. x\<lparr>task_state := K_DELETED\<rparr>) k
             in mutex_task_pri_reset task k);
          del_sleep = upd_task task (\<lambda>x. x\<lparr>task_state := K_DELETED\<rparr>) (tick_list_rm task k)
      in case task_state (tasks k task) of
           K_RDY \<Rightarrow> Some (upd_task task (\<lambda>x. x\<lparr>task_state := K_DELETED\<rparr>) (ready_list_rm task k))
         | K_SUSPENDED \<Rightarrow> Some (upd_task task (\<lambda>x. x\<lparr>task_state := K_DELETED\<rparr>) k)
         | K_SLEEP \<Rightarrow> Some del_sleep
         | K_SLEEP_SUSPENDED \<Rightarrow> Some del_sleep
         | K_PEND \<Rightarrow> Some del_pend
         | K_PEND_SUSPENDED \<Rightarrow> Some del_pend
         | _ \<Rightarrow> None)"

definition krhino_task_del :: "tid \<Rightarrow> kernel \<Rightarrow> kstat \<times> kernel" where
  "krhino_task_del task k =
     (if g_intrpt_nested_level k > 0 then (RHINO_NOT_CALLED_BY_INTRPT, k)
      else
        let task = (if task = NULL then g_active_task k else task)
        in if prio (tasks k task) = RHINO_IDLE_PRI then (RHINO_TASK_DEL_NOT_ALLOWED, k)
           else if task_mm_alloc_flag (tasks k task) \<noteq> K_OBJ_STATIC_ALLOC then (RHINO_KOBJ_DEL_ERR, k)
           else if task = g_active_task k \<and> g_sched_lock k > 0 then (RHINO_SCHED_DISABLE, k)
           else
             let k = task_mutex_free task k
             in case task_del_switch task k of
                  None \<Rightarrow> (RHINO_INV_TASK_STATE, k)
                | Some k \<Rightarrow> (RHINO_SUCCESS, core_sched k))"

text \<open>The record of the memory to free is kept in the stack of the deleted task; \<open>g_res_list\<close> names the
  task.\<close>

definition krhino_task_dyn_del :: "tid \<Rightarrow> kernel \<Rightarrow> kstat \<times> kernel" where
  "krhino_task_dyn_del task k =
     (if g_intrpt_nested_level k > 0 then (RHINO_NOT_CALLED_BY_INTRPT, k)
      else
        let task = (if task = NULL then g_active_task k else task)
        in if prio (tasks k task) = RHINO_IDLE_PRI then (RHINO_TASK_DEL_NOT_ALLOWED, k)
           else if task_mm_alloc_flag (tasks k task) \<noteq> K_OBJ_DYN_ALLOC then (RHINO_KOBJ_DEL_ERR, k)
           else if task = g_active_task k \<and> g_sched_lock k > 0 then (RHINO_SCHED_DISABLE, k)
           else if task_state (tasks k task) = K_DELETED then (RHINO_INV_TASK_STATE, k)
           else
             let k = k\<lparr>g_sched_lock := g_sched_lock k + 1\<rparr>;
                 k = k\<lparr>g_res_list := g_res_list k @ [task]\<rparr>;
                 (ret, k) = krhino_sem_give g_res_sem k;
                 k = k\<lparr>g_sched_lock := g_sched_lock k - 1\<rparr>
             in if ret \<noteq> RHINO_SUCCESS then (ret, k_err_proc RHINO_SYS_SP_ERR k)
                else
                  let k = task_mutex_free task k
                  in case task_del_switch task k of
                       None \<Rightarrow> (RHINO_SUCCESS, core_sched k)
                     | Some k \<Rightarrow> (RHINO_SUCCESS, core_sched k))"

definition krhino_task_deathbed :: "kernel \<Rightarrow> kernel" where
  "krhino_task_deathbed k =
     (let task = krhino_cur_task_get k
      in if task_mm_alloc_flag (tasks k task) = K_OBJ_DYN_ALLOC then snd (krhino_task_dyn_del NULL k)
         else snd (krhino_task_del NULL k))"

section \<open>Time slice, policy, user data\<close>

definition krhino_task_time_slice_set :: "tid \<Rightarrow> u32 \<Rightarrow> kernel \<Rightarrow> kstat \<times> kernel" where
  "krhino_task_time_slice_set task slice_len k =
     (if task = NULL then (RHINO_NULL_PTR, k)
      else if g_intrpt_nested_level k > 0 then (RHINO_NOT_CALLED_BY_INTRPT, k)
      else
        let k = upd_task task (\<lambda>x. x\<lparr>time_total :=
              if slice_len > 0 then slice_len else RHINO_CONFIG_TIME_SLICE_DEFAULT\<rparr>) k
        in (RHINO_SUCCESS, upd_task task (\<lambda>x. x\<lparr>task_time_slice := time_total x\<rparr>) k))"

definition krhino_sched_policy_set :: "tid \<Rightarrow> u8 \<Rightarrow> kernel \<Rightarrow> kstat \<times> kernel" where
  "krhino_sched_policy_set task policy k =
     (if task = NULL then (RHINO_NULL_PTR, k)
      else if policy \<noteq> KSCHED_FIFO \<and> policy \<noteq> KSCHED_RR then (RHINO_INV_SCHED_WAY, k)
      else if g_intrpt_nested_level k > 0 then (RHINO_NOT_CALLED_BY_INTRPT, k)
      else (RHINO_SUCCESS, upd_task task (\<lambda>x. x\<lparr>sched_policy := policy\<rparr>) k))"

definition krhino_sched_policy_get :: "tid \<Rightarrow> u32 \<Rightarrow> kernel \<Rightarrow> kstat \<times> kernel" where
  "krhino_sched_policy_get task policy k =
     (if task = NULL then (RHINO_NULL_PTR, k)
      else if policy = 0 then (RHINO_NULL_PTR, k)
      else if g_intrpt_nested_level k > 0 then (RHINO_NOT_CALLED_BY_INTRPT, k)
      else (RHINO_SUCCESS, store_bytes policy [sched_policy (tasks k task)] k))"

definition krhino_task_info_set :: "tid \<Rightarrow> nat \<Rightarrow> u32 \<Rightarrow> kernel \<Rightarrow> kstat \<times> kernel" where
  "krhino_task_info_set task idx info k =
     (if task = NULL then (RHINO_NULL_PTR, k)
      else if idx \<ge> RHINO_CONFIG_TASK_INFO_NUM then (RHINO_INV_PARAM, k)
      else (RHINO_SUCCESS, upd_task task (\<lambda>x. x\<lparr>user_info := (user_info x)[idx := info]\<rparr>) k))"

definition krhino_task_info_get :: "tid \<Rightarrow> nat \<Rightarrow> u32 \<Rightarrow> kernel \<Rightarrow> kstat \<times> kernel" where
  "krhino_task_info_get task idx info k =
     (if task = NULL then (RHINO_NULL_PTR, k)
      else if info = 0 then (RHINO_NULL_PTR, k)
      else if idx \<ge> RHINO_CONFIG_TASK_INFO_NUM then (RHINO_INV_PARAM, k)
      else (RHINO_SUCCESS, store32 info (user_info (tasks k task) ! idx) k))"

section \<open>The invariant: creation\<close>

lemma kinv_same_top:
  assumes "kinv k" and "kpre k'" and "g_intrpt_nested_level k' = g_intrpt_nested_level k"
    and "g_sched_lock k' = g_sched_lock k" and "g_active_task k' = g_active_task k" and "top_task k' = top_task k"
  shows "kinv k'"
  using assms by (simp add: kinv_def kpre_def sched_ok_def)

text \<open>\<open>new_task\<close> is the control block that the creation leaves.\<close>

definition new_task :: "nat \<Rightarrow> u64 \<Rightarrow> bool \<Rightarrow> u8 \<Rightarrow> ktask" where
  "new_task pri ticks run flag = zeroed_task
     \<lparr>time_total := if ticks > 0 then ucast ticks else RHINO_CONFIG_TIME_SLICE_DEFAULT,
      task_time_slice := if ticks > 0 then ucast ticks else RHINO_CONFIG_TIME_SLICE_DEFAULT,
      sched_policy := KSCHED_RR, task_state := if run then K_RDY else K_SUSPENDED,
      suspend_count := if run then 0 else 1, prio := pri, b_prio := pri, task_mm_alloc_flag := flag\<rparr>"

lemma new_task_sel [simp]:
  "task_state (new_task pri ticks run flag) = (if run then K_RDY else K_SUSPENDED)"
  "suspend_count (new_task pri ticks run flag) = (if run then 0 else 1)"
  "prio (new_task pri ticks run flag) = pri" "b_prio (new_task pri ticks run flag) = pri"
  "mutex_list (new_task pri ticks run flag) = []" "tick_head (new_task pri ticks run flag) = False"
  "task_mm_alloc_flag (new_task pri ticks run flag) = flag" "blk_obj (new_task pri ticks run flag) = NULL"
  by (simp_all add: new_task_def zeroed_task_def)

text \<open>A new task in a working state.\<close>

lemma task_new_winv:
  assumes inv: "kinv k" and t: "t \<noteq> NULL" "t \<notin> live k" and p: "pri < RHINO_CONFIG_PRI_MAX"
    and k1: "tasks k\<^sub>1 = (tasks k)(t := new_task pri ticks run flag)" "blk_objs k\<^sub>1 = blk_objs k" "mutexes k\<^sub>1 = mutexes k"
      "g_fault k\<^sub>1 = g_fault k" "g_err_log k\<^sub>1 = g_err_log k" "g_active_task k\<^sub>1 = g_active_task k"
      "g_tick_head k\<^sub>1 = g_tick_head k" "g_tick_count k\<^sub>1 = g_tick_count k" "sems k\<^sub>1 = sems k" "queues k\<^sub>1 = queues k"
      "buf_queues k\<^sub>1 = buf_queues k" "cur_list_item k\<^sub>1 = cur_list_item k" "task_bit_map k\<^sub>1 = task_bit_map k"
      "highest_pri k\<^sub>1 = highest_pri k" "g_sys_stat k\<^sub>1 = g_sys_stat k" "g_sched_lock k\<^sub>1 = g_sched_lock k"
      "g_intrpt_nested_level k\<^sub>1 = g_intrpt_nested_level k" "events k\<^sub>1 = events k"
  defines "k' \<equiv> if run then ready_list_add_tail t k\<^sub>1 else k\<^sub>1"
  shows "kpre k'"
proof -
  note w = winvD [OF kinvD(1) [OF inv]] and c = core_okD [OF kinvD(5) [OF inv]]
  have idle: "t \<noteq> g_idle_task" using t(2) rdy_live [OF c(6)] by auto
  have np: "\<not> pended (task_state (tasks k t))" and nr: "t \<notin> rdy k"
    using t(2) pendedD rdy_live by (auto simp: live_def)
  have nt: "t \<notin> timed k" using w(3) t(2) by (auto simp: tick_ok_def live_def pended_def sleeping_def)
  have tk: "tasks k' = (tasks k)(t := new_task pri ticks run flag)" by (simp add: k'_def k1)
  have rdy: "rdy k' = (if run then insert t (rdy k) else rdy k)" using nr by (auto simp: rdy_def tk)
  have timed: "timed k' = timed k" using nt by (auto simp: timed_def tk)
  have lv: "t \<in> live k'" by (simp add: live_def tk)
  have rq1: "rq_ok (rdy k) k\<^sub>1"
    using c(1) nr by (subst rq_ok_cong [where k = k]) (simp_all add: k1)
  have rq: "rq_ok (rdy k') k'"
    using rq_add_tail [OF rq1 nr] rq1 p unfolding rdy by (simp add: k'_def k1(1))
  have tq: "tq_ok (timed k') k'"
    using w(3) nt unfolding timed by (subst tq_ok_cong [where k = k]) (auto simp: k'_def k1 tick_ok_def timed_def)
  have oth: "blk_objs k' = blk_objs k" "mutexes k' = mutexes k" "g_fault k' = g_fault k" "g_err_log k' = g_err_log k"
    "g_active_task k' = g_active_task k" by (simp_all add: k'_def k1)
  have y: "\<not> pended (task_state (new_task pri ticks run flag))"
    "tick_head (new_task pri ticks run flag) = sleeping (task_state (new_task pri ticks run flag))"
    "suspended (task_state (new_task pri ticks run flag)) \<Longrightarrow> suspend_count (new_task pri ticks run flag) \<noteq> 0"
    by (simp_all add: pended_def sleeping_def suspended_def split: if_splits)
  note r = winv_restate [OF kinvD(1) [OF inv] t(1) idle np tk oth rq tq y, simplified]
  have winv: "winv k'" and pend: "pend_on k' = pend_on k" and same: "waits_same k k'"
    using r(1-3) t(2) p lv by simp_all
  have left: "ticks_left k' u = ticks_left k u" if "u \<in> timed k" for u
    using that nt by (auto simp: ticks_left_def tk k'_def k1)
  then have pos: "tick_pos k'" using kinvD(2) [OF inv] by (auto simp: tick_pos_def timed)
  have "obj_inv k' b" for b
    by (rule obj_inv_mono [OF kinvD(3) [OF inv]]) (simp_all add: pend same oth, simp_all add: k'_def k1)
  then have ob: "objs_inv k'" by (simp add: objs_inv_def)
  have "g_active_task k \<noteq> t" using kinvD(4) [OF inv] t(2) by (auto simp: sched_ok_def)
  then have "g_active_task k' \<in> live k'" "g_sched_lock k \<noteq> 0 \<longrightarrow> g_active_task k' \<in> rdy k'"
    using kinvD(4) [OF inv] r(4,5) [of "g_active_task k"] t(2) p lv oth(5) by (simp_all add: sched_ok_def)
  moreover have "g_sys_stat k' = g_sys_stat k" "g_sched_lock k' = g_sched_lock k" by (simp_all add: k'_def k1)
  ultimately show ?thesis using winv pos ob kinvD(4) [OF inv] by (simp add: kpre_def sched_ok_def)
qed

lemma upd_task_twice: "upd_task t f (upd_task t g k) = upd_task t (\<lambda>x. f (g x)) k"
  by (simp add: upd_task_def)

lemma new_task_eqs:
  fixes ticks :: u64
  defines "tt \<equiv> (if ticks > 0 then ucast ticks else RHINO_CONFIG_TIME_SLICE_DEFAULT)"
  shows "new_task pri ticks True flag = zeroed_task\<lparr>time_total := tt, task_time_slice := tt, sched_policy := KSCHED_RR,
      task_state := K_RDY, prio := pri, b_prio := pri, task_mm_alloc_flag := flag\<rparr>"
    and "new_task pri ticks False flag = zeroed_task\<lparr>time_total := tt, task_time_slice := tt, sched_policy := KSCHED_RR,
      task_state := K_SUSPENDED, suspend_count := 1, prio := pri, b_prio := pri, task_mm_alloc_flag := flag\<rparr>"
  by (simp_all add: new_task_def zeroed_task_def tt_def)

lemma task_create_new:
  fixes ticks :: u64 and autorun flag :: u8
  assumes "task \<noteq> NULL" "name \<noteq> NULL" "entry \<noteq> NULL" "stack_buf \<noteq> NULL" "stack_size \<noteq> 0" "pri < RHINO_CONFIG_PRI_MAX"
    "g_intrpt_nested_level k = 0" "pri = RHINO_IDLE_PRI \<longrightarrow> g_idle_task_spawned k = 0"
  defines "k1 \<equiv> upd_task task (\<lambda>_. new_task pri ticks (0 < autorun) flag)
    (if pri = RHINO_IDLE_PRI then k\<lparr>g_idle_task_spawned := 1\<rparr> else k)"
  shows "task_create task name pri ticks stack_buf stack_size entry autorun flag k =
    (RHINO_SUCCESS, if 0 < autorun then
       if g_sys_stat k = RHINO_RUNNING then core_sched (ready_list_add_tail task k1) else ready_list_add_tail task k1
     else k1)"
proof -
  have g: "\<not> RHINO_CONFIG_PRI_MAX \<le> pri" "\<not> 0 < g_intrpt_nested_level k"
    "\<not> (pri = RHINO_IDLE_PRI \<and> g_idle_task_spawned k > 0)" using assms(6-8) by simp_all
  show ?thesis
    unfolding task_create_def k1_def if_not_P [OF g(1)] if_not_P [OF g(2)] if_not_P [OF g(3)]
      if_not_P [OF assms(1)] if_not_P [OF assms(2)] if_not_P [OF assms(3)] if_not_P [OF assms(4)] if_not_P [OF assms(5)]
    by (cases "0 < autorun"; cases "pri = RHINO_IDLE_PRI"; cases "g_sys_stat k = RHINO_RUNNING")
      (simp_all only: if_True if_False new_task_eqs simp_thms Let_def upd_task_twice, simp_all split del: if_split)
qed

lemma task_create_kinv:
  assumes inv: "kinv k" and t: "task \<notin> live k"
  shows "kinv (snd (task_create task name pri ticks stack_buf stack_size entry autorun flag k))"
proof (cases "task = NULL \<or> name = NULL \<or> entry = NULL \<or> stack_buf = NULL \<or> stack_size = 0 \<or>
    RHINO_CONFIG_PRI_MAX \<le> pri \<or> 0 < g_intrpt_nested_level k \<or> pri = RHINO_IDLE_PRI \<and> 0 < g_idle_task_spawned k")
  case True
  then show ?thesis using inv by (auto simp: task_create_def)
next
  case False
  then have g: "task \<noteq> NULL" "name \<noteq> NULL" "entry \<noteq> NULL" "stack_buf \<noteq> NULL" "stack_size \<noteq> 0" "pri < RHINO_CONFIG_PRI_MAX"
    "g_intrpt_nested_level k = 0" "pri = RHINO_IDLE_PRI \<longrightarrow> g_idle_task_spawned k = 0"
    by (simp_all only: not_le word_greater_zero_iff de_Morgan_disj) simp_all
  define k0 where "k0 = (if pri = RHINO_IDLE_PRI then k\<lparr>g_idle_task_spawned := 1\<rparr> else k)"
  define k1 where "k1 = upd_task task (\<lambda>_. new_task pri ticks (0 < autorun) flag) k0"
  have run: "g_sys_stat k = RHINO_RUNNING" using kinvD(4) [OF inv] by (simp add: sched_ok_def)
  have pre: "kpre (if 0 < autorun then ready_list_add_tail task k1 else k1)"
    by (rule task_new_winv [OF inv g(1) t g(6), where ticks = ticks and flag = flag]) (use g(1) in \<open>simp_all add: k1_def k0_def\<close>)
  have eq: "task_create task name pri ticks stack_buf stack_size entry autorun flag k =
      (RHINO_SUCCESS, if 0 < autorun then core_sched (ready_list_add_tail task k1) else k1)"
    using task_create_new [OF g, of ticks autorun flag] run by (simp add: k1_def k0_def)
  have top: "top_task k1 = top_task k" by (rule top_task_cong) (simp_all add: k1_def k0_def)
  show ?thesis
  proof (cases "0 < autorun")
    case True
    then show ?thesis using pre kpre_core_sched by (simp add: eq)
  next
    case False
    then have "kinv k1" using pre by (intro kinv_same_top [OF inv _ _ _ _ top]) (simp_all add: k1_def k0_def)
    then show ?thesis using False by (simp add: eq)
  qed
qed

lemma task_dyn_create_kinv:
  assumes inv: "kinv k" and t: "task_obj \<notin> live k"
  shows "kinv (snd (krhino_task_dyn_create task_stack task_obj task name pri ticks stack entry autorun k))"
proof -
  let ?k = "store32 task (word_of_nat task_obj) k"
  have "kinv (snd (task_create task_obj name pri ticks task_stack stack entry autorun K_OBJ_DYN_ALLOC ?k))"
    if "task \<noteq> 0" by (rule task_create_kinv [OF kinv_store32 [OF inv that]]) (use t in \<open>simp add: live_def\<close>)
  then show ?thesis
    using inv by (auto simp: krhino_task_dyn_create_def task_dyn_create_def Let_def intro: kinv_store32 split: prod.split)
qed

section \<open>The invariant: sleeping, yielding, suspending\<close>

text \<open>A ready task that stops being ready.\<close>

lemma winv_unready:
  assumes inv: "winv k" and t: "t \<in> rdy k" "t \<noteq> g_idle_task"
    and k1: "tasks k\<^sub>1 = (tasks k)(t := y)" "blk_objs k\<^sub>1 = blk_objs k" "mutexes k\<^sub>1 = mutexes k" "g_fault k\<^sub>1 = g_fault k"
      "g_err_log k\<^sub>1 = g_err_log k" "g_active_task k\<^sub>1 = g_active_task k" "cur_list_item k\<^sub>1 = cur_list_item k"
      "task_bit_map k\<^sub>1 = task_bit_map k" "highest_pri k\<^sub>1 = highest_pri k"
    and tq: "tq_ok (timed k\<^sub>1) k\<^sub>1"
    and y: "\<not> pended (task_state y)" "task_state y \<noteq> K_RDY" "task_state y \<noteq> K_SEED" "tick_head y \<longleftrightarrow> sleeping (task_state y)"
      "suspended (task_state y) \<longrightarrow> suspend_count y \<noteq> 0" "prio y = prio (tasks k t)"
      "task_state y \<noteq> K_DELETED \<longrightarrow> b_prio y = b_prio (tasks k t) \<and> mutex_list y = mutex_list (tasks k t)"
      "task_state y = K_DELETED \<longrightarrow> mutex_list (tasks k t) = []"
  defines "k' \<equiv> ready_list_rm t k\<^sub>1"
  shows "winv k'" and "pend_on k' = pend_on k" and "waits_same k k'" and "rdy k' = rdy k - {t}"
    and "live k' = (if task_state y = K_DELETED then live k - {t} else live k)"
proof -
  note w = winvD [OF inv] and c = core_okD [OF winvD(1) [OF inv]]
  have tl: "t \<in> live k" by (rule rdy_live [OF t(1)])
  have rq1: "rq_ok (rdy k) k\<^sub>1" using c(1) y(6) by (subst rq_ok_cong [where k = k]) (simp_all add: k1)
  have ne: "rdy k - {t} \<noteq> {}" using c(6) t(2) by auto
  note rm = rq_rm [OF rq1 t(1) ne, folded k'_def]
  have tk: "tasks k' = (tasks k)(t := y)" by (simp add: k'_def k1)
  show rdy: "rdy k' = rdy k - {t}" using y(2) by (auto simp: rdy_def tk)
  show live: "live k' = (if task_state y = K_DELETED then live k - {t} else live k)"
    using tl y(3) by (auto simp: live_def tk)
  have timed: "timed k' = timed k\<^sub>1" by (simp add: timed_def k'_def)
  have tq': "tq_ok (timed k') k'" using tq unfolding timed by (subst tq_ok_cong [where k = k\<^sub>1]) (simp_all add: k'_def)
  have np: "\<not> pended (task_state (tasks k t))" using t(1) by (simp add: rdy_def pended_def)
  have oth: "blk_objs k' = blk_objs k" "mutexes k' = mutexes k" "g_fault k' = g_fault k" "g_err_log k' = g_err_log k"
    "g_active_task k' = g_active_task k" using rm(2) by (simp_all add: k'_def k1)
  have su: "suspended (task_state y) \<Longrightarrow> suspend_count y \<noteq> 0" using y(5) by simp
  have rq': "rq_ok (rdy k') k'" using rm(1) by (simp add: rdy)
  note r = winv_restate [OF inv c(11) [OF tl] t(2) np tk oth rq' tq' y(1,4) su]
  have "t \<in> live k' \<longleftrightarrow> task_state y \<noteq> K_DELETED" using tl by (simp add: live)
  then show "winv k'" "pend_on k' = pend_on k" "waits_same k k'" using r(1-3) tl y(6-8) by simp_all
qed

lemma objs_inv_waits:
  assumes "objs_inv k" and "pend_on k' = pend_on k" and "waits_same k k'" and "sems k' = sems k" and "queues k' = queues k"
    and "buf_queues k' = buf_queues k" and "\<And>b. obj_type (blk_objs k' b) = obj_type (blk_objs k b)"
    and "events k' = events k"
  shows "objs_inv k'"
  unfolding objs_inv_def
proof
  fix b show "obj_inv k' b" by (rule obj_inv_mono [of k]) (use assms in \<open>simp_all add: objs_inv_def\<close>)
qed

lemma task_sleep_kinv:
  assumes inv: "kinv k" and a: "g_active_task k \<noteq> g_idle_task"
  shows "kinv (snd (krhino_task_sleep ticks k))"
proof (cases "ticks = 0 \<or> 0 < g_intrpt_nested_level k \<or> 0 < g_sched_lock k")
  case True
  then show ?thesis using inv by (auto simp: krhino_task_sleep_def)
next
  case False
  let ?a = "g_active_task k"
  let ?k0 = "upd_task ?a (\<lambda>x. x\<lparr>task_state := K_SLEEP\<rparr>) k"
  let ?k1 = "tick_list_insert ?a ticks ?k0"
  let ?k2 = "ready_list_rm ?a ?k1"
  note w = winvD [OF kinvD(1) [OF inv]] and c = core_okD [OF kinvD(5) [OF inv]]
  have rd: "?a \<in> rdy k" using kinv_active_rdy [OF inv] False by (simp add: word_greater_zero_iff)
  have n: "0 < ticks" using False by (simp add: word_greater_zero_iff)
  have nn: "?a \<noteq> NULL" by (rule w(7))
  have nt: "?a \<notin> timed k" using w(3) rd by (auto simp: tick_ok_def rdy_def pended_def sleeping_def)
  have tq0: "tq_ok (timed k) ?k0" using w(3) by (subst tq_ok_cong [where k = k]) (auto simp: tick_ok_def)
  note ti = tq_insert [OF tq0 nt n]
  have tk: "tasks ?k1 = (tasks k)(?a := (tasks k ?a)\<lparr>task_state := K_SLEEP, tick_match := g_tick_count k + ticks,
      tick_remain := ticks, tick_head := True\<rparr>)" using n by simp
  have timed1: "timed ?k1 = insert ?a (timed k)" unfolding timed_def tk by auto
  have tq1: "tq_ok (timed ?k1) ?k1" using ti(1) by (simp add: timed1)
  note r = winv_unready [OF kinvD(1) [OF inv] rd a tk _ _ _ _ _ _ _ _ tq1]
  have "winv ?k2" "pend_on ?k2 = pend_on k" "waits_same k ?k2" "live ?k2 = live k"
    using r n nn by (simp_all add: pended_def sleeping_def suspended_def)
  moreover have "ticks_left ?k2 u = (if u = ?a then ticks else ticks_left k u)" for u
    unfolding ticks_left_def ready_list_rm_frame tk by simp
  then have "tick_pos ?k2"
    using kinvD(2) [OF inv] n unfolding tick_pos_def timed_def ready_list_rm_frame tk
    by (auto simp: word_greater_zero_iff)
  moreover have "objs_inv ?k2"
    by (rule objs_inv_waits [of k]) (use inv calculation in \<open>simp_all add: kinv_def\<close>)
  ultimately have "kinv (core_sched ?k2)"
    using False kinvD(4) [OF inv] by (intro kinv_core_sched) (simp_all add: sched_ok_def word_greater_zero_iff)
  then show ?thesis using False by (auto simp: krhino_task_sleep_def Let_def)
qed

lemma winv_requeue:
  assumes inv: "winv k" and rq: "rq_ok (rdy k) k'" and k': "tasks k' = tasks k" "blk_objs k' = blk_objs k"
    "mutexes k' = mutexes k" "g_fault k' = g_fault k" "g_err_log k' = g_err_log k" "g_active_task k' = g_active_task k"
    "g_tick_head k' = g_tick_head k" "g_tick_count k' = g_tick_count k"
  shows "winv k'"
proof -
  note w = winvD [OF inv] and c = core_okD [OF winvD(1) [OF inv]]
  have sets: "rdy k' = rdy k" "live k' = live k" "pend_on k' = pend_on k" "timed k' = timed k"
    by (simp_all add: rdy_def live_def pend_on_def timed_def k'(1) fun_eq_iff)
  have "bl_ok W k' = bl_ok W k" "tq_ok T k' = tq_ok T k" for W T
    by (rule bl_ok_cong tq_ok_cong; simp add: k')+
  moreover have "eff_pri k' t = eff_pri k t" for t by (simp add: eff_pri_def heads_min_def k')
  ultimately have "core_ok k'" "pi_ok k'" "tick_ok k'" "susp_ok k'"
    using w(1-4) rq unfolding core_ok_def own_ok_def pi_ok_def tick_ok_def susp_ok_def by (simp_all add: sets k')
  then show ?thesis using w(5-7) by (simp add: winv_def k')
qed

lemma kpre_requeue:
  assumes inv: "kpre k" and rq: "rq_ok (rdy k) k'" and k': "tasks k' = tasks k" "blk_objs k' = blk_objs k"
    "mutexes k' = mutexes k" "g_fault k' = g_fault k" "g_err_log k' = g_err_log k" "g_active_task k' = g_active_task k"
    "g_tick_head k' = g_tick_head k" "g_tick_count k' = g_tick_count k" "sems k' = sems k" "queues k' = queues k"
    "buf_queues k' = buf_queues k" "g_sys_stat k' = g_sys_stat k" "g_sched_lock k' = g_sched_lock k"
    "g_intrpt_nested_level k' = g_intrpt_nested_level k" "events k' = events k"
  shows "kpre k'"
proof (rule kpre_eased [OF inv winv_requeue [OF kpreD(1) [OF inv] rq k'(1-8)]])
  have sets: "rdy k' = rdy k" "live k' = live k" "pend_on k' = pend_on k" "timed k' = timed k"
    by (simp_all add: rdy_def live_def pend_on_def timed_def k'(1) fun_eq_iff)
  show "eased k k'" by (simp add: eased_def sets waits_same_tasks k')
  show "g_active_task k' \<in> live k'" "g_sched_lock k' \<noteq> 0 \<longrightarrow> g_active_task k' \<in> rdy k'"
    using inv by (simp_all add: kpre_def sets k')
qed

lemma task_yield_kinv:
  assumes inv: "kinv k" and a: "g_intrpt_nested_level k = 0"
  shows "kinv (snd (krhino_task_yield k))"
proof -
  let ?a = "g_active_task k"
  note c = core_okD [OF kinvD(5) [OF inv]]
  have "?a \<in> set (cur_list_item k (prio (tasks k ?a)))"
    using kinv_active_rdy [OF inv a] by (simp add: rq_ok_mem [OF c(1)])
  then have "cur_list_item k (prio (tasks k ?a)) \<noteq> []" by auto
  note r = rq_head_to_tail [OF c(1) this]
  have "kpre (ready_list_head_to_tail ?a k)"
    by (rule kpre_requeue [OF kinv_kpre [OF inv] r(1)]) (simp_all add: r(2))
  then show ?thesis by (simp add: krhino_task_yield_def kpre_core_sched)
qed

text \<open>A change of the suspension count, and of the state as far as it records it.\<close>

lemma winv_susp:
  assumes inv: "winv k" and t: "t \<noteq> NULL"
    and f: "task_state (f (tasks k t)) = K_RDY \<longleftrightarrow> task_state (tasks k t) = K_RDY"
      "pended (task_state (f (tasks k t))) \<longleftrightarrow> pended (task_state (tasks k t))"
      "sleeping (task_state (f (tasks k t))) \<longleftrightarrow> sleeping (task_state (tasks k t))"
      "task_state (f (tasks k t)) \<in> {K_SEED, K_DELETED} \<longleftrightarrow> task_state (tasks k t) \<in> {K_SEED, K_DELETED}"
      "suspended (task_state (f (tasks k t))) \<longrightarrow> suspend_count (f (tasks k t)) \<noteq> 0"
      "\<And>x. blk_obj (f x) = blk_obj x \<and> tick_head (f x) = tick_head x \<and> prio (f x) = prio x \<and> b_prio (f x) = b_prio x \<and>
        mutex_list (f x) = mutex_list x \<and> tick_match (f x) = tick_match x \<and> pend_info (f x) = pend_info x \<and> task_msg (f x) = task_msg x \<and>
        pend_option (f x) = pend_option x \<and> pend_flags (f x) = pend_flags x"
  defines "k' \<equiv> upd_task t f k"
  shows "winv k'" and "eased k k'" and "rdy k' = rdy k" and "live k' = live k"
proof -
  note w = winvD [OF inv] and c = core_okD [OF winvD(1) [OF inv]]
  have tk: "tasks k' = (tasks k)(t := f (tasks k t))" by (simp add: k'_def)
  have mem: "u \<in> rdy k' \<longleftrightarrow> u \<in> rdy k" "u \<in> live k' \<longleftrightarrow> u \<in> live k" "u \<in> pend_on k' b \<longleftrightarrow> u \<in> pend_on k b" "u \<in> timed k' \<longleftrightarrow> u \<in> timed k"
    for u b using f by (cases "u = t"; auto simp: rdy_def live_def pend_on_def timed_def tk)+
  show rd: "rdy k' = rdy k" and lv: "live k' = live k" using mem by blast+
  have pd: "pend_on k' = pend_on k" and tm: "timed k' = timed k" using mem by (blast, blast)
  have same: "b_prio (tasks k' u) = b_prio (tasks k u)" "prio (tasks k' u) = prio (tasks k u)"
    "mutex_list (tasks k' u) = mutex_list (tasks k u)" "tick_head (tasks k' u) = tick_head (tasks k u)"
    "tick_match (tasks k' u) = tick_match (tasks k u)" for u using f(6) by (simp_all add: tk)
  have "rq_ok (rdy k) k'" using c(1) by (subst rq_ok_cong [where k = k]) (simp_all add: same, simp_all add: k'_def)
  moreover have "bl_ok (pend_on k) k'" using c(2) by (subst bl_ok_cong [where k = k]) (simp_all add: same, simp_all add: k'_def)
  moreover have "tq_ok (timed k) k'"
    using w(3) by (subst tq_ok_cong [where k = k]) (simp_all add: same tick_ok_def, simp_all add: k'_def)
  moreover have "eff_pri k' u = eff_pri k u" for u
    unfolding eff_pri_def heads_min_def same by (simp add: k'_def)
  moreover have "blk_objs k' = blk_objs k" "mutexes k' = mutexes k" by (simp_all add: k'_def)
  ultimately have "core_ok k'" "pi_ok k'"
    using w(1-2) unfolding core_ok_def own_ok_def pi_ok_def by (simp_all add: rd lv pd same)
  moreover have "tick_ok k'"
    using w(3) f(2,3) \<open>tq_ok (timed k) k'\<close> unfolding tick_ok_def tm by (auto simp: tk)
  moreover have "susp_ok k'" using w(4) f(5) by (auto simp: susp_ok_def tk)
  ultimately show "winv k'" using w(5-7) t by (simp add: winv_def k'_def)
  have "waits_same k k'" using f(2,6) by (simp add: waits_same_def tk)
  then show "eased k k'" by (simp add: eased_def pd tm same) (simp add: k'_def)
qed

lemma kinv_susp:
  assumes inv: "kinv k" and w: "winv k'" "eased k k'" "rdy k' = rdy k" "live k' = live k"
  shows "kinv (core_sched k')"
proof -
  have "kpre k'" by (rule kpre_eased [OF kinv_kpre [OF inv] w(1,2)])
    (use kinvD(4) [OF inv] easedD(2,4) [OF w(2)] in \<open>simp_all add: sched_ok_def w(3,4)\<close>)
  then show ?thesis by (rule kpre_core_sched)
qed

lemma idle_prio: "kinv k \<Longrightarrow> prio (tasks k g_idle_task) = RHINO_IDLE_PRI"
  using core_okD(6,7,12) [OF kinvD(5)] winvD(2) [OF kinvD(1)] rdy_live
  by (auto simp: pi_ok_def eff_pri_def heads_min_def)

lemma task_suspend_rdy:
  assumes inv: "kinv k" and t: "t \<in> rdy k" "t \<noteq> g_idle_task" and a: "t = g_active_task k \<longrightarrow> g_sched_lock k = 0"
  shows "kinv (core_sched (ready_list_rm t (upd_task t (\<lambda>x. x\<lparr>suspend_count := 1, task_state := K_SUSPENDED\<rparr>) k)))"
proof -
  let ?f = "\<lambda>x. x\<lparr>suspend_count := 1, task_state := K_SUSPENDED\<rparr>"
  let ?k1 = "upd_task t ?f k" and ?k2 = "ready_list_rm t (upd_task t ?f k)"
  note w = winvD [OF kinvD(1) [OF inv]] and c = core_okD [OF kinvD(5) [OF inv]]
  have tm: "timed ?k1 = timed k" by (auto simp: timed_def)
  have nt: "\<not> tick_head (tasks k t)" using w(3) t(1) by (auto simp: tick_ok_def rdy_def pended_def sleeping_def timed_def)
  have tq: "tq_ok (timed ?k1) ?k1"
    using w(3) unfolding tm by (subst tq_ok_cong [where k = k]) (auto simp: tick_ok_def)
  have tk: "tasks ?k1 = (tasks k)(t := ?f (tasks k t))" by simp
  note r = winv_unready [OF kinvD(1) [OF inv] t tk _ _ _ _ _ _ _ _ tq]
  have k2: "winv ?k2" "pend_on ?k2 = pend_on k" "waits_same k ?k2" "rdy ?k2 = rdy k - {t}" "live ?k2 = live k"
    using r nt c(11) [OF rdy_live [OF t(1)]] by (simp_all add: pended_def sleeping_def suspended_def)
  have "kpre ?k2"
  proof (rule kpre_eased [OF kinv_kpre [OF inv] k2(1)])
    show "eased k ?k2" using k2(2,3) by (simp add: eased_def) (auto simp: timed_def)
    show "g_active_task ?k2 \<in> live ?k2" "g_sched_lock ?k2 \<noteq> 0 \<longrightarrow> g_active_task ?k2 \<in> rdy ?k2"
      using kinvD(4) [OF inv] a by (auto simp: k2(4,5) sched_ok_def)
  qed
  then show ?thesis by (rule kpre_core_sched)
qed

lemma task_suspend_kinv:
  assumes inv: "kinv k"
  shows "kinv (snd (krhino_task_suspend task k))"
proof (cases "task = NULL \<or> prio (tasks k task) = RHINO_IDLE_PRI \<or> task = g_active_task k \<and> 0 < g_sched_lock k")
  case True
  then show ?thesis using inv by (auto simp: krhino_task_suspend_def task_suspend_def)
next
  case False
  then have nn: "task \<noteq> NULL" and id: "task \<noteq> g_idle_task" and a: "task = g_active_task k \<longrightarrow> g_sched_lock k = 0"
    using idle_prio [OF inv] by (auto simp: word_greater_zero_iff)
  have S: "kinv (core_sched (upd_task task f k))" if "winv (upd_task task f k) \<and> eased k (upd_task task f k) \<and>
      rdy (upd_task task f k) = rdy k \<and> live (upd_task task f k) = live k" for f
    using kinv_susp [OF inv] that by blast
  have n1: "kinv (core_sched (upd_task task (\<lambda>x. x\<lparr>suspend_count := 1, task_state := st\<rparr>) k))"
    if "task_state (tasks k task) = K_SLEEP \<and> st = K_SLEEP_SUSPENDED \<or> task_state (tasks k task) = K_PEND \<and> st = K_PEND_SUSPENDED" for st
    by (rule S, intro conjI; rule winv_susp [OF kinvD(1) [OF inv] nn])
      (use that in \<open>auto simp: pended_def sleeping_def suspended_def\<close>)
  have n2: "kinv (core_sched (upd_task task (\<lambda>x. x\<lparr>suspend_count := suspend_count x + 1\<rparr>) k))"
    if "suspend_count (tasks k task) \<noteq> - 1"
    by (rule S, intro conjI; rule winv_susp [OF kinvD(1) [OF inv] nn])
      (use that in \<open>auto simp: eq_neg_iff_add_eq_0\<close>)
  have "krhino_task_suspend task k = task_suspend task k" using False by (simp add: krhino_task_suspend_def)
  moreover have "\<not> (task = g_active_task k \<and> 0 < g_sched_lock k)" using False by simp
  ultimately show ?thesis
    using inv n1 n2 task_suspend_rdy [OF inv _ id a]
    by (cases "task_state (tasks k task)") (simp_all add: task_suspend_def Let_def rdy_def)
qed

text \<open>A suspended task becomes ready.\<close>

lemma task_wake_suspended:
  assumes inv: "kinv k" and t: "task_state (tasks k t) = K_SUSPENDED"
    and f: "\<And>x. task_state (f x) = K_RDY \<and> tick_head (f x) = tick_head x \<and> prio (f x) = prio x \<and> b_prio (f x) = b_prio x \<and>
      mutex_list (f x) = mutex_list x \<and> tick_match (f x) = tick_match x"
  shows "kinv (core_sched (ready_list_add t (upd_task t f k)))"
proof -
  let ?k = "ready_list_add t (upd_task t f k)"
  note w = winvD [OF kinvD(1) [OF inv]] and c = core_okD [OF kinvD(5) [OF inv]]
  have tl: "t \<in> live k" and nr: "t \<notin> rdy k" and np: "\<not> pended (task_state (tasks k t))"
    using t by (simp_all add: live_def rdy_def pended_def)
  have id: "t \<noteq> g_idle_task" using nr c(6) by auto
  have tk: "tasks ?k = (tasks k)(t := f (tasks k t))" by simp
  have rdy: "rdy ?k = insert t (rdy k)" and live: "live ?k = live k" using f tl by (auto simp: rdy_def live_def)
  have tm: "timed ?k = timed k" using f by (auto simp: timed_def)
  have nt: "\<not> tick_head (tasks k t)" using w(3) t by (auto simp: tick_ok_def pended_def sleeping_def timed_def)
  have "rq_ok (rdy k) (upd_task t f k)" using c(1) f by (subst rq_ok_cong [where k = k]) simp_all
  then have rq: "rq_ok (rdy ?k) ?k" unfolding rdy by (rule rq_add) (use nr f c(8) [OF tl] w(7) in simp_all)
  have tq: "tq_ok (timed ?k) ?k"
    using w(3) f unfolding tm by (subst tq_ok_cong [where k = k]) (auto simp: tick_ok_def)
  note r = winv_restate [OF kinvD(1) [OF inv] c(11) [OF tl] id np tk _ _ _ _ _ rq tq]
  have k': "winv ?k" "pend_on ?k = pend_on k" "waits_same k ?k"
    using r(1-3) f nt tl c(11) [OF tl] w(7) by (simp_all add: live pended_def sleeping_def suspended_def)
  have "kpre ?k"
  proof (rule kpre_eased [OF kinv_kpre [OF inv] k'(1)])
    show "eased k ?k" using k'(2,3) f by (simp add: eased_def tm)
    show "g_active_task ?k \<in> live ?k" "g_sched_lock ?k \<noteq> 0 \<longrightarrow> g_active_task ?k \<in> rdy ?k"
      using kinvD(4) [OF inv] by (auto simp: rdy live sched_ok_def)
  qed
  then show ?thesis by (rule kpre_core_sched)
qed

lemma task_resume_kinv:
  assumes inv: "kinv k"
  shows "kinv (snd (krhino_task_resume task k))"
proof (cases "task = NULL \<or> \<not> suspended (task_state (tasks k task))")
  case True
  then show ?thesis using inv
    by (cases "task_state (tasks k task)") (auto simp: krhino_task_resume_def task_resume_def suspended_def)
next
  case False
  let ?x = "tasks k task"
  have nn: "task \<noteq> NULL" and c: "suspend_count ?x \<noteq> 0"
    using False winvD(4) [OF kinvD(1) [OF inv]] by (auto simp: susp_ok_def)
  let ?g = "\<lambda>x. x\<lparr>suspend_count := suspend_count x - 1\<rparr>"
  have S: "kinv (core_sched (upd_task task f k))" if "winv (upd_task task f k) \<and> eased k (upd_task task f k) \<and>
      rdy (upd_task task f k) = rdy k \<and> live (upd_task task f k) = live k" for f
    using kinv_susp [OF inv] that by blast
  have n1: "kinv (core_sched (upd_task task ?g k))" if "suspend_count ?x - 1 \<noteq> 0"
    by (rule S, intro conjI; rule winv_susp [OF kinvD(1) [OF inv] nn]) (use that in auto)
  have n2: "kinv (core_sched (upd_task task (\<lambda>x. x\<lparr>task_state := st\<rparr>) (upd_task task ?g k)))"
    if "task_state ?x = K_SLEEP_SUSPENDED \<and> st = K_SLEEP \<or> task_state ?x = K_PEND_SUSPENDED \<and> st = K_PEND" for st
    unfolding upd_task_twice
    by (rule S, intro conjI; rule winv_susp [OF kinvD(1) [OF inv] nn])
      (use that in \<open>auto simp: pended_def sleeping_def suspended_def\<close>)
  have n3: "kinv (core_sched (ready_list_add task (upd_task task (\<lambda>x. x\<lparr>task_state := K_RDY\<rparr>) (upd_task task ?g k))))"
    if "task_state ?x = K_SUSPENDED"
    unfolding upd_task_twice by (rule task_wake_suspended [OF inv that]) simp
  show ?thesis
    using False nn n1 n2 n3
    by (cases "task_state ?x") (simp_all add: krhino_task_resume_def task_resume_def suspended_def Let_def)
qed

section \<open>The invariant: priorities and aborted waits\<close>

text \<open>A new base priority: every other task keeps the priority it should have.\<close>

lemma base_pri_core:
  assumes inv: "winv k" and t: "t \<in> live k" "t \<noteq> g_idle_task" and p: "pri < RHINO_CONFIG_PRI_MAX"
  defines "k' \<equiv> upd_task t (\<lambda>x. x\<lparr>b_prio := pri\<rparr>) k"
  shows "core_ok k'" and "pi_but t k'" and "mutex_pri_limit t pri k = eff_pri k' t"
    and "tick_ok k'" and "susp_ok k'" and "eased k k'" and "rdy k' = rdy k" and "live k' = live k"
proof -
  note w = winvD [OF inv] and c = core_okD [OF winvD(1) [OF inv]]
  have mem: "u \<in> rdy k' \<longleftrightarrow> u \<in> rdy k" "u \<in> live k' \<longleftrightarrow> u \<in> live k" "u \<in> pend_on k' b \<longleftrightarrow> u \<in> pend_on k b" "u \<in> timed k' \<longleftrightarrow> u \<in> timed k"
    for u b by (auto simp: rdy_def live_def pend_on_def timed_def k'_def)
  show rd: "rdy k' = rdy k" and lv: "live k' = live k" using mem by blast+
  have pd: "pend_on k' = pend_on k" and tm: "timed k' = timed k" using mem by (blast, blast)
  have rq: "rq_ok A k' = rq_ok A k" and bl: "bl_ok W k' = bl_ok W k" and tq: "tq_ok T k' = tq_ok T k" for A W T
    by (rule rq_ok_cong bl_ok_cong tq_ok_cong; simp add: k'_def)+
  have ml: "mutex_list (tasks k' u) = mutex_list (tasks k u)" "mutexes k' = mutexes k" "blk_objs k' = blk_objs k" for u
    by (simp_all add: k'_def)
  have pr: "prio (tasks k' u) = prio (tasks k u)" for u by (simp add: k'_def)
  have own: "own_ok k'" using c(3) unfolding own_ok_def lv pd ml .
  show "core_ok k'"
    using w(1) own t(2) p unfolding core_ok_def rd lv pd rq bl by (simp add: k'_def)
  show "pi_but t k'"
    using w(2) unfolding pi_but_def pi_ok_def lv eff_pri_def heads_min_def ml pr by (simp add: k'_def)
  show "tick_ok k'" "susp_ok k'" using w(3,4) unfolding tick_ok_def susp_ok_def tm tq by (simp_all add: k'_def)
  have "waits_same k k'" by (simp add: waits_same_def k'_def)
  then show "eased k k'" unfolding eased_def pd tm by (simp add: k'_def)
  have srt: "\<forall>m \<in> set (mutex_list (tasks k t)). sorted (map (\<lambda>x. prio (tasks k x)) (blk_list (blk_objs k m)))"
    using own_okD(2,3) [OF c(3)] t(1) bl_okD(3) [OF c(2)] by blast
  have "mutex_pri_limit t pri k = heads_min k pri (mutex_list (tasks k t))"
    unfolding mutex_pri_limit_def by (rule mutex_pri_scan_min [OF srt]) simp
  then show "mutex_pri_limit t pri k = eff_pri k' t" by (simp add: eff_pri_def heads_min_def ml pr) (simp add: k'_def)
qed

lemma task_pri_change_kinv:
  assumes inv: "kinv k" and t: "task_state (tasks k task) \<noteq> K_SEED"
  shows "kinv (snd (krhino_task_pri_change task pri old_pri k))"
proof (cases "task = NULL \<or> old_pri = 0 \<or> RHINO_IDLE_PRI \<le> prio (tasks k task) \<or> RHINO_IDLE_PRI \<le> pri \<or>
    task_state (tasks k task) = K_DELETED \<or> 0 < g_intrpt_nested_level k")
  case True
  then show ?thesis using inv by (auto simp: krhino_task_pri_change_def)
next
  case False
  then have g: "old_pri \<noteq> 0" "pri < RHINO_CONFIG_PRI_MAX" "task \<in> live k" "task \<noteq> g_idle_task"
    using t idle_prio [OF inv] by (auto simp: live_def not_le intro: less_trans idle_pri_less)
  define k1 where "k1 = upd_task task (\<lambda>x. x\<lparr>b_prio := pri\<rparr>) k"
  define k2 where "k2 = store_bytes old_pri [word_of_nat (prio (tasks k1 task))] k1"
  note w = winvD [OF kinvD(1) [OF inv]]
  note b = base_pri_core [OF kinvD(1) [OF inv] g(3,4,2), folded k1_def]
  have sm: "tasks k2 = tasks k1" "blk_objs k2 = blk_objs k1" "mutexes k2 = mutexes k1" by (simp_all add: k2_def)
  have sets: "rdy k2 = rdy k1" "live k2 = live k1" "pend_on k2 = pend_on k1" "timed k2 = timed k1"
    by (simp_all add: rdy_def live_def pend_on_def timed_def sm fun_eq_iff)
  have cong: "rq_ok A k2 = rq_ok A k1" "bl_ok W k2 = bl_ok W k1" "tq_ok T k2 = tq_ok T k1" for A W T
    by (rule rq_ok_cong bl_ok_cong tq_ok_cong; simp add: k2_def)+
  have ef: "eff_pri k2 u = eff_pri k1 u" for u by (simp add: eff_pri_def heads_min_def sm)
  have core: "core_ok k2" using b(1) unfolding core_ok_def own_ok_def sets cong by (simp add: sm)
  have pi: "pi_but task k2" using b(2) by (simp add: pi_but_def sets ef sm)
  have tks: "tick_ok k2" "susp_ok k2" using b(4,5) unfolding tick_ok_def susp_ok_def sets cong by (simp_all add: sm)
  have "task \<in> live k2" using g(3) by (simp add: sets b(8))
  then obtain k' where k': "task_pri_change task (eff_pri k2 task) k2 = (RHINO_SUCCESS, k')" "core_ok k'" "pri_frame k2 k'" "pi_ok k'"
    using task_pri_change_ok [OF core _ g(4) pi] by blast
  have nn: "task \<noteq> NULL" using False by simp
  have winv: "winv k'"
    by (rule pri_frame_winv [OF k'(3,2,4) tks]) (use w(5-7) g(1) nn in \<open>simp_all add: k2_def k1_def\<close>)
  have e12: "eased k1 k2"
    unfolding eased_def sets by (simp add: k2_def waits_same_def)
  have ea: "eased k k'" by (rule eased_trans [OF b(6) eased_trans [OF e12 eased_pri_frame [OF k'(3)]]])
  have "kinv (core_sched k')"
    by (rule kinv_susp [OF inv winv ea]) (simp_all add: pri_frame_sets [OF k'(3)] sets b(7,8))
  moreover have "krhino_task_pri_change task pri old_pri k = (RHINO_SUCCESS, core_sched k')"
    using False k'(1) b(3) ef [of task] by (simp add: krhino_task_pri_change_def Let_def k1_def k2_def)
  ultimately show ?thesis by simp
qed

lemma task_wait_abort_kinv:
  assumes inv: "kinv k"
  shows "kinv (snd (krhino_task_wait_abort task k))"
proof -
  note w = winvD [OF kinvD(1) [OF inv]] and c = core_okD [OF kinvD(5) [OF inv]]
  let ?f = "\<lambda>x. x\<lparr>task_state := K_RDY, blk_state := BLK_ABORT\<rparr>"
  have sub: "kinv (core_sched k')" if "winv k'" "eased k k'" "live k' = live k" "rdy k \<subseteq> rdy k'" for k'
  proof -
    have "kpre k'" by (rule kpre_eased [OF kinv_kpre [OF inv] that(1,2)])
      (use that(3,4) kinvD(4) [OF inv] easedD(2,4) [OF that(2)] in \<open>auto simp: sched_ok_def\<close>)
    then show ?thesis by (rule kpre_core_sched)
  qed
  have tq: "tq_ok (timed k) k" using w(3) by (simp add: tick_ok_def)
  have sl: "kinv (core_sched (upd_task task ?f (ready_list_add task (tick_list_rm task k))))"
    if s: "sleeping (task_state (tasks k task))"
  proof -
    let ?k1 = "ready_list_add task (tick_list_rm task k)"
    let ?k = "upd_task task ?f ?k1"
    have tl: "task \<in> live k" and nr: "task \<notin> rdy k" using s by (auto simp: sleeping_def live_def rdy_def)
    have tk: "tasks ?k = (tasks k)(task := ?f ((tasks k task)\<lparr>tick_head := False\<rparr>))" by (simp add: tq_rm_tasks [OF tq])
    have fa: "g_fault ?k = g_fault k" using tq_rm_fault [OF tq c(11) [OF tl]] w(7) c(11) [OF tl] by simp
    have rq0: "rq_ok (rdy k) (tick_list_rm task k)"
      using c(1) by (subst rq_ok_cong [where k = k]) (simp_all add: tq_rm_tasks [OF tq])
    have "rq_ok (insert task (rdy k)) ?k1"
      using rq_add [OF rq0 nr] c(8) [OF tl] w(7) by (simp add: tq_rm_tasks [OF tq])
    then have rq: "rq_ok (insert task (rdy k)) ?k" by (subst rq_ok_cong [where k = ?k1]) simp_all
    have th: "g_tick_head ?k = remove1 task (g_tick_head k)" using tq_rm_list [OF tq, of task] by simp
    note r = left_sleep [where f = ?f and st = K_RDY, OF inv [THEN kinvD(1)] s _ _ _ tk _ _ fa _ _ _ _ _ _ _ _ _ th]
    have "winv ?k" "eased k ?k" "live ?k = live k" "rdy ?k = insert task (rdy k)" using r rq by simp_all
    then show ?thesis by (intro sub) auto
  qed
  have pe: "kinv (core_sched (upd_task task (\<lambda>x. x\<lparr>blk_obj := NULL\<rparr>) (mutex_task_pri_reset task
      (upd_task task ?f (ready_list_add task (pend_list_rm task (tick_list_rm task k)))))))"
    if p: "pended (task_state (tasks k task))"
    using end_wait [OF kinvD(1) [OF inv] p, of K_RDY ?f] by (intro sub) (auto simp: subset_insertI)
  have su: "kinv (core_sched (ready_list_add task (upd_task task (\<lambda>x. x\<lparr>task_state := K_RDY\<rparr>) k)))"
    if "task_state (tasks k task) = K_SUSPENDED" by (rule task_wake_suspended [OF inv that]) simp
  show ?thesis
    using inv sl pe su kpre_core_sched [OF kinv_kpre [OF inv]]
    by (cases "task_state (tasks k task)") (simp_all add: krhino_task_wait_abort_def Let_def sleeping_def pended_def)
qed

section \<open>The invariant: deletion\<close>

text \<open>
  While the mutexes of a task are passed on, its control block still lists them all. The
  invariant holds of the state in which the task has only the mutexes it has not yet given up,
  and its present priority for its own.
\<close>

definition giving_up :: "tid \<Rightarrow> oid list \<Rightarrow> kernel \<Rightarrow> kernel" where
  "giving_up t ms k = k\<lparr>tasks := (tasks k)(t := (tasks k t)\<lparr>mutex_list := ms, b_prio := prio (tasks k t)\<rparr>)\<rparr>"

lemma giving_up_sel [simp]:
  "tasks (giving_up t ms k) = (tasks k)(t := (tasks k t)\<lparr>mutex_list := ms, b_prio := prio (tasks k t)\<rparr>)"
  "cur_list_item (giving_up t ms k) = cur_list_item k" "task_bit_map (giving_up t ms k) = task_bit_map k"
  "highest_pri (giving_up t ms k) = highest_pri k" "g_active_task (giving_up t ms k) = g_active_task k"
  "g_tick_head (giving_up t ms k) = g_tick_head k" "g_tick_count (giving_up t ms k) = g_tick_count k"
  "blk_objs (giving_up t ms k) = blk_objs k" "mutexes (giving_up t ms k) = mutexes k"
  "g_fault (giving_up t ms k) = g_fault k" "g_err_log (giving_up t ms k) = g_err_log k"
  "g_sys_stat (giving_up t ms k) = g_sys_stat k" "g_sched_lock (giving_up t ms k) = g_sched_lock k"
  "g_intrpt_nested_level (giving_up t ms k) = g_intrpt_nested_level k" "sems (giving_up t ms k) = sems k"
  "queues (giving_up t ms k) = queues k" "buf_queues (giving_up t ms k) = buf_queues k" "events (giving_up t ms k) = events k"
  by (simp_all add: giving_up_def)

lemma giving_up_sets [simp]:
  "rdy (giving_up t ms k) = rdy k" "live (giving_up t ms k) = live k" "pend_on (giving_up t ms k) = pend_on k"
  "timed (giving_up t ms k) = timed k" "prio (tasks (giving_up t ms k) u) = prio (tasks k u)"
  "ticks_left (giving_up t ms k) u = ticks_left k u"
  by (auto simp: rdy_def live_def pend_on_def timed_def ticks_left_def fun_eq_iff)

lemma giving_up_lists [simp]:
  "rq_ok A (giving_up t ms k) = rq_ok A k" "bl_ok W (giving_up t ms k) = bl_ok W k" "tq_ok T (giving_up t ms k) = tq_ok T k"
  "tick_ok (giving_up t ms k) = tick_ok k" "susp_ok (giving_up t ms k) = susp_ok k"
proof -
  show "rq_ok A (giving_up t ms k) = rq_ok A k" by (rule rq_ok_cong) simp_all
  show "bl_ok W (giving_up t ms k) = bl_ok W k" by (rule bl_ok_cong) simp_all
  show tq: "tq_ok T (giving_up t ms k) = tq_ok T k" for T by (rule tq_ok_cong) simp_all
  have st: "task_state (tasks (giving_up t ms k) u) = task_state (tasks k u)"
    "suspend_count (tasks (giving_up t ms k) u) = suspend_count (tasks k u)" for u by simp_all
  show "tick_ok (giving_up t ms k) = tick_ok k" "susp_ok (giving_up t ms k) = susp_ok k"
    unfolding tick_ok_def susp_ok_def tq st by simp_all
qed

lemma giving_up_start:
  assumes inv: "winv k" and t: "t \<in> live k" "t \<noteq> g_idle_task"
  shows "winv (giving_up t (mutex_list (tasks k t)) k)"
proof -
  let ?k = "giving_up t (mutex_list (tasks k t)) k"
  note w = winvD [OF inv] and c = core_okD [OF winvD(1) [OF inv]]
  have ml: "mutex_list (tasks ?k u) = mutex_list (tasks k u)" for u by simp
  have own: "own_ok ?k" using c(3) unfolding own_ok_def ml by simp
  have core: "core_ok ?k"
    using w(1) own t c(8) [OF t(1)] unfolding core_ok_def by simp
  have "prio (tasks ?k u) = eff_pri ?k u" if u: "u \<in> live k" for u
  proof (cases "u = t")
    case False
    then show ?thesis using w(2) u unfolding pi_ok_def eff_pri_def heads_min_def ml giving_up_sets by simp
  next
    case True
    let ?D = "\<Union>m \<in> set (mutex_list (tasks k t)). (\<lambda>w. prio (tasks k w)) ` pend_on k m"
    have e: "prio (tasks k t) = Min (insert (b_prio (tasks k t)) ?D)"
      using w(2) t(1) by (simp add: pi_ok_def eff_pri_demand [OF c(2)] demand_def)
    have fin: "finite ?D" using finite_demand [OF c(2), of t] by (simp add: demand_def)
    then have "\<forall>d \<in> ?D. prio (tasks k t) \<le> d" unfolding e by (metis Min_le finite_insert insertI2)
    then have "Min (insert (prio (tasks k t)) ?D) = prio (tasks k t)" using fin by (intro Min_eqI) auto
    moreover have "bl_ok (pend_on k) ?k" using c(2) by simp
    ultimately show ?thesis
      using True unfolding eff_pri_demand [OF \<open>bl_ok (pend_on k) ?k\<close>] demand_def ml giving_up_sets by simp
  qed
  then have "pi_ok ?k" unfolding pi_ok_def giving_up_sets by simp
  then show ?thesis using core w(3-7) by (simp add: winv_def)
qed

text \<open>One round of the loop: a mutex goes to its first waiting task, or is free.\<close>

definition free_one :: "oid \<Rightarrow> kernel \<Rightarrow> kernel" where
  "free_one m k = (case blk_list (blk_objs k m) of
     w # _ \<Rightarrow> upd_task w (\<lambda>x. x\<lparr>mutex_list := m # mutex_list x\<rparr>)
       (upd_mutex m (\<lambda>x. x\<lparr>mutex_task := w\<rparr>) (pend_task_wakeup w k))
   | [] \<Rightarrow> upd_mutex m (\<lambda>x. x\<lparr>mutex_task := NULL\<rparr>) k)"

lemma task_mutex_free_loop_Cons: "task_mutex_free_loop (m # ms) k = task_mutex_free_loop ms (free_one m k)"
  by (simp add: free_one_def Let_def split: list.split)

text \<open>The priority of the task itself: fewer demands do not make it worse than it is.\<close>

lemma giving_up_own_pri:
  assumes "winv (giving_up t (m # ms) k)" and "t \<in> live k" and bl: "bl_ok W k'"
    and "\<And>x. x \<in> set ms \<Longrightarrow> W x \<subseteq> pend_on k x"
    and pr: "\<And>u. prio (tasks k' u) = prio (tasks k u)"
  shows "eff_pri (giving_up t ms k') t = prio (tasks k t)"
proof -
  let ?K = "giving_up t (m # ms) k"
  let ?D = "\<Union>x \<in> set ms. (\<lambda>u. prio (tasks k u)) ` W x"
  note v = winvD [OF assms(1)] and c = core_okD [OF winvD(1) [OF assms(1)]]
  have e: "prio (tasks k t) = Min (demand (pend_on k) ?K t)"
    using bspec [OF v(2) [unfolded pi_ok_def], of t] assms(2) c(2) by (simp add: eff_pri_demand [of "pend_on k"])
  have fin: "finite (demand (pend_on k) ?K t)" using finite_demand [OF c(2)] by simp
  have sub: "?D \<subseteq> demand (pend_on k) ?K t" unfolding demand_def giving_up_sets using assms(4) by fastforce
  have "\<forall>d \<in> ?D. prio (tasks k t) \<le> d" unfolding e using sub fin by (meson Min_le subsetD)
  moreover have "finite ?D" using sub fin by (rule finite_subset)
  ultimately have "Min (insert (prio (tasks k t)) ?D) = prio (tasks k t)" by (intro Min_eqI) auto
  moreover have b': "bl_ok W (giving_up t ms k')" using bl by simp
  ultimately show ?thesis
    unfolding eff_pri_demand [OF b'] demand_def giving_up_sets pr by (simp add: pr)
qed

text \<open>What a round does to the tasks that remain.\<close>

definition freed :: "tid \<Rightarrow> kernel \<Rightarrow> kernel \<Rightarrow> bool" where
  "freed t k k' \<longleftrightarrow> eased k k' \<and> live k' = live k \<and> rdy k \<subseteq> rdy k' \<and>
     task_state (tasks k' t) = task_state (tasks k t) \<and> blk_obj (tasks k' t) = blk_obj (tasks k t) \<and>
     tick_head (tasks k' t) = tick_head (tasks k t) \<and> prio (tasks k' t) = prio (tasks k t)"

lemma freed_refl [simp]: "freed t k k"
  by (simp add: freed_def)

lemma freed_trans: "freed t k k' \<Longrightarrow> freed t k' k'' \<Longrightarrow> freed t k k''"
  unfolding freed_def by (metis eased_trans subset_trans)

lemma giving_up_core:
  assumes inv: "winv (giving_up t (m # ms) k)" and own: "own_ok (giving_up t ms k')" and rq: "rq_ok (rdy k') k'"
    and bl: "bl_ok (pend_on k') k'" and live: "live k' = live k" and rdy: "rdy k \<subseteq> rdy k'"
    and pend: "pend_on k' NULL \<subseteq> pend_on k NULL" and pr: "\<And>u. prio (tasks k' u) = prio (tasks k u)"
    and same: "\<And>u. b_prio (tasks k' u) = b_prio (tasks k u)" "mutex_list (tasks k' g_idle_task) = mutex_list (tasks k g_idle_task)"
  shows "core_ok (giving_up t ms k')"
proof (rule core_okI)
  note c = core_okD [OF winvD(1) [OF inv], simplified]
  have id: "t \<noteq> g_idle_task" using c(7) by auto
  have pm: "prio (tasks k u) < RHINO_CONFIG_PRI_MAX" if "u \<in> live k" for u using c(8) [OF that] by (auto split: if_splits)
  show "prio (tasks (giving_up t ms k') u) < RHINO_CONFIG_PRI_MAX"
    "b_prio (tasks (giving_up t ms k') u) < RHINO_CONFIG_PRI_MAX" if "u \<in> live (giving_up t ms k')" for u
    using pm [of u] c(9) [of u] that by (auto simp: live pr same split: if_splits)
  show "mutex_list (tasks (giving_up t ms k') g_idle_task) = []" "b_prio (tasks (giving_up t ms k') g_idle_task) = RHINO_IDLE_PRI"
    using c(7,12) id by (auto simp: same)
  show "u \<notin> pend_on (giving_up t ms k') NULL" for u using pend c(10) [of u NULL] by auto
qed (use assms core_okD(4-6) [OF winvD(1) [OF inv]] in auto)

lemma free_one_drop:
  assumes inv: "winv (giving_up t (m # ms) k)" and t: "t \<in> live k" and e: "blk_list (blk_objs k m) = []"
  shows "winv (giving_up t ms (free_one m k))" and "freed t k (free_one m k)"
proof -
  let ?K = "giving_up t (m # ms) k" and ?k' = "upd_mutex m (\<lambda>x. x\<lparr>mutex_task := NULL\<rparr>) k"
  let ?K' = "giving_up t ms ?k'"
  have k': "free_one m k = ?k'" by (simp add: free_one_def e)
  note v = winvD [OF inv] and c = core_okD [OF winvD(1) [OF inv]]
  have tK: "t \<in> live ?K" using t by simp
  have m: "obj_type (blk_objs ?K m) = RHINO_MUTEX_OBJ_TYPE" "mutex_task (mutexes ?K m) = t"
    using own_okD(2) [OF c(3) tK, of m] by simp_all
  have mn: "m \<noteq> NULL" using own_okD(3) [OF c(3) m(1)] by simp
  have ds: "m \<notin> set ms" using own_okD(1) [OF c(3) tK] by simp
  have fl: "filter (\<lambda>y. y \<noteq> m) ms = ms" using ds by (intro filter_True) auto
  have emp: "pend_on ?K m = {}" using bl_okD(2) [OF c(2), of m] e by simp
  have sets: "rdy ?K' = rdy ?K" "live ?K' = live ?K" "pend_on ?K' = pend_on ?K" "timed ?K' = timed ?K"
    by (auto simp: rdy_def live_def pend_on_def timed_def fun_eq_iff)
  have ml: "mutex_list (tasks ?K' u) = (if u = t then filter (\<lambda>y. y \<noteq> m) (mutex_list (tasks ?K u)) else mutex_list (tasks ?K u))" for u
    using fl by simp
  have own: "own_ok ?K'"
    by (rule own_ok_drop [OF c(3) m emp _ sets(2,3) ml]) simp_all
  have cong: "rq_ok A ?K' = rq_ok A ?K" "bl_ok W ?K' = bl_ok W ?K" "tq_ok T ?K' = tq_ok T ?K" for A W T
    by (rule rq_ok_cong bl_ok_cong tq_ok_cong; simp)+
  have sk: "rdy ?k' = rdy k" "live ?k' = live k" "pend_on ?k' = pend_on k"
    by (auto simp: rdy_def live_def pend_on_def fun_eq_iff)
  have "core_ok ?K'"
    by (rule giving_up_core [OF inv own]) (use c(1,2) cong(1,2) in \<open>simp_all add: sk\<close>)
  moreover have "prio (tasks ?K' u) = eff_pri ?K' u" if u: "u \<in> live k" for u
  proof (cases "u = t")
    case True
    have "bl_ok (pend_on k) ?k'" using c(2) by (subst bl_ok_cong [where k = ?K]) simp_all
    then have "eff_pri ?K' t = prio (tasks k t)"
      by (rule giving_up_own_pri [OF inv t]) simp_all
    then show ?thesis using True by simp
  next
    case False
    have "eff_pri ?K' u = eff_pri ?K u" unfolding eff_pri_def heads_min_def giving_up_sets using False by simp
    moreover have "prio (tasks ?K u) = eff_pri ?K u" using v(2) u by (auto simp: pi_ok_def)
    ultimately show ?thesis using False by simp
  qed
  then have "pi_ok ?K'" unfolding pi_ok_def giving_up_sets by (simp add: live_def)
  moreover have tq: "tq_ok T ?k' = tq_ok T k" for T by (rule tq_ok_cong) simp_all
  have ts: "tick_ok k" "susp_ok k" using v(3,4) by simp_all
  have "timed ?k' = timed k" by (simp add: timed_def)
  then have "tick_ok ?k'" "susp_ok ?k'" using ts unfolding tick_ok_def susp_ok_def tq by simp_all
  then have "tick_ok ?K'" "susp_ok ?K'" by simp_all
  ultimately show "winv (giving_up t ms (free_one m k))" using v(5-7) mn by (simp add: winv_def k')
  have "timed ?k' = timed k" "pend_on ?k' = pend_on k" "live ?k' = live k" "rdy ?k' = rdy k"
    by (simp_all add: timed_def pend_on_def live_def rdy_def fun_eq_iff)
  then show "freed t k (free_one m k)" by (simp add: freed_def eased_def k' waits_same_def)
qed

lemma free_one_pass:
  assumes inv: "winv (giving_up t (m # ms) k)" and t: "t \<in> live k" and e: "blk_list (blk_objs k m) = w # ws"
  shows "winv (giving_up t ms (free_one m k))" and "freed t k (free_one m k)"
proof -
  let ?K = "giving_up t (m # ms) k" and ?k1 = "pend_task_wakeup w k"
  let ?k' = "upd_task w (\<lambda>x. x\<lparr>mutex_list := m # mutex_list x\<rparr>) (upd_mutex m (\<lambda>x. x\<lparr>mutex_task := w\<rparr>) ?k1)"
  let ?K' = "giving_up t ms ?k'"
  have k': "free_one m k = ?k'" by (simp add: free_one_def e)
  note v = winvD [OF inv] and c = core_okD [OF winvD(1) [OF inv]]
  have tK: "t \<in> live ?K" using t by simp
  have m: "obj_type (blk_objs ?K m) = RHINO_MUTEX_OBJ_TYPE" "mutex_task (mutexes ?K m) = t"
    using own_okD(2) [OF c(3) tK, of m] by simp_all
  have mn: "m \<noteq> NULL" and pol: "blk_policy (blk_objs ?K m) = BLK_POLICY_PRI" using own_okD(3) [OF c(3) m(1)] by auto
  have tn: "t \<noteq> NULL" by (rule c(11) [OF tK])
  note o = own_okD(5) [OF c(3) m(1), unfolded m(2), OF tn]
  have ds: "m \<notin> set ms" using own_okD(1) [OF c(3) tK] by simp
  have fl: "filter (\<lambda>y. y \<noteq> m) ms = ms" using ds by (intro filter_True) auto
  have wp: "w \<in> pend_on k m" using e bl_okD(2) [OF c(2), of m] by auto
  have wt: "w \<noteq> t" using wp o by auto
  have wl: "w \<in> live k" by (rule pend_on_live [OF wp])
  have wn: "w \<noteq> NULL" using c(11) wl by simp
  have ws: "blk_obj (tasks k w) = m" "pended (task_state (tasks k w))" using wp by (simp_all add: pend_on_def)
  have wr: "w \<notin> rdy k" using ws(2) by (auto simp: rdy_def pended_def)
  have id: "t \<noteq> g_idle_task" "w \<noteq> g_idle_task" using c(6,7) wr by auto
  have wpr: "prio (tasks k w) < RHINO_CONFIG_PRI_MAX" using c(8) [of w] wl wt by simp
  have lists: "rq_ok (rdy k) k" "bl_ok (pend_on k) k" "tq_ok (timed k) k" using c(1,2) v(3) by (simp_all add: tick_ok_def)
  have an: "g_active_task k \<noteq> NULL" using v(7) by simp
  note l = wake_with_lists [OF lists(1) wr lists(2) wp lists(3) ws(1) mn ws(2) wpr an wn, of BLK_FINISH, folded wake_with_eqs]
  have tk: "tasks ?k' = (tasks k)(w := (woken BLK_FINISH (tasks k w))\<lparr>mutex_list := m # mutex_list (tasks k w)\<rparr>)"
    by (simp add: l(4) woken_def)
  let ?A = "if task_state (tasks k w) = K_PEND then insert w (rdy k) else rdy k"
  have rdy: "rdy ?k' = ?A" using wr by (auto simp: rdy_def tk woken_def simp del: upd_task_sel)
  have live: "live ?k' = live k" using wl unfolding live_def tk by (auto simp: woken_def)
  have pend: "pend_on ?k' = (pend_on k)(m := pend_on k m - {w})"
    using ws unfolding pend_on_def tk by (auto simp: woken_def pended_def fun_eq_iff)
  have timed: "timed ?k' = timed k - {w}" unfolding timed_def tk by (auto simp: woken_def)
  have fields: "b_prio (tasks ?k' u) = b_prio (tasks k u)" "suspend_count (tasks ?k' u) = suspend_count (tasks k u)"
    "tick_match (tasks ?k' u) = tick_match (tasks k u)" "prio (tasks ?k' u) = prio (tasks k u)" for u
    unfolding tk by (simp_all add: woken_def)
  have rq: "rq_ok ?A ?k'" using l(1) by (subst rq_ok_cong [where k = ?k1]) simp_all
  have bl: "bl_ok ((pend_on k)(m := pend_on k m - {w})) ?k'"
    using l(2) by (subst bl_ok_cong [where k = ?k1]) simp_all
  have tq: "tq_ok (timed k - {w}) ?k'" using l(3) by (subst tq_ok_cong [where k = ?k1]) simp_all
  have bo: "\<And>b. obj_type (blk_objs ?k' b) = obj_type (blk_objs k b)" "\<And>b. blk_policy (blk_objs ?k' b) = blk_policy (blk_objs k b)"
    by (simp_all add: l(7))
  have mx: "mutexes ?k' = (mutexes k)(m := (mutexes k m)\<lparr>mutex_task := w\<rparr>)" by simp
  have ml: "mutex_list (tasks ?K' u) = (if u = t then filter (\<lambda>y. y \<noteq> m) (mutex_list (tasks ?K u))
      else if u = w then m # mutex_list (tasks ?K u) else mutex_list (tasks ?K u))" for u
    using wt fl unfolding giving_up_sel tk by (simp add: woken_def)
  have own: "own_ok ?K'"
    by (rule own_ok_pass [OF c(3) m _ wt wn tn _ _ _ _ ml])
      (use wl o in \<open>simp_all only: giving_up_sel giving_up_sets bo live pend mx, simp_all\<close>)
  have core: "core_ok ?K'"
  proof (rule giving_up_core [OF inv own])
    show "mutex_list (tasks ?k' g_idle_task) = mutex_list (tasks k g_idle_task)" unfolding tk using id(2) by simp
  qed (use rq bl wr in \<open>auto simp only: rdy live pend fields fun_upd_apply split: if_splits\<close>)
  have "prio (tasks k u) = eff_pri ?K' u" if u: "u \<in> live k" for u
  proof (cases "u = t")
    case True
    have "eff_pri ?K' t = prio (tasks k t)"
      by (rule giving_up_own_pri [OF inv t bl _ fields(4)]) (use ds in auto)
    then show ?thesis using True by simp
  next
    case False
    have pu: "prio (tasks k u) = eff_pri ?K u" using bspec [OF v(2) [unfolded pi_ok_def], of u] u False by simp
    have mu: "m \<notin> set (mutex_list (tasks ?K u))" using own_okD(2) [OF c(3), of u m] u m(2) False by auto
    have blK: "bl_ok (pend_on k) ?K" and blK': "bl_ok ((pend_on k)(m := pend_on k m - {w})) ?K'" using c(2) bl by simp_all
    have bp: "b_prio (tasks ?K' u) = b_prio (tasks ?K u)"
      using False fields(1) [of u] by (simp only: giving_up_sel fun_upd_apply if_False)
    have pr: "prio (tasks ?K' x) = prio (tasks ?K x)" for x using fields(4) [of x] by (simp only: giving_up_sets)
    have "eff_pri ?K' u = eff_pri ?K u"
    proof (cases "u = w")
      case True
      have srt: "sorted (map (\<lambda>x. prio (tasks ?K x)) (w # ws))" using bl_okD(3) [OF c(2) pol] e by simp
      have first: "eff_pri ?K w \<le> prio (tasks ?K x)" if "x \<in> pend_on k m" for x
      proof -
        have "x = w \<or> x \<in> set ws" using that bl_okD(2) [OF c(2), of m] e by auto
        then show ?thesis using srt pu True by (auto simp: giving_up_sets(5) simp del: giving_up_sel)
      qed
      have mlw: "mutex_list (tasks ?K' w) = m # mutex_list (tasks ?K w)" using ml [of w] wt by (simp del: giving_up_sel)
      show ?thesis
        unfolding True by (rule eff_pri_first_waiter [OF blK blK' refl mlw _ _ pr first]) (use mu bp True in blast)+
    next
      case nw: False
      have mlu: "mutex_list (tasks ?K' u) = mutex_list (tasks ?K u)" using ml [of u] False nw by (simp del: giving_up_sel)
      show ?thesis
        by (rule eff_pri_cong [OF blK blK' bp])
          (unfold mlu pr, rule SUP_cong, use mu in \<open>auto simp del: giving_up_sel\<close>)
    qed
    then show ?thesis using pu by simp
  qed
  then have "pi_ok ?K'" unfolding pi_ok_def giving_up_sets live fields by simp
  moreover have ts: "tick_ok k" "susp_ok k" using v(3,4) by simp_all
  have "tick_ok ?k'"
    using ts(1) tq unfolding tick_ok_def timed unfolding tk by (auto simp: woken_def pended_def sleeping_def)
  moreover have "susp_ok ?k'"
    using ts(2) ws(2) unfolding susp_ok_def fields unfolding tk by (auto simp: woken_def suspended_def pended_def)
  moreover have "g_fault ?k' = g_fault k" "g_err_log ?k' = g_err_log k" "g_active_task ?k' = g_active_task k"
    using l(5,6) mn wn by simp_all
  ultimately show "winv (giving_up t ms (free_one m k))"
    using core v(5-7) unfolding winv_def k' giving_up_lists giving_up_sel by simp
  have "waits_same k ?k'" unfolding waits_same_def tk by (auto simp: woken_def pended_def)
  then have "eased k ?k'"
    unfolding eased_def pend timed fields bo by (simp add: subset_iff)
  then show "freed t k (free_one m k)"
    unfolding freed_def k' live rdy unfolding tk using wt by auto
qed

lemma task_mutex_free_loop_ok:
  assumes "winv (giving_up t ms k)" and "t \<in> live k"
  shows "winv (giving_up t [] (task_mutex_free_loop ms k)) \<and> freed t k (task_mutex_free_loop ms k)"
  using assms
proof (induction ms arbitrary: k)
  case (Cons m ms)
  have r: "winv (giving_up t ms (free_one m k))" "freed t k (free_one m k)"
    using free_one_drop [OF Cons.prems] free_one_pass [OF Cons.prems] by (cases "blk_list (blk_objs k m)"; blast)+
  have "t \<in> live (free_one m k)" using r(2) Cons.prems(2) by (simp add: freed_def)
  from Cons.IH [OF r(1) this] show ?case
    unfolding task_mutex_free_loop_Cons using freed_trans [OF r(2)] by blast
qed simp

lemma task_mutex_free_ok:
  assumes "winv k" and "t \<in> live k" and "t \<noteq> g_idle_task"
  shows "winv (giving_up t [] (task_mutex_free t k))" and "freed t k (task_mutex_free t k)"
  using task_mutex_free_loop_ok [OF giving_up_start [OF assms] assms(2)] assms(2)
  by (simp_all add: task_mutex_free_def live_def)

text \<open>The switch, for a task that holds nothing any more.\<close>

lemma ready_list_rm_upd_task:
  assumes "\<And>x. prio (f x) = prio x"
  shows "ready_list_rm t (upd_task t f k) = upd_task t f (ready_list_rm t k)"
  using assms by (simp add: ready_list_rm_def set_cur_list_item_def upd_task_def fault_def Let_def split: option.splits)

lemma eased_giving_up: "eased (giving_up t ms k) k' = eased k k'"
  by (auto simp: eased_def waits_same_def)

definition task_gone :: "tid \<Rightarrow> kernel \<Rightarrow> kernel \<Rightarrow> bool" where
  "task_gone t k k' \<longleftrightarrow> winv k' \<and> eased k k' \<and> live k' = live k - {t} \<and> rdy k' = rdy k - {t}"

lemma del_rdy:
  assumes inv: "winv (giving_up t [] k)" and t: "t \<in> rdy k" "t \<noteq> g_idle_task"
  shows "task_gone t k (upd_task t (\<lambda>x. x\<lparr>task_state := K_DELETED\<rparr>) (ready_list_rm t k))"
proof -
  let ?f = "\<lambda>x. x\<lparr>task_state := K_DELETED\<rparr>"
  let ?k1 = "upd_task t ?f k" and ?k2 = "ready_list_rm t (upd_task t ?f k)"
  note v = winvD [OF inv] and c = core_okD [OF winvD(1) [OF inv]]
  have tl: "t \<in> live k" by (rule rdy_live [OF t(1)])
  have tk: "tasks ?k1 = (tasks (giving_up t [] k))(t := ?f (tasks k t))" by simp
  have ts: "tick_ok k" using v(3) by simp
  have nt: "\<not> tick_head (tasks k t)" using ts t(1) by (auto simp: tick_ok_def rdy_def pended_def sleeping_def timed_def)
  have tm: "timed ?k1 = timed k" by (auto simp: timed_def)
  have tq: "tq_ok (timed ?k1) ?k1" using ts unfolding tm by (subst tq_ok_cong [where k = k]) (auto simp: tick_ok_def)
  have nn: "t \<noteq> NULL" using c(11) tl by simp
  have tr: "t \<in> rdy (giving_up t [] k)" using t(1) by simp
  note r = winv_unready [OF inv tr t(2) tk _ _ _ _ _ _ _ _ tq]
  have k2: "winv ?k2" "pend_on ?k2 = pend_on k" "waits_same (giving_up t [] k) ?k2" "rdy ?k2 = rdy k - {t}" "live ?k2 = live k - {t}"
    using r nt nn by (simp_all add: pended_def sleeping_def suspended_def)
  have "eased (giving_up t [] k) ?k2" using k2(2,3) by (simp add: eased_def) (auto simp: timed_def)
  then show ?thesis
    using k2 by (simp add: task_gone_def eased_giving_up ready_list_rm_upd_task)
qed

text \<open>A suspended or sleeping task: it leaves the tick list if it is there.\<close>

lemma del_idle_wait:
  assumes inv: "winv (giving_up t [] k)" and t: "t \<in> live k" "t \<notin> rdy k" "\<not> pended (task_state (tasks k t))"
  shows "task_gone t k (upd_task t (\<lambda>x. x\<lparr>task_state := K_DELETED\<rparr>) (tick_list_rm t k))"
proof -
  let ?f = "\<lambda>x. x\<lparr>task_state := K_DELETED\<rparr>" and ?K = "giving_up t [] k"
  let ?k = "upd_task t ?f (tick_list_rm t k)"
  note v = winvD [OF inv] and c = core_okD [OF winvD(1) [OF inv]]
  have nn: "t \<noteq> NULL" using c(11) t(1) by simp
  have id: "t \<noteq> g_idle_task" using c(6) t(2) by auto
  have tq: "tq_ok (timed k) k" using v(3) by (simp add: tick_ok_def)
  have tk: "tasks ?k = (tasks ?K)(t := ?f ((tasks k t)\<lparr>tick_head := False\<rparr>))" by (simp add: tq_rm_tasks [OF tq])
  have rdy: "rdy ?k = rdy k" and live: "live ?k = live k - {t}" and timed: "timed ?k = timed k - {t}"
    using t(2) by (auto simp: rdy_def live_def timed_def tq_rm_tasks [OF tq])
  have rq': "rq_ok (rdy ?k) ?k"
    using c(1) t(2) unfolding rdy by (subst rq_ok_cong [where k = k]) (auto simp: tq_rm_tasks [OF tq])
  have tq': "tq_ok (timed ?k) ?k"
    using tq_rm [OF tq, of t] unfolding timed by (subst tq_ok_cong [where k = "tick_list_rm t k"]) auto
  have np: "\<not> pended (task_state (tasks ?K t))" using t(3) by simp
  have fa: "g_fault ?k = g_fault ?K" using tq_rm_fault [OF tq nn] nn by simp
  note r = winv_restate [OF inv nn id np tk _ _ fa _ _ rq' tq']
  have k': "winv ?k" "pend_on ?k = pend_on k" "waits_same ?K ?k"
    using r(1-3) live by (simp_all add: pended_def sleeping_def suspended_def)
  have "eased ?K ?k" using k'(2,3) unfolding eased_def timed tk by simp
  then show ?thesis using k'(1) rdy live t(2) unfolding task_gone_def eased_giving_up by blast
qed

lemma del_wait:
  assumes inv: "winv (giving_up t [] k)" and p: "pended (task_state (tasks k t))"
  shows "task_gone t k (mutex_task_pri_reset t (upd_task t (\<lambda>x. x\<lparr>task_state := K_DELETED\<rparr>) (pend_list_rm t (tick_list_rm t k))))"
proof -
  let ?K = "giving_up t [] k" and ?b = "blk_obj (tasks k t)"
  let ?k1 = "upd_task t (\<lambda>x. x\<lparr>task_state := K_DELETED\<rparr>) (pend_list_rm t (tick_list_rm t k))"
  note v = winvD [OF inv] and c = core_okD [OF winvD(1) [OF inv]]
  have tb: "t \<in> pend_on k ?b" using p by (simp add: pend_on_def)
  have tl: "t \<in> live k" by (rule pend_on_live [OF tb])
  have nr: "t \<notin> rdy k" using p by (auto simp: rdy_def pended_def)
  have lists: "rq_ok (rdy k) k" "bl_ok (pend_on k) k" "tq_ok (timed k) k" using c(1,2) v(3) by (simp_all add: tick_ok_def)
  have nn: "t \<noteq> NULL" "?b \<noteq> NULL" "g_active_task k \<noteq> NULL" using c(10,11) tb tl v(7) by auto
  have pm: "prio (tasks k t) < RHINO_CONFIG_PRI_MAX" using c(8) [of t] tl by simp
  have l0: "left_wait t ?b K_DELETED k ?k1"
    using left_wait_lists [OF lists tb nn(1,2) pm nn(3), of "\<lambda>x. x\<lparr>task_state := K_DELETED\<rparr>" K_DELETED] by simp
  have l: "left_wait t ?b K_DELETED ?K ?k1" using l0 unfolding left_wait_def giving_up_sets by auto
  have tbK: "t \<in> pend_on ?K ?b" using tb by simp
  have st: "\<not> pended K_DELETED" "\<not> sleeping K_DELETED" "K_DELETED \<noteq> K_SEED" by (simp_all add: pended_def sleeping_def)
  have ml: "mutex_list (tasks ?K t) = []" by simp
  note r = left_wait_winv [OF inv tbK l st] and cr = left_wait_core [OF v(1) tbK l st]
  have "winv (mutex_task_pri_reset t ?k1)" "eased ?K (mutex_task_pri_reset t ?k1)" "pri_frame ?k1 (mutex_task_pri_reset t ?k1)"
    using r ml by simp_all
  moreover have "rdy ?k1 = rdy k" "live ?k1 = live k - {t}" using cr(2,3) ml by simp_all
  ultimately show ?thesis
    using nr pri_frame_sets by (auto simp: task_gone_def eased_giving_up)
qed

lemma task_del_switch_gone:
  assumes inv: "winv (giving_up t [] k)" and t: "t \<in> live k" "t \<noteq> g_idle_task"
  obtains k' where "task_del_switch t k = Some k'" "task_gone t k k'"
proof -
  have ts: "tick_ok k" using winvD(3) [OF inv] by simp
  have susp: "tick_list_rm t k = k" if st: "task_state (tasks k t) = K_SUSPENDED"
  proof -
    have "t \<notin> timed k" using ts st by (auto simp: tick_ok_def pended_def sleeping_def)
    then show ?thesis by (simp add: tick_list_rm_def timed_def)
  qed
  have r: "task_gone t k (upd_task t (\<lambda>x. x\<lparr>task_state := K_DELETED\<rparr>) (ready_list_rm t k))" if "task_state (tasks k t) = K_RDY"
    by (rule del_rdy [OF inv _ t(2)]) (simp add: rdy_def that)
  have i: "task_gone t k (upd_task t (\<lambda>x. x\<lparr>task_state := K_DELETED\<rparr>) (tick_list_rm t k))"
    if "task_state (tasks k t) \<in> {K_SUSPENDED, K_SLEEP, K_SLEEP_SUSPENDED}"
    by (rule del_idle_wait [OF inv t(1)]) (use that in \<open>auto simp: rdy_def pended_def\<close>)
  have p: "task_gone t k (mutex_task_pri_reset t (upd_task t (\<lambda>x. x\<lparr>task_state := K_DELETED\<rparr>) (pend_list_rm t (tick_list_rm t k))))"
    if "task_state (tasks k t) \<in> {K_PEND, K_PEND_SUSPENDED}"
    by (rule del_wait [OF inv]) (use that in \<open>auto simp: pended_def\<close>)
  show ?thesis
  proof (cases "task_state (tasks k t)")
    case K_RDY
    show ?thesis by (rule that [OF _ r [OF K_RDY]]) (simp add: task_del_switch_def K_RDY)
  next
    case K_PEND
    show ?thesis by (rule that [OF _ p]) (simp_all add: task_del_switch_def K_PEND)
  next
    case K_PEND_SUSPENDED
    show ?thesis by (rule that [OF _ p]) (simp_all add: task_del_switch_def K_PEND_SUSPENDED)
  next
    case K_SUSPENDED
    show ?thesis by (rule that [OF _ i]) (simp_all add: task_del_switch_def K_SUSPENDED susp)
  next
    case K_SLEEP
    show ?thesis by (rule that [OF _ i]) (simp_all add: task_del_switch_def K_SLEEP)
  next
    case K_SLEEP_SUSPENDED
    show ?thesis by (rule that [OF _ i]) (simp_all add: task_del_switch_def K_SLEEP_SUSPENDED)
  qed (use t(1) in \<open>simp_all add: live_def\<close>)
qed

text \<open>From a working state on, in task context.\<close>

lemma task_del_core:
  assumes inv: "kpre k" and t: "t \<in> live k" "t \<noteq> g_idle_task" and cpu: "g_intrpt_nested_level k = 0"
    and a: "t = g_active_task k \<longrightarrow> g_sched_lock k = 0"
  shows "\<exists>k'. task_del_switch t (task_mutex_free t k) = Some k' \<and> kinv (core_sched k') \<and> live k' = live k - {t}"
proof -
  note f = task_mutex_free_ok [OF kpreD(1) [OF inv] t]
  have fl: "live (task_mutex_free t k) = live k" "eased k (task_mutex_free t k)" "rdy k \<subseteq> rdy (task_mutex_free t k)"
    using f(2) by (simp_all add: freed_def)
  obtain k' where k': "task_del_switch t (task_mutex_free t k) = Some k'" "task_gone t (task_mutex_free t k) k'"
    using task_del_switch_gone [OF f(1)] t fl(1) by auto
  have e: "eased k k'" using k'(2) eased_trans [OF fl(2)] by (simp add: task_gone_def)
  have "kinv (core_sched k')"
  proof (rule kinv_core_sched)
    show "winv k'" using k'(2) by (simp add: task_gone_def)
    show "tick_pos k'" using inv easedD(12,14) [OF e] by (auto simp: kpre_def tick_pos_def)
    show "objs_inv k'" by (rule eased_objs_inv [OF e]) (use inv in \<open>simp add: kpre_def\<close>)
    show "g_sys_stat k' = RHINO_RUNNING" using inv easedD(1) [OF e] by (simp add: kpre_def)
    show rd: "g_active_task k' \<in> rdy k'" if "g_sched_lock k' \<noteq> 0"
      using that inv easedD(2,4) [OF e] a fl(3) k'(2) by (auto simp: kpre_def task_gone_def)
    show "g_active_task k' \<in> live k'" if "g_intrpt_nested_level k' \<noteq> 0 \<or> g_sched_lock k' \<noteq> 0"
      using that rd rdy_live easedD(3) [OF e] cpu by auto
  qed
  then show ?thesis using k' fl(1) by (auto simp: task_gone_def)
qed

lemma task_del_kinv:
  assumes inv: "kinv k" and t: "task = NULL \<or> task \<in> live k"
  shows "kinv (snd (krhino_task_del task k))"
proof -
  define t where "t = (if task = NULL then g_active_task k else task)"
  have tl: "t \<in> live k" using t kinvD(4) [OF inv] by (auto simp: t_def sched_ok_def)
  show ?thesis
  proof (cases "0 < g_intrpt_nested_level k \<or> prio (tasks k t) = RHINO_IDLE_PRI \<or>
      task_mm_alloc_flag (tasks k t) \<noteq> K_OBJ_STATIC_ALLOC \<or> t = g_active_task k \<and> 0 < g_sched_lock k")
    case True
    then show ?thesis using inv by (auto simp: krhino_task_del_def Let_def t_def)
  next
    case False
    then obtain k' where "task_del_switch t (task_mutex_free t k) = Some k'" "kinv (core_sched k')"
      using task_del_core [OF kinv_kpre [OF inv] tl] idle_prio [OF inv] by (auto simp: word_greater_zero_iff)
    then show ?thesis using False by (auto simp: krhino_task_del_def Let_def t_def [symmetric])
  qed
qed

text \<open>Handing the memory of a deleted task over, with the scheduler locked.\<close>

lemma sem_give_frame:
  "g_sched_lock (snd (sem_give s False k)) = g_sched_lock k"
  "g_intrpt_nested_level (snd (sem_give s False k)) = g_intrpt_nested_level k"
  "g_sched_lock k \<noteq> 0 \<Longrightarrow> g_active_task (snd (sem_give s False k)) = g_active_task k"
  by (simp_all add: sem_give_def Let_def split: list.split) (simp add: core_sched_def word_greater_zero_iff)

lemma sem_give_live:
  assumes "kinv k"
  shows "live (snd (sem_give s False k)) = live k"
proof -
  have "live (pend_task_wakeup t k) = live k"
    if "obj_type (blk_objs k s) = RHINO_SEM_OBJ_TYPE" "blk_list (blk_objs k s) = t # ts" for t ts
    using wk.wake_first_ok(3) [OF kinvD(1) [OF assms] _ that(2)] that(1) by (simp add: quietD(12))
  then show ?thesis by (simp add: sem_give_def Let_def live_def split: list.split)
qed

lemma res_give_kpre:
  fixes t :: tid
  assumes inv: "kinv k" and cpu: "g_intrpt_nested_level k = 0" "g_sched_lock k \<noteq> - 1"
    and sem: "obj_type (blk_objs k g_res_sem) = RHINO_SEM_OBJ_TYPE" "sem_count (sems k g_res_sem) \<noteq> - 1"
  defines "k1 \<equiv> k\<lparr>g_sched_lock := g_sched_lock k + 1, g_res_list := g_res_list k @ [t]\<rparr>"
  defines "k2 \<equiv> snd (krhino_sem_give g_res_sem k1)"
  defines "k' \<equiv> k2\<lparr>g_sched_lock := g_sched_lock k2 - 1\<rparr>"
  shows "kpre k'" and "fst (krhino_sem_give g_res_sem k1) = RHINO_SUCCESS" and "live k' = live k"
    and "g_intrpt_nested_level k' = 0" and "g_sched_lock k' = g_sched_lock k" and "g_active_task k' = g_active_task k"
proof -
  have l1: "g_sched_lock k + 1 \<noteq> 0" using cpu(2) by (simp add: eq_neg_iff_add_eq_0)
  have sets: "rdy (k\<lparr>g_sched_lock := l, g_res_list := r\<rparr>) = rdy k" "live (k\<lparr>g_sched_lock := l, g_res_list := r\<rparr>) = live k" for k l r
    by (simp_all add: rdy_def live_def)
  have ss: "state_same k k1" by (simp add: state_same_def task_same_def k1_def)
  have ob: "objs_inv k1"
    using kinvD(3) [OF inv] by (intro objs_inv_state_same [OF _ ss]) (simp_all add: objs_inv_def k1_def waits_same_def)
  have k1: "kinv k1"
    using inv ob state_same_winv [OF ss] kinv_active_rdy [OF inv cpu(1)] l1
    by (simp add: kinv_def sched_ok_def) (simp add: k1_def sets)
  have g: "krhino_sem_give g_res_sem k1 = sem_give g_res_sem False k1" by (simp add: krhino_sem_give_def g_res_sem_def)
  have k2: "kinv k2" unfolding k2_def g by (rule sem_give_kinv [OF k1]) (simp add: g_res_sem_def)
  have fr: "g_sched_lock k2 = g_sched_lock k + 1" "g_intrpt_nested_level k2 = 0" "g_active_task k2 = g_active_task k"
    "live k2 = live k"
    using sem_give_frame [where s = g_res_sem and k = k1] sem_give_live [OF k1, of g_res_sem] cpu(1) l1
    unfolding k2_def g by (simp_all add: k1_def sets)
  show "fst (krhino_sem_give g_res_sem k1) = RHINO_SUCCESS"
    using sem unfolding g by (simp add: sem_give_def k1_def Let_def split: list.split)
  show "live k' = live k" "g_intrpt_nested_level k' = 0" "g_sched_lock k' = g_sched_lock k" "g_active_task k' = g_active_task k"
    using fr by (simp_all add: k'_def live_def)
  have "state_same k2 k'" by (simp add: state_same_def task_same_def k'_def)
  moreover have "objs_inv k'"
    using kinvD(3) [OF k2] by (intro objs_inv_state_same [OF _ calculation]) (simp_all add: objs_inv_def k'_def waits_same_def)
  moreover have "rdy k' = rdy k2" "live k' = live k2" by (simp_all add: rdy_def live_def k'_def)
  ultimately show "kpre k'"
    using k2 state_same_winv kinv_active_rdy [OF k2 fr(2)] by (auto simp: kpre_def kinv_def sched_ok_def k'_def)
qed

lemma task_dyn_del_kinv:
  assumes inv: "kinv k" and t: "task = NULL \<or> task \<in> live k"
    and res: "obj_type (blk_objs k g_res_sem) = RHINO_SEM_OBJ_TYPE" "sem_count (sems k g_res_sem) \<noteq> - 1" "g_sched_lock k \<noteq> - 1"
  shows "kinv (snd (krhino_task_dyn_del task k))"
proof -
  define t where "t = (if task = NULL then g_active_task k else task)"
  have tl: "t \<in> live k" using t kinvD(4) [OF inv] by (auto simp: t_def sched_ok_def)
  show ?thesis
  proof (cases "0 < g_intrpt_nested_level k \<or> prio (tasks k t) = RHINO_IDLE_PRI \<or>
      task_mm_alloc_flag (tasks k t) \<noteq> K_OBJ_DYN_ALLOC \<or> t = g_active_task k \<and> 0 < g_sched_lock k \<or>
      task_state (tasks k t) = K_DELETED")
    case True
    then show ?thesis using inv by (auto simp: krhino_task_dyn_del_def Let_def t_def)
  next
    case False
    define k1 where "k1 = k\<lparr>g_sched_lock := g_sched_lock k + 1, g_res_list := g_res_list k @ [t]\<rparr>"
    obtain ret k2 where k2: "krhino_sem_give g_res_sem k1 = (ret, k2)" by fastforce
    have n0: "g_intrpt_nested_level k = 0" using False by (simp add: word_greater_zero_iff)
    note r = res_give_kpre [OF inv n0 res(3,1,2), of t, folded k1_def, unfolded k2 fst_conv snd_conv]
    have id: "t \<noteq> g_idle_task" using False idle_prio [OF inv] by auto
    obtain k' where "task_del_switch t (task_mutex_free t (k2\<lparr>g_sched_lock := g_sched_lock k2 - 1\<rparr>)) = Some k'"
      "kinv (core_sched k')"
      using task_del_core [OF r(1), of t] tl r(3-6) id False by (auto simp: word_greater_zero_iff)
    then show ?thesis
      using False k2 r(2) by (auto simp: krhino_task_dyn_del_def Let_def t_def [symmetric] k1_def)
  qed
qed

section \<open>The invariant: setters\<close>

lemma kinv_upd_task:
  assumes inv: "kinv k" and t: "t \<noteq> NULL"
    and f: "\<And>x. task_same (f x) x \<and> pend_info (f x) = pend_info x \<and> task_msg (f x) = task_msg x \<and>
      pend_option (f x) = pend_option x \<and> pend_flags (f x) = pend_flags x"
  shows "kinv (upd_task t f k)"
  by (rule kinv_state_same [OF inv state_same_upd_task [OF t]])
    (use f in \<open>simp_all add: waits_same_def task_same_def\<close>)

lemma task_setters_kinv:
  assumes "kinv k"
  shows "kinv (snd (krhino_task_time_slice_set task n k))" and "kinv (snd (krhino_sched_policy_set task policy k))"
    and "kinv (snd (krhino_sched_policy_get task p k))" and "kinv (snd (krhino_task_info_set task idx info k))"
    and "kinv (snd (krhino_task_info_get task idx p k))"
  using assms
  by (auto simp: krhino_task_time_slice_set_def krhino_sched_policy_set_def krhino_sched_policy_get_def
      krhino_task_info_set_def krhino_task_info_get_def task_same_def Let_def
      intro!: kinv_upd_task kinv_store_bytes kinv_store32)

end
