(* ===== verification/Rhino_Sys.thy ===== *)
theory Rhino_Sys
  imports Rhino_Task
begin

text \<open>
  Start of the system, interrupts and the tick handler (\<^verbatim>\<open>k_sys.c\<close>, \<^verbatim>\<open>k_time.c\<close>), the task that
  frees the memory of deleted tasks (\<^verbatim>\<open>k_dyn_mem_proc.c\<close>), and the invariant for these and for the
  scheduler calls of \<^verbatim>\<open>k_sched.c\<close>.
\<close>

section \<open>Interrupts and the tick handler\<close>

definition krhino_intrpt_enter :: "kernel \<Rightarrow> kstat \<times> kernel" where
  "krhino_intrpt_enter k =
     (if g_intrpt_nested_level k \<ge> RHINO_CONFIG_INTRPT_MAX_NESTED_LEVEL
      then (RHINO_INTRPT_NESTED_LEVEL_OVERFLOW, k_err_proc RHINO_INTRPT_NESTED_LEVEL_OVERFLOW k)
      else (RHINO_SUCCESS, k\<lparr>g_intrpt_nested_level := g_intrpt_nested_level k + 1\<rparr>))"

text \<open>The switch at the end of an interrupt runs the preferred task, as \<^verbatim>\<open>cpu_task_switch\<close> does.\<close>

definition cpu_intrpt_switch :: "kernel \<Rightarrow> kernel" where
  "cpu_intrpt_switch k = k\<lparr>g_active_task := g_preferred_ready_task k\<rparr>"

definition krhino_intrpt_exit :: "kernel \<Rightarrow> kernel" where
  "krhino_intrpt_exit k =
     (let k = (if g_intrpt_nested_level k = 0 then k_err_proc RHINO_INV_INTRPT_NESTED_LEVEL k else k);
          k = k\<lparr>g_intrpt_nested_level := g_intrpt_nested_level k - 1\<rparr>
      in if g_intrpt_nested_level k > 0 then k
         else if g_sched_lock k > 0 then k
         else
           let k = preferred_cpu_ready_task_get k
           in if g_preferred_ready_task k = g_active_task k then k else cpu_intrpt_switch k)"

definition krhino_tick_proc :: "kernel \<Rightarrow> kernel" where
  "krhino_tick_proc k =
     (let k = tick_list_update k
      in if g_active_task k = NULL then fault k
         else time_slice_update (prio (tasks k (g_active_task k))) k)"

section \<open>Start\<close>

definition RHINO_CONFIG_USER_PRI_MAX :: nat where
  "RHINO_CONFIG_USER_PRI_MAX = RHINO_CONFIG_PRI_MAX - 2"

definition RHINO_CONFIG_K_DYN_MEM_TASK_PRI :: nat where
  "RHINO_CONFIG_K_DYN_MEM_TASK_PRI = RHINO_CONFIG_USER_PRI_MAX"

definition RHINO_CONFIG_K_DYN_TASK_STACK :: nat where
  "RHINO_CONFIG_K_DYN_TASK_STACK = 256"

definition RHINO_CONFIG_IDLE_TASK_STACK_SIZE :: nat where
  "RHINO_CONFIG_IDLE_TASK_STACK_SIZE = 100"

lemmas [konst] =
  RHINO_CONFIG_USER_PRI_MAX_def RHINO_CONFIG_K_DYN_MEM_TASK_PRI_def RHINO_CONFIG_K_DYN_TASK_STACK_def
  RHINO_CONFIG_IDLE_TASK_STACK_SIZE_def

text \<open>
  The globals before \<^verbatim>\<open>krhino_init\<close>: all zero. The addresses of the names, of the stack of the idle
  task and of the two task functions are constants other than \<open>NULL\<close>.
\<close>

definition zeroed_ringbuf :: k_ringbuf where
  "zeroed_ringbuf = \<lparr>rb_mem = [], rb_head = 0, rb_tail = 0, freesize = 0, rb_type = 0, blk_size = 0\<rparr>"

definition zeroed_kernel :: kernel where
  "zeroed_kernel =
     \<lparr>g_sys_stat = RHINO_SUCCESS, g_idle_task_spawned = 0, cur_list_item = (\<lambda>_. []),
      task_bit_map = replicate NUM_WORDS 0, highest_pri = 0, g_sched_lock = 0, g_intrpt_nested_level = 0,
      g_preferred_ready_task = NULL, g_active_task = NULL, g_tick_count = 0, g_tick_head = [],
      g_sys_time_tick = 0, tasks = (\<lambda>_. zeroed_task),
      blk_objs = (\<lambda>_. \<lparr>blk_list = [], blk_policy = BLK_POLICY_PRI, obj_type = RHINO_OBJ_TYPE_NONE\<rparr>),
      mutexes = (\<lambda>_. \<lparr>mutex_task = NULL, owner_nested = 0, mutex_mm_alloc_flag = 0\<rparr>),
      sems = (\<lambda>_. \<lparr>sem_count = 0, sem_peak_count = 0, sem_mm_alloc_flag = 0\<rparr>),
      events = (\<lambda>_. \<lparr>event_flags = 0, event_mm_alloc_flag = 0\<rparr>),
      queues = (\<lambda>_. \<lparr>q_ringbuf = zeroed_ringbuf, q_size = 0, q_cur_num = 0, q_peak_num = 0, queue_mm_alloc_flag = 0\<rparr>),
      buf_queues = (\<lambda>_. \<lparr>bq_ringbuf = zeroed_ringbuf, max_msg_size = 0, bq_cur_num = 0, bq_peak_num = 0,
        min_free_buf_size = 0, bq_mm_alloc_flag = 0\<rparr>),
      g_res_list = [], mem = (\<lambda>_. 0), g_err_log = [], g_fault = False\<rparr>"

definition const_addr :: addr where
  "const_addr = 1"

text \<open>The arguments are the two addresses the allocator returns and the address of the local variable.\<close>

definition dyn_mem_proc_task_start :: "addr \<Rightarrow> tid \<Rightarrow> u32 \<Rightarrow> kernel \<Rightarrow> kernel" where
  "dyn_mem_proc_task_start task_stack task_obj dyn_mem_task k =
     snd (krhino_task_dyn_create task_stack task_obj dyn_mem_task const_addr RHINO_CONFIG_K_DYN_MEM_TASK_PRI
       0 RHINO_CONFIG_K_DYN_TASK_STACK const_addr 1 k)"

definition krhino_init :: "addr \<Rightarrow> tid \<Rightarrow> u32 \<Rightarrow> kernel \<Rightarrow> kstat \<times> kernel" where
  "krhino_init task_stack task_obj dyn_mem_task k =
     (let k = k\<lparr>g_sys_stat := RHINO_STOPPED\<rparr>;
          k = runqueue_init k;
          k = tick_list_init k;
          k = k\<lparr>g_res_list := []\<rparr>;
          k = snd (krhino_sem_create g_res_sem const_addr 0 k);
          k = dyn_mem_proc_task_start task_stack task_obj dyn_mem_task k;
          k = snd (krhino_task_create g_idle_task const_addr RHINO_IDLE_PRI 0 const_addr
                RHINO_CONFIG_IDLE_TASK_STACK_SIZE const_addr 1 k)
      in (RHINO_SUCCESS, k))"

text \<open>\<^verbatim>\<open>cpu_first_task_start\<close> does not return: from here on the system is running.\<close>

definition krhino_start :: "kernel \<Rightarrow> outcome \<times> kernel" where
  "krhino_start k =
     (if g_sys_stat k = RHINO_STOPPED then
        let k = preferred_cpu_ready_task_get k;
            k = k\<lparr>g_active_task := g_preferred_ready_task k\<rparr>;
            k = k\<lparr>g_sys_stat := RHINO_RUNNING\<rparr>
        in (Blocked, k)
      else (Ret RHINO_RUNNING, k))"

text \<open>
  The inner loop of \<^verbatim>\<open>dyn_mem_proc_task\<close>, after its semaphore was taken: the records on the list
  are taken off one by one, and the stack and the control block they name are freed. The
  result is the tasks whose memory is freed, in order.
\<close>

function dyn_mem_proc_drain :: "kernel \<Rightarrow> tid list \<times> kernel" where
  "dyn_mem_proc_drain k =
     (case g_res_list k of
        [] \<Rightarrow> ([], k)
      | t # ts \<Rightarrow>
          let (freed_tasks, k) = dyn_mem_proc_drain (k\<lparr>g_res_list := ts\<rparr>)
          in (t # freed_tasks, k))"
  by pat_completeness auto
termination
  by (relation "measure (\<lambda>k. length (g_res_list k))") auto

declare dyn_mem_proc_drain.simps [simp del]

section \<open>The invariant: scheduler calls and interrupts\<close>

lemma kinv_fields:
  assumes "kinv k" and "tasks k' = tasks k" "blk_objs k' = blk_objs k" "mutexes k' = mutexes k"
    "cur_list_item k' = cur_list_item k" "task_bit_map k' = task_bit_map k" "highest_pri k' = highest_pri k"
    "g_tick_head k' = g_tick_head k" "g_tick_count k' = g_tick_count k" "g_fault k' = g_fault k" "g_err_log k' = g_err_log k"
    "g_active_task k' = g_active_task k" "sems k' = sems k" "queues k' = queues k" "buf_queues k' = buf_queues k"
    "g_sys_stat k' = g_sys_stat k" "events k' = events k"
  shows "winv k'" and "tick_pos k'" and "objs_inv k'" and "rdy k' = rdy k" and "live k' = live k" and "top_task k' = top_task k"
proof -
  have s: "state_same k k'" using assms by (simp add: state_same_def task_same_def)
  show "winv k'" "tick_pos k'" using kinvD(1,2) [OF assms(1)] state_same_winv [OF s] by simp_all
  show "objs_inv k'"
    using assms kinvD(3) [OF assms(1)]
    by (intro objs_inv_state_same [OF _ s]) (simp_all add: objs_inv_def waits_same_tasks)
  show "rdy k' = rdy k" "live k' = live k" "top_task k' = top_task k" by (simp_all add: state_same_sets [OF s])
qed

lemma below_inc:
  fixes x :: u8
  assumes "x < c"
  shows "x + 1 \<noteq> 0"
  using assms by (metis eq_neg_iff_add_eq_0 leD word_n1_ge)

lemma sched_disable_kinv:
  assumes inv: "kinv k"
  shows "kinv (snd (krhino_sched_disable k))"
proof (cases "g_intrpt_nested_level k = 0 \<and> g_sched_lock k < SCHED_MAX_LOCK_COUNT")
  case True
  have "g_active_task k \<in> rdy k" by (rule kinv_active_rdy [OF inv]) (simp add: True)
  moreover have "g_sched_lock k + 1 \<noteq> 0" using below_inc [of "g_sched_lock k" SCHED_MAX_LOCK_COUNT] True by blast
  moreover have "\<not> SCHED_MAX_LOCK_COUNT \<le> g_sched_lock k" using True by (simp add: not_le)
  ultimately show ?thesis
    using True kinvD(4) [OF inv] kinv_fields [OF inv, of "k\<lparr>g_sched_lock := g_sched_lock k + 1\<rparr>"]
    by (simp add: krhino_sched_disable_def kinv_def sched_ok_def)
next
  case False
  then show ?thesis using inv by (auto simp: krhino_sched_disable_def word_greater_zero_iff not_less)
qed

lemma sched_enable_kinv:
  assumes inv: "kinv k"
  shows "kinv (snd (krhino_sched_enable k))"
proof (cases "0 < g_intrpt_nested_level k \<or> g_sched_lock k = 0")
  case True
  then show ?thesis using inv by (auto simp: krhino_sched_enable_def)
next
  case False
  let ?k = "k\<lparr>g_sched_lock := g_sched_lock k - 1\<rparr>"
  have a: "g_active_task k \<in> rdy k" by (rule kinv_active_rdy [OF inv]) (use False in \<open>simp add: word_greater_zero_iff\<close>)
  note f = kinv_fields [OF inv, of ?k, simplified]
  have "kpre ?k" using f a kinvD(4) [OF inv] by (simp add: kpre_def sched_ok_def)
  then have "kinv (core_sched ?k)" by (rule kpre_core_sched)
  moreover have "kinv ?k" if "g_sched_lock k - 1 \<noteq> 0"
    using that f a kinvD(4) [OF inv] by (simp add: kinv_def sched_ok_def)
  ultimately show ?thesis
    using False by (cases "g_sched_lock k = 1") (simp_all add: krhino_sched_enable_def word_greater_zero_iff Let_def)
qed

lemma intrpt_enter_kinv:
  assumes inv: "kinv k" and n: "g_intrpt_nested_level k < RHINO_CONFIG_INTRPT_MAX_NESTED_LEVEL"
  shows "kinv (snd (krhino_intrpt_enter k))" and "g_intrpt_nested_level (snd (krhino_intrpt_enter k)) \<noteq> 0"
proof -
  let ?k = "k\<lparr>g_intrpt_nested_level := g_intrpt_nested_level k + 1\<rparr>"
  have nz: "g_intrpt_nested_level k + 1 \<noteq> 0" by (rule below_inc [OF n])
  have e: "snd (krhino_intrpt_enter k) = ?k" using n by (simp add: krhino_intrpt_enter_def not_le)
  show "kinv (snd (krhino_intrpt_enter k))"
    using kinv_fields [OF inv, of ?k] kinvD(4) [OF inv] nz unfolding e by (simp add: kinv_def sched_ok_def)
  show "g_intrpt_nested_level (snd (krhino_intrpt_enter k)) \<noteq> 0" using nz unfolding e by simp
qed

text \<open>The end of an interrupt schedules as a call does.\<close>

lemma intrpt_exit_sched:
  "g_intrpt_nested_level k \<noteq> 0 \<Longrightarrow>
    krhino_intrpt_exit k = core_sched (k\<lparr>g_intrpt_nested_level := g_intrpt_nested_level k - 1\<rparr>)"
  by (simp add: krhino_intrpt_exit_def core_sched_def cpu_intrpt_switch_def cpu_task_switch_def Let_def)

lemma intrpt_exit_kinv:
  assumes inv: "kinv k" and n: "g_intrpt_nested_level k \<noteq> 0"
  shows "kinv (krhino_intrpt_exit k)"
proof -
  let ?k = "k\<lparr>g_intrpt_nested_level := g_intrpt_nested_level k - 1\<rparr>"
  have "kpre ?k"
    using kinv_fields [OF inv, of ?k] kinvD(4) [OF inv] by (simp add: kpre_def sched_ok_def)
  then show ?thesis using kpre_core_sched by (simp add: intrpt_exit_sched [OF n])
qed

section \<open>The invariant: the tick\<close>

lemma time_slice_update_kinv:
  assumes inv: "kinv k" and n: "g_intrpt_nested_level k \<noteq> 0"
  shows "kinv (time_slice_update p k)"
proof (cases "cur_list_item k p")
  case Nil
  then show ?thesis using inv by (simp add: time_slice_update_def)
next
  case (Cons t ts)
  note c = core_okD [OF kinvD(5) [OF inv]]
  have t: "t \<in> rdy k" "prio (tasks k t) = p" using rq_ok_mem [OF c(1), of t p] Cons by simp_all
  have nn: "t \<noteq> NULL" by (rule c(11) [OF rdy_live [OF t(1)]])
  let ?k0 = "if 0 < task_time_slice (tasks k t) then upd_task t (\<lambda>x. x\<lparr>task_time_slice := task_time_slice x - 1\<rparr>) k else k"
  have k0: "kinv ?k0" using inv by (auto intro!: kinv_upd_task nn simp: task_same_def)
  have cur: "cur_list_item ?k0 (prio (tasks ?k0 t)) \<noteq> []" using Cons t(2) by simp
  note r = rq_head_to_tail [OF core_okD(1) [OF kinvD(5) [OF k0]] cur]
  have "kpre (ready_list_head_to_tail t ?k0)"
    by (rule kpre_requeue [OF kinv_kpre [OF k0] r(1)]) (simp_all add: r(2))
  then have "kinv (ready_list_head_to_tail t ?k0)" by (rule kpre_kinv) (use n in simp)
  then have "kinv (upd_task t (\<lambda>x. x\<lparr>task_time_slice := time_total x\<rparr>) (ready_list_head_to_tail t ?k0))"
    by (intro kinv_upd_task nn) (simp_all add: task_same_def)
  then show ?thesis using inv k0 Cons by (simp add: time_slice_update_def Let_def)
qed

lemma tick_proc_kinv:
  assumes inv: "kinv k" and n: "g_intrpt_nested_level k \<noteq> 0"
  shows "kinv (krhino_tick_proc k)"
proof -
  note t = tick_list_update_ok [OF kinv_kpre [OF inv]]
  have k: "kinv (tick_list_update k)" by (rule tick_list_update_kinv [OF inv n])
  have "g_active_task (tick_list_update k) \<noteq> NULL" by (rule winvD(7) [OF kinvD(1) [OF k]])
  then show ?thesis using time_slice_update_kinv [OF k] n t(2) by (simp add: krhino_tick_proc_def Let_def)
qed

section \<open>Before the start\<close>

text \<open>
  Between \<^verbatim>\<open>krhino_init\<close> and \<^verbatim>\<open>krhino_start\<close> the application creates its first tasks and objects.
  \<open>boot k\<close> is the invariant of this phase: nothing runs, nobody waits.
\<close>

definition boot :: "kernel \<Rightarrow> bool" where
  "boot k \<longleftrightarrow> rq_ok (rdy k) k \<and> finite (live k) \<and> NULL \<notin> live k \<and>
     (\<forall>t \<in> live k. \<exists>pri ticks run flag. tasks k t = new_task pri ticks run flag \<and> pri < RHINO_CONFIG_PRI_MAX) \<and>
     (\<forall>t. t \<notin> live k \<longrightarrow> task_state (tasks k t) = K_SEED \<and> \<not> tick_head (tasks k t)) \<and> g_tick_head k = [] \<and>
     (\<forall>b. blk_list (blk_objs k b) = [] \<and>
        (obj_type (blk_objs k b) = RHINO_OBJ_TYPE_NONE \<or> obj_type (blk_objs k b) = RHINO_SEM_OBJ_TYPE)) \<and>
     \<not> g_fault k \<and> g_err_log k = [] \<and> g_sys_stat k = RHINO_STOPPED \<and> g_sched_lock k = 0 \<and> g_intrpt_nested_level k = 0"

lemma bootD:
  assumes "boot k"
  shows "rq_ok (rdy k) k" and "finite (live k)" and "NULL \<notin> live k"
    and "t \<in> live k \<Longrightarrow> \<exists>pri ticks run flag. tasks k t = new_task pri ticks run flag \<and> pri < RHINO_CONFIG_PRI_MAX"
    and "t \<notin> live k \<Longrightarrow> task_state (tasks k t) = K_SEED \<and> \<not> tick_head (tasks k t)" and "g_tick_head k = []"
    and "blk_list (blk_objs k b) = []"
    and "obj_type (blk_objs k b) = RHINO_OBJ_TYPE_NONE \<or> obj_type (blk_objs k b) = RHINO_SEM_OBJ_TYPE"
    and "\<not> g_fault k" and "g_err_log k = []" and "g_sys_stat k = RHINO_STOPPED" and "g_sched_lock k = 0"
    and "g_intrpt_nested_level k = 0"
  using assms unfolding boot_def by blast+

lemma boot_same:
  assumes "boot k" and "tasks k' = tasks k" "cur_list_item k' = cur_list_item k" "task_bit_map k' = task_bit_map k"
    "highest_pri k' = highest_pri k" "g_tick_head k' = g_tick_head k"
    "\<And>b. blk_list (blk_objs k' b) = [] \<and>
      (obj_type (blk_objs k' b) = RHINO_OBJ_TYPE_NONE \<or> obj_type (blk_objs k' b) = RHINO_SEM_OBJ_TYPE)"
    "g_fault k' = g_fault k" "g_err_log k' = g_err_log k" "g_sys_stat k' = g_sys_stat k" "g_sched_lock k' = g_sched_lock k"
    "g_intrpt_nested_level k' = g_intrpt_nested_level k"
  shows "boot k'"
proof -
  have sets: "rdy k' = rdy k" "live k' = live k" by (simp_all add: rdy_def live_def assms(2))
  have "rq_ok (rdy k) k' = rq_ok (rdy k) k" by (rule rq_ok_cong) (simp_all add: assms)
  then show ?thesis using assms unfolding boot_def sets by simp
qed

lemma boot_sem_create:
  assumes "boot k"
  shows "boot (snd (krhino_sem_create sem name count k))"
  by (rule boot_same [OF assms])
    (use bootD [OF assms] in \<open>auto simp: krhino_sem_create_def sem_create_def Let_def\<close>)

lemma boot_store32: "boot k \<Longrightarrow> a \<noteq> 0 \<Longrightarrow> boot (store32 a v k)"
  by (rule boot_same) (use bootD in auto)

lemma boot_task_create:
  assumes inv: "boot k" and t: "task \<notin> live k"
  shows "boot (snd (task_create task name pri ticks stack_buf stack_size entry autorun flag k))"
    and "fst (task_create task name pri ticks stack_buf stack_size entry autorun flag k) = RHINO_SUCCESS \<Longrightarrow>
      tasks (snd (task_create task name pri ticks stack_buf stack_size entry autorun flag k)) =
        (tasks k)(task := new_task pri ticks (0 < autorun) flag)"
    and "fst (task_create task name pri ticks stack_buf stack_size entry autorun flag k) \<noteq> RHINO_SUCCESS \<Longrightarrow>
      snd (task_create task name pri ticks stack_buf stack_size entry autorun flag k) = k"
proof -
  note b = bootD [OF inv]
  let ?r = "task_create task name pri ticks stack_buf stack_size entry autorun flag k"
  have "boot (snd ?r) \<and> (fst ?r = RHINO_SUCCESS \<longrightarrow> tasks (snd ?r) = (tasks k)(task := new_task pri ticks (0 < autorun) flag)) \<and>
    (fst ?r \<noteq> RHINO_SUCCESS \<longrightarrow> snd ?r = k)"
  proof (cases "task = NULL \<or> name = NULL \<or> entry = NULL \<or> stack_buf = NULL \<or> stack_size = 0 \<or>
      RHINO_CONFIG_PRI_MAX \<le> pri \<or> 0 < g_intrpt_nested_level k \<or> pri = RHINO_IDLE_PRI \<and> 0 < g_idle_task_spawned k")
    case True
    then show ?thesis using inv by (auto simp: task_create_def)
  next
    case False
    then have g: "task \<noteq> NULL" "name \<noteq> NULL" "entry \<noteq> NULL" "stack_buf \<noteq> NULL" "stack_size \<noteq> 0" "pri < RHINO_CONFIG_PRI_MAX"
      "g_intrpt_nested_level k = 0" "pri = RHINO_IDLE_PRI \<longrightarrow> g_idle_task_spawned k = 0"
      by (simp_all only: not_le word_greater_zero_iff de_Morgan_disj) simp_all
    define k0 where "k0 = (if pri = RHINO_IDLE_PRI then k\<lparr>g_idle_task_spawned := 1\<rparr> else k)"
    define k1 where "k1 = upd_task task (\<lambda>_. new_task pri ticks (0 < autorun) flag) k0"
    define k' where "k' = (if 0 < autorun then ready_list_add_tail task k1 else k1)"
    have eq: "?r = (RHINO_SUCCESS, k')"
      using task_create_new [OF g, of ticks autorun flag] b(11) by (simp add: k1_def k0_def k'_def)
    have tk: "tasks k' = (tasks k)(task := new_task pri ticks (0 < autorun) flag)" by (simp add: k'_def k1_def k0_def)
    have nr: "task \<notin> rdy k" using t rdy_live by auto
    have rdy: "rdy k' = (if 0 < autorun then insert task (rdy k) else rdy k)" using nr by (auto simp: rdy_def tk)
    have live: "live k' = insert task (live k)" by (auto simp: live_def tk)
    have rq1: "rq_ok (rdy k) k1" using b(1) nr by (subst rq_ok_cong [where k = k]) (simp_all add: k1_def k0_def)
    have "prio (tasks k1 task) < RHINO_CONFIG_PRI_MAX" using g(6) by (simp add: k1_def)
    then have "rq_ok (rdy k') k'" using rq_add_tail [OF rq1 nr] rq1 unfolding rdy by (simp add: k'_def)
    moreover have "\<exists>p n r f. tasks k' u = new_task p n r f \<and> p < RHINO_CONFIG_PRI_MAX" if "u \<in> live k'" for u
      using b(4) [of u] that g(6) by (cases "u = task") (auto simp: live tk)
    moreover have "task_state (tasks k' u) = K_SEED \<and> \<not> tick_head (tasks k' u)" if "u \<notin> live k'" for u
      using b(5) [of u] that by (auto simp: live tk)
    moreover have "g_tick_head k' = []" "g_err_log k' = []" "g_sys_stat k' = RHINO_STOPPED" "g_sched_lock k' = 0"
      "g_intrpt_nested_level k' = 0" "\<not> g_fault k'" "blk_objs k' = blk_objs k"
      using b g(1) by (simp_all add: k'_def k1_def k0_def)
    ultimately have "boot k'" using b(2,3,7,8) g(1) by (simp add: boot_def live)
    then show ?thesis by (simp add: eq tk)
  qed
  then show "boot (snd ?r)"
    "fst ?r = RHINO_SUCCESS \<Longrightarrow> tasks (snd ?r) = (tasks k)(task := new_task pri ticks (0 < autorun) flag)"
    "fst ?r \<noteq> RHINO_SUCCESS \<Longrightarrow> snd ?r = k" by simp_all
qed

text \<open>The start makes the invariant true.\<close>

lemma boot_start:
  assumes inv: "boot k" and idle: "g_idle_task \<in> rdy k" "b_prio (tasks k g_idle_task) = RHINO_IDLE_PRI"
  shows "kinv (snd (krhino_start k))"
proof -
  note b = bootD [OF inv]
  define k' where "k' = snd (krhino_start k)"
  have tk: "tasks k' = tasks k" and fr: "cur_list_item k' = cur_list_item k" "task_bit_map k' = task_bit_map k"
    "highest_pri k' = highest_pri k" "g_tick_head k' = g_tick_head k" "blk_objs k' = blk_objs k" "mutexes k' = mutexes k"
    "g_err_log k' = g_err_log k" "g_intrpt_nested_level k' = 0" "g_sched_lock k' = 0" "g_sys_stat k' = RHINO_RUNNING"
    using b(11-13) by (simp_all add: k'_def krhino_start_def Let_def)
  have ne: "rdy k \<noteq> {}" using idle(1) by auto
  note tt = top_task [OF b(1) ne]
  have "cur_list_item k (highest_pri k) \<noteq> []" by (rule rq_okD(6) [OF b(1) ne])
  then have act: "g_active_task k' = top_task k" and fa: "g_fault k' = g_fault k"
    using b(11) by (auto simp: k'_def krhino_start_def Let_def preferred_cpu_ready_task_get_def top_task_def split: list.splits)
  have sets: "rdy k' = rdy k" "live k' = live k" by (simp_all add: rdy_def live_def tk)
  have st: "\<not> pended (task_state (tasks k t))" "\<not> sleeping (task_state (tasks k t))" "\<not> tick_head (tasks k t)"
    "t \<in> live k \<Longrightarrow> mutex_list (tasks k t) = []" "t \<in> live k \<Longrightarrow> prio (tasks k t) = b_prio (tasks k t)"
    "t \<in> live k \<Longrightarrow> prio (tasks k t) < RHINO_CONFIG_PRI_MAX" "suspended (task_state (tasks k t)) \<Longrightarrow> suspend_count (tasks k t) \<noteq> 0"
    for t
    using b(4,5) [of t] by (cases "t \<in> live k"; auto simp: pended_def sleeping_def suspended_def split: if_splits)+
  have pend: "pend_on k' = (\<lambda>_. {})" using st(1) by (auto simp: pend_on_def tk fun_eq_iff)
  have timed: "timed k' = {}" using st(3) by (simp add: timed_def tk)
  have bl: "bl_ok (pend_on k') k'" using b(7) by (simp add: bl_ok_def pend fr)
  have tq: "tq_ok (timed k') k'" using b(6) st(3) by (simp add: tq_ok_def timed fr tk)
  have rq: "rq_ok (rdy k') k'" using b(1) unfolding sets by (subst rq_ok_cong [where k = k]) (simp_all add: fr tk)
  have nm: "obj_type (blk_objs k x) \<noteq> RHINO_MUTEX_OBJ_TYPE" for x using b(8) [of x] by auto
  have own: "own_ok k'" using st(4) nm by (simp add: own_ok_def sets tk fr)
  have core: "core_ok k'"
  proof (rule core_okI)
    show "mutex_list (tasks k' g_idle_task) = []" using st(4) rdy_live [OF idle(1)] by (simp add: tk)
    show "b_prio (tasks k' t) < RHINO_CONFIG_PRI_MAX" if "t \<in> live k'" for t using st(5,6) [of t] that by (simp add: sets tk)
  qed (use rq bl own b(2,3) idle st(6) in \<open>simp_all add: sets tk pend\<close>)
  have "eff_pri k' t = b_prio (tasks k t)" if "t \<in> live k" for t
    using st(4) [OF that] by (simp add: eff_pri_def heads_min_def tk)
  then have "pi_ok k'" using st(5) by (simp add: pi_ok_def sets tk)
  moreover have "tick_ok k'" "susp_ok k'" using tq st(2,7) by (simp_all add: tick_ok_def timed susp_ok_def tk)
  moreover have "g_active_task k' \<noteq> NULL" using rdy_live [OF tt(1)] b(3) unfolding act by metis
  ultimately have w: "winv k'" using core b(9,10) by (simp add: winv_def fr fa)
  have tp: "tick_pos k'" by (simp add: tick_pos_def timed)
  have "obj_inv k' x" for x using b(8) [of x] by (auto simp: obj_inv_def fr pend)
  then have ob: "objs_inv k'" by (simp add: objs_inv_def)
  have "top_task k' = top_task k" by (rule top_task_cong) (simp_all add: fr)
  then have "sched_ok k'" using tt(1) rdy_live act by (auto simp: sched_ok_def sets fr)
  then show ?thesis using w tp ob unfolding k'_def kinv_def by simp
qed

lemma task_create_spawned:
  "pri \<noteq> RHINO_IDLE_PRI \<Longrightarrow>
    g_idle_task_spawned (snd (task_create task name pri ticks stack_buf stack_size entry autorun flag k)) = g_idle_task_spawned k"
  by (simp add: task_create_def Let_def)

lemma boot_dyn_create:
  fixes task_stack name entry :: addr and task :: u32 and pri stack :: nat and ticks :: u64 and autorun :: u8
  assumes inv: "boot k" and t: "task_obj \<notin> live k"
  defines "k' \<equiv> snd (krhino_task_dyn_create task_stack task_obj task name pri ticks stack entry autorun k)"
  shows "boot k'" and "u \<noteq> task_obj \<Longrightarrow> tasks k' u = tasks k u"
    and "pri \<noteq> RHINO_IDLE_PRI \<Longrightarrow> g_idle_task_spawned k' = g_idle_task_spawned k"
proof -
  let ?k = "store32 task (word_of_nat task_obj) k"
  let ?r = "task_create task_obj name pri ticks task_stack stack entry autorun K_OBJ_DYN_ALLOC ?k"
  have "boot k' \<and> (u \<noteq> task_obj \<longrightarrow> tasks k' u = tasks k u) \<and>
    (pri \<noteq> RHINO_IDLE_PRI \<longrightarrow> g_idle_task_spawned k' = g_idle_task_spawned k)"
  proof (cases "task = 0 \<or> stack = 0 \<or> task_stack = NULL \<or> task_obj = NULL")
    case True
    then show ?thesis using inv by (auto simp: k'_def krhino_task_dyn_create_def task_dyn_create_def)
  next
    case False
    have b: "boot ?k" using inv False by (simp add: boot_store32)
    have tl: "task_obj \<notin> live ?k" using t by (simp add: live_def)
    note c = boot_task_create [OF b tl, of name pri ticks task_stack stack entry autorun K_OBJ_DYN_ALLOC]
    have k': "k' = (if fst ?r \<noteq> RHINO_SUCCESS \<and> fst ?r \<noteq> RHINO_STOPPED then store32 task 0 (snd ?r) else snd ?r)"
      using False by (simp add: k'_def krhino_task_dyn_create_def task_dyn_create_def Let_def split: prod.split)
    have "tasks (snd ?r) u = tasks k u" if "u \<noteq> task_obj"
      using c(2,3) that by (cases "fst ?r = RHINO_SUCCESS") simp_all
    then show ?thesis
      using c(1) boot_store32 [OF c(1)] False task_create_spawned [where k = ?k] by (simp add: k')
  qed
  then show "boot k'" "u \<noteq> task_obj \<Longrightarrow> tasks k' u = tasks k u"
    "pri \<noteq> RHINO_IDLE_PRI \<Longrightarrow> g_idle_task_spawned k' = g_idle_task_spawned k" by simp_all
qed

lemma boot_zeroed:
  fixes xs :: "tid list"
  defines "k \<equiv> (tick_list_init (runqueue_init (zeroed_kernel\<lparr>g_sys_stat := RHINO_STOPPED\<rparr>)))\<lparr>g_res_list := xs\<rparr>"
  shows "boot k" and "live k = {}" and "g_idle_task_spawned k = 0"
proof -
  show "live k = {}" "g_idle_task_spawned k = 0"
    by (simp_all add: live_def k_def zeroed_kernel_def zeroed_task_def tick_list_init_def runqueue_init_def)
  moreover have "rdy k = {}"
    by (simp add: rdy_def k_def zeroed_kernel_def zeroed_task_def tick_list_init_def runqueue_init_def)
  moreover have "\<not> bitmap_test (replicate NUM_WORDS 0) p" if "p < 32 * NUM_WORDS" for p
    using that by (simp add: bitmap_test_def less_mult_imp_div_less mult.commute)
  ultimately show "boot k"
    by (simp add: boot_def rq_ok_def) (simp add: k_def zeroed_kernel_def zeroed_task_def tick_list_init_def runqueue_init_def)
qed

lemma init_boot:
  fixes task_stack :: addr and dyn_mem_task :: u32
  assumes "task_obj \<noteq> g_idle_task"
  defines "k \<equiv> snd (krhino_init task_stack task_obj dyn_mem_task zeroed_kernel)"
  shows "boot k" and "g_idle_task \<in> rdy k" and "b_prio (tasks k g_idle_task) = RHINO_IDLE_PRI"
proof -
  define k0 where "k0 = (tick_list_init (runqueue_init (zeroed_kernel\<lparr>g_sys_stat := RHINO_STOPPED\<rparr>)))\<lparr>g_res_list := []\<rparr>"
  note b0 = boot_zeroed [where xs = "[]", folded k0_def]
  define k1 where "k1 = snd (krhino_sem_create g_res_sem const_addr 0 k0)"
  have b1: "boot k1" unfolding k1_def by (rule boot_sem_create [OF b0(1)])
  have t1: "tasks k1 = tasks k0" "g_idle_task_spawned k1 = g_idle_task_spawned k0"
    by (simp_all add: k1_def krhino_sem_create_def sem_create_def Let_def)
  have l1: "live k1 = {}" using b0(2) by (simp add: live_def t1)
  define k2 where "k2 = dyn_mem_proc_task_start task_stack task_obj dyn_mem_task k1"
  have "task_obj \<notin> live k1" by (simp add: l1)
  note b2 = boot_dyn_create [OF b1 this, where task_stack = task_stack and task = dyn_mem_task and name = const_addr and
      pri = RHINO_CONFIG_K_DYN_MEM_TASK_PRI and ticks = 0 and stack = RHINO_CONFIG_K_DYN_TASK_STACK and entry = const_addr and
      autorun = 1, folded dyn_mem_proc_task_start_def, folded k2_def]
  have sp: "g_idle_task_spawned k2 = 0" using b2(3) t1 b0(3) by (simp add: konst)
  have "tasks k2 g_idle_task = tasks k1 g_idle_task" by (rule b2(2)) (use assms(1) in simp)
  then have il: "g_idle_task \<notin> live k2" using l1 by (auto simp: live_def)
  let ?r = "task_create g_idle_task const_addr RHINO_IDLE_PRI 0 const_addr RHINO_CONFIG_IDLE_TASK_STACK_SIZE const_addr 1
    K_OBJ_STATIC_ALLOC k2"
  have k: "k = snd ?r" by (simp add: k_def krhino_init_def k0_def k1_def k2_def krhino_task_create_def Let_def)
  have "fst ?r = RHINO_SUCCESS"
    using sp bootD(13) [OF b2(1)] by (subst task_create_new) (simp_all add: g_idle_task_def const_addr_def konst)
  then have "tasks k = (tasks k2)(g_idle_task := new_task RHINO_IDLE_PRI 0 (0 < (1::u8)) K_OBJ_STATIC_ALLOC)"
    unfolding k by (rule boot_task_create(2) [OF b2(1) il])
  then show "g_idle_task \<in> rdy k" "b_prio (tasks k g_idle_task) = RHINO_IDLE_PRI" by (simp_all add: rdy_def)
  show "boot k" unfolding k by (rule boot_task_create(1) [OF b2(1) il])
qed

end
