(* ===== verification/Rhino_Event.thy ===== *)
theory Rhino_Event
  imports Rhino_Inv
begin

text \<open>
  Event flags (\<^verbatim>\<open>k_event.c\<close>).
\<close>

section \<open>Operations\<close>

definition RHINO_AND :: u8 where
  "RHINO_AND = 2"

definition RHINO_AND_CLEAR :: u8 where
  "RHINO_AND_CLEAR = 3"

definition RHINO_OR :: u8 where
  "RHINO_OR = 0"

definition RHINO_OR_CLEAR :: u8 where
  "RHINO_OR_CLEAR = 1"

lemmas event_konst = RHINO_FLAGS_AND_MASK_def RHINO_FLAGS_CLEAR_MASK_def RHINO_AND_def
  RHINO_AND_CLEAR_def RHINO_OR_def RHINO_OR_CLEAR_def

definition event_create :: "oid \<Rightarrow> addr \<Rightarrow> u32 \<Rightarrow> u8 \<Rightarrow> kernel \<Rightarrow> kstat \<times> kernel" where
  "event_create event name flags mm_alloc_flag k =
     (if event = NULL then (RHINO_NULL_PTR, k)
      else if name = NULL then (RHINO_NULL_PTR, k)
      else
        let k = upd_blk event (\<lambda>x. x\<lparr>blk_list := [], blk_policy := BLK_POLICY_PRI\<rparr>) k;
            k = upd_event event (\<lambda>x. x\<lparr>event_flags := flags, event_mm_alloc_flag := mm_alloc_flag\<rparr>) k;
            k = upd_blk event (\<lambda>x. x\<lparr>obj_type := RHINO_EVENT_OBJ_TYPE\<rparr>) k
        in (RHINO_SUCCESS, k))"

definition krhino_event_create :: "oid \<Rightarrow> addr \<Rightarrow> u32 \<Rightarrow> kernel \<Rightarrow> kstat \<times> kernel" where
  "krhino_event_create event name flags k = event_create event name flags K_OBJ_STATIC_ALLOC k"

definition krhino_event_del :: "oid \<Rightarrow> kernel \<Rightarrow> kstat \<times> kernel" where
  "krhino_event_del event k =
     (if event = NULL then (RHINO_NULL_PTR, k)
      else if g_intrpt_nested_level k > 0 then (RHINO_NOT_CALLED_BY_INTRPT, k)
      else if obj_type (blk_objs k event) \<noteq> RHINO_EVENT_OBJ_TYPE then (RHINO_KOBJ_TYPE_ERR, k)
      else if event_mm_alloc_flag (events k event) \<noteq> K_OBJ_STATIC_ALLOC then (RHINO_KOBJ_DEL_ERR, k)
      else
        let k = upd_blk event (\<lambda>x. x\<lparr>obj_type := RHINO_OBJ_TYPE_NONE\<rparr>) k;
            k = wake_all pend_task_rm event k;
            k = upd_event event (\<lambda>x. x\<lparr>event_flags := 0\<rparr>) k
        in (RHINO_SUCCESS, core_sched k))"

definition krhino_event_dyn_create :: "oid \<Rightarrow> u32 \<Rightarrow> addr \<Rightarrow> u32 \<Rightarrow> kernel \<Rightarrow> kstat \<times> kernel" where
  "krhino_event_dyn_create event_obj event name flags k =
     (if event = 0 then (RHINO_NULL_PTR, k)
      else if event_obj = NULL then (RHINO_NO_MEM, k)
      else
        let (stat, k) = event_create event_obj name flags K_OBJ_DYN_ALLOC k
        in if stat \<noteq> RHINO_SUCCESS then (stat, k)
           else (stat, store32 event (word_of_nat event_obj) k))"

definition krhino_event_dyn_del :: "oid \<Rightarrow> kernel \<Rightarrow> kstat \<times> kernel" where
  "krhino_event_dyn_del event k =
     (if event = NULL then (RHINO_NULL_PTR, k)
      else if g_intrpt_nested_level k > 0 then (RHINO_NOT_CALLED_BY_INTRPT, k)
      else if obj_type (blk_objs k event) \<noteq> RHINO_EVENT_OBJ_TYPE then (RHINO_KOBJ_TYPE_ERR, k)
      else if event_mm_alloc_flag (events k event) \<noteq> K_OBJ_DYN_ALLOC then (RHINO_KOBJ_DEL_ERR, k)
      else
        let k = upd_blk event (\<lambda>x. x\<lparr>obj_type := RHINO_OBJ_TYPE_NONE\<rparr>) k;
            k = wake_all pend_task_rm event k;
            k = upd_event event (\<lambda>x. x\<lparr>event_flags := 0\<rparr>) k
        in (RHINO_SUCCESS, core_sched k))"

definition krhino_event_get ::
  "oid \<Rightarrow> u32 \<Rightarrow> u8 \<Rightarrow> u32 \<Rightarrow> u64 \<Rightarrow> kernel \<Rightarrow> outcome \<times> kernel" where
  "krhino_event_get event flags opt actl_flags ticks k =
     (if event = NULL then (Ret RHINO_NULL_PTR, k)
      else if actl_flags = 0 then (Ret RHINO_NULL_PTR, k)
      else if opt \<notin> {RHINO_AND, RHINO_OR, RHINO_AND_CLEAR, RHINO_OR_CLEAR}
      then (Ret RHINO_NO_THIS_EVENT_OPT, k)
      else if g_intrpt_nested_level k > 0 then (Ret RHINO_NOT_CALLED_BY_INTRPT, k)
      else if obj_type (blk_objs k event) \<noteq> RHINO_EVENT_OBJ_TYPE then (Ret RHINO_KOBJ_TYPE_ERR, k)
      else if flags_met opt flags (event_flags (events k event)) then
        let k = store32 actl_flags (event_flags (events k event)) k;
            k = (if opt AND RHINO_FLAGS_CLEAR_MASK \<noteq> 0
                 then upd_event event (\<lambda>x. x\<lparr>event_flags := event_flags x AND NOT flags\<rparr>) k else k)
        in (Ret RHINO_SUCCESS, k)
      else if ticks = RHINO_NO_WAIT then (Ret RHINO_NO_PEND_WAIT, k)
      else if g_sched_lock k > 0 then (Ret RHINO_SCHED_DISABLE, k)
      else
        let k = upd_task (g_active_task k)
                  (\<lambda>x. x\<lparr>pend_option := opt, pend_flags := flags, pend_info := actl_flags\<rparr>) k
        in (Blocked, core_sched (pend_to_blk_obj event (g_active_task k) ticks k)))"

text \<open>The loop of \<^verbatim>\<open>event_set\<close> over the waiting tasks; the flags compared are those at its start.\<close>

fun event_wake :: "oid \<Rightarrow> u32 \<Rightarrow> tid list \<Rightarrow> kernel \<Rightarrow> kernel" where
  "event_wake event cur_event_flags [] k = k"
| "event_wake event cur_event_flags (t # ts) k =
     (if flags_met (pend_option (tasks k t)) (pend_flags (tasks k t)) cur_event_flags then
        let k = store32 (pend_info (tasks k t)) cur_event_flags k;
            k = pend_task_wakeup t k;
            k = (if pend_option (tasks k t) AND RHINO_FLAGS_CLEAR_MASK \<noteq> 0
                 then upd_event event
                   (\<lambda>x. x\<lparr>event_flags := event_flags x AND NOT (pend_flags (tasks k t))\<rparr>) k
                 else k)
        in event_wake event cur_event_flags ts k
      else event_wake event cur_event_flags ts k)"

definition event_set :: "oid \<Rightarrow> u32 \<Rightarrow> u8 \<Rightarrow> kernel \<Rightarrow> kstat \<times> kernel" where
  "event_set event flags opt k =
     (if obj_type (blk_objs k event) \<noteq> RHINO_EVENT_OBJ_TYPE then (RHINO_KOBJ_TYPE_ERR, k)
      else if opt AND RHINO_FLAGS_AND_MASK \<noteq> 0 then
        (RHINO_SUCCESS, upd_event event (\<lambda>x. x\<lparr>event_flags := event_flags x AND flags\<rparr>) k)
      else
        let k = upd_event event (\<lambda>x. x\<lparr>event_flags := event_flags x OR flags\<rparr>) k
        in (RHINO_SUCCESS, core_sched (event_wake event (event_flags (events k event))
              (blk_list (blk_objs k event)) k)))"

definition krhino_event_set :: "oid \<Rightarrow> u32 \<Rightarrow> u8 \<Rightarrow> kernel \<Rightarrow> kstat \<times> kernel" where
  "krhino_event_set event flags opt k =
     (if event = NULL then (RHINO_NULL_PTR, k)
      else if opt \<noteq> RHINO_AND \<and> opt \<noteq> RHINO_OR then (RHINO_NO_THIS_EVENT_OPT, k)
      else event_set event flags opt k)"

section \<open>The invariant\<close>

lemma event_create_kinv:
  assumes inv: "kinv k" and fresh: "obj_type (blk_objs k event) = RHINO_OBJ_TYPE_NONE"
  shows "kinv (snd (event_create event name flags flag k))"
proof (cases "event = NULL \<or> name = NULL")
  case True
  then show ?thesis using inv by (auto simp: event_create_def)
next
  case False
  let ?k = "upd_event event (\<lambda>x. x\<lparr>event_flags := flags, event_mm_alloc_flag := flag\<rparr>) k"
  let ?f = "\<lambda>x. x\<lparr>blk_list := [], blk_policy := BLK_POLICY_PRI, obj_type := RHINO_EVENT_OBJ_TYPE\<rparr> :: blk_obj"
  have "snd (event_create event name flags flag k) = upd_blk event ?f ?k"
    by (rule kernel.equality) (use False in \<open>auto simp: event_create_def\<close>)
  moreover have "kinv (upd_blk event ?f ?k)"
    by (rule kinv_new_header [OF inv _ fresh]) (use False in \<open>auto simp: obj_inv_def\<close>)
  ultimately show ?thesis by simp
qed

lemma event_del_kinv:
  assumes "kinv k"
  shows "kinv (snd (krhino_event_del event k))" and "kinv (snd (krhino_event_dyn_del event k))"
proof -
  have "kinv (core_sched (upd_event event f (del_waiters event k)))"
    if "event \<noteq> NULL" "obj_type (blk_objs k event) = RHINO_EVENT_OBJ_TYPE" for f
    by (rule kinv_del_waiters [OF assms that(1)]) (simp_all add: that(2,1))
  then show "kinv (snd (krhino_event_del event k))" and "kinv (snd (krhino_event_dyn_del event k))"
    using assms by (auto simp: krhino_event_del_def krhino_event_dyn_del_def del_waiters_def Let_def)
qed

text \<open>Clearing flags meets no waiting task's condition that was not met before.\<close>

lemma flags_met_mono:
  assumes "flags_met opt w (f AND g)"
  shows "flags_met opt w f"
proof -
  have "f AND w = w" if "(f AND g) AND w = w"
    using that by (metis and.assoc and.commute and.idem)
  moreover have "(f AND g) AND w = 0" if "f AND w = 0"
    using that by (metis and.assoc and.commute and_zero_eq)
  ultimately show ?thesis using assms by (auto simp: flags_met_def split: if_splits)
qed

lemma event_clear_kinv:
  assumes inv: "kinv k" and e: "event \<noteq> NULL"
  shows "kinv (upd_event event (\<lambda>x. x\<lparr>event_flags := event_flags x AND g\<rparr>) k)"
proof (rule kinv_upd_event [OF inv e])
  have "\<not> flags_met opt w (event_flags (events k event) AND g)"
    if "\<not> flags_met opt w (event_flags (events k event))" for opt w
    using that flags_met_mono by blast
  then show "obj_inv (upd_event event (\<lambda>x. x\<lparr>event_flags := event_flags x AND g\<rparr>) k) event"
    using kinvD(3) [OF inv, of event] unfolding obj_inv_def by (cases "obj_type (blk_objs k event)") simp_all
qed

lemma event_get_kinv:
  assumes inv: "kinv k" and a: "ticks \<noteq> RHINO_NO_WAIT \<Longrightarrow> g_intrpt_nested_level k = 0 \<Longrightarrow> g_sched_lock k = 0 \<Longrightarrow>
      g_active_task k \<noteq> g_idle_task"
  shows "kinv (snd (krhino_event_get event flags opt actl_flags ticks k))"
proof -
  let ?k = "upd_task (g_active_task k) (\<lambda>x. x\<lparr>pend_option := opt, pend_flags := flags, pend_info := actl_flags\<rparr>) k"
  have "kinv (core_sched (pend_to_blk_obj event (g_active_task k) ticks ?k))"
    if c: "event \<noteq> NULL" "actl_flags \<noteq> 0" "g_intrpt_nested_level k = 0" "g_sched_lock k = 0" "ticks \<noteq> 0"
      "obj_type (blk_objs k event) = RHINO_EVENT_OBJ_TYPE" "\<not> flags_met opt flags (event_flags (events k event))"
  proof -
    have rdy: "g_active_task k \<in> rdy k" by (rule kinv_active_rdy [OF inv c(3)])
    have nn: "g_active_task k \<noteq> NULL" by (rule winvD(7) [OF kinvD(1) [OF inv]])
    have "kinv ?k"
      by (rule kinv_state_same [OF inv state_same_upd_task [OF nn]])
        (use rdy in \<open>auto simp: task_same_def waits_same_def rdy_def pended_def\<close>)
    then have "kinv (core_sched (pend_to_blk_obj event (g_active_task ?k) ticks ?k))"
    proof (rule kinv_block)
      fix k'
      assume "obj_type (blk_objs k' event) = obj_type (blk_objs ?k event)" and "events k' event = events ?k event"
        and p: "pend_on k' event = insert (g_active_task ?k) (pend_on ?k event)"
        and i: "\<And>t. pend_info (tasks k' t) = pend_info (tasks ?k t) \<and> task_msg (tasks k' t) = task_msg (tasks ?k t) \<and>
          pend_option (tasks k' t) = pend_option (tasks ?k t) \<and> pend_flags (tasks k' t) = pend_flags (tasks ?k t)"
      moreover have "pend_info (tasks ?k t) \<noteq> 0 \<and>
          \<not> flags_met (pend_option (tasks ?k t)) (pend_flags (tasks ?k t)) (event_flags (events k event))"
        if "t \<in> pend_on ?k event" for t
        using that kinvD(3) [OF inv, of event] c(2,6,7) by (auto simp: obj_inv_def pend_on_def)
      ultimately show "obj_inv k' event" using c(2,6,7) by (auto simp: obj_inv_def)
    qed (use a c in \<open>auto simp: RHINO_NO_WAIT_def\<close>)
    then show ?thesis by simp
  qed
  moreover have "kinv (upd_event event (\<lambda>x. x\<lparr>event_flags := event_flags x AND g\<rparr>) (store32 actl_flags v k))"
    "kinv (store32 actl_flags v k)" if "event \<noteq> NULL" "actl_flags \<noteq> 0" for g v
    using that inv by (auto intro: event_clear_kinv kinv_store32)
  ultimately show ?thesis
    using inv by (simp add: krhino_event_get_def Let_def RHINO_NO_WAIT_def word_greater_zero_iff del: insert_iff)
qed

text \<open>
  While the waiting tasks are looked at, the new flags may meet the condition of a task further down
  the list: until the end of the loop the invariant holds for all objects but the event.
\<close>

definition kpre_but :: "oid \<Rightarrow> kernel \<Rightarrow> bool" where
  "kpre_but e k \<longleftrightarrow> winv k \<and> tick_pos k \<and> (\<forall>b. b \<noteq> e \<longrightarrow> obj_inv k b) \<and> g_sys_stat k = RHINO_RUNNING \<and>
     g_active_task k \<in> live k \<and> (g_sched_lock k \<noteq> 0 \<longrightarrow> g_active_task k \<in> rdy k)"

lemma kpre_but_iff: "kpre k \<longleftrightarrow> kpre_but e k \<and> obj_inv k e"
  by (auto simp: kpre_def kpre_but_def objs_inv_def)

lemma kpre_but_same:
  assumes "kpre_but e k" and "state_same k k'" and "tasks k' = tasks k" and "sems k' = sems k"
    and "queues k' = queues k" and "buf_queues k' = buf_queues k" and "g_sys_stat k' = g_sys_stat k"
    and "g_sched_lock k' = g_sched_lock k" and "\<And>b. b \<noteq> e \<Longrightarrow> events k' b = events k b"
  shows "kpre_but e k'"
proof -
  have "obj_inv k' b" if "b \<noteq> e" for b
    by (rule obj_inv_mono [of k]) (use that assms(1,3-6) assms(9) [OF that] in
      \<open>simp_all add: kpre_but_def waits_same_tasks state_sameD(9) [OF assms(2)] state_same_sets(3) [OF assms(2)]\<close>)
  then show ?thesis
    using assms(1,7,8) state_same_winv [OF assms(2)] state_same_sets [OF assms(2)] state_sameD(18) [OF assms(2)]
    by (simp add: kpre_but_def)
qed

lemma kpre_but_wake:
  assumes "kpre_but e k" and "t \<in> pend_on k e" and "obj_type (blk_objs k e) = RHINO_EVENT_OBJ_TYPE"
  shows "kpre_but e (pend_task_wakeup t k)"
proof -
  have w: "winv k" and nm: "obj_type (blk_objs k e) \<noteq> RHINO_MUTEX_OBJ_TYPE" using assms by (simp_all add: kpre_but_def)
  note q = wk.wake_quiet [OF w assms(2) nm] and p = wk.wake_pend_on [OF w assms(2) nm]
  have "obj_inv (pend_task_wakeup t k) b" if "b \<noteq> e" for b
    by (rule obj_inv_quiet [OF q]) (use that assms(1) in \<open>simp_all add: p kpre_but_def\<close>)
  then show ?thesis
    using assms(1) wk.wake_winv [OF w assms(2) nm] tick_pos_quiet [OF q] quietD [OF q] by (auto simp: kpre_but_def)
qed

text \<open>
  The loop over the waiting tasks: those whose condition is met leave, the others keep waiting, and
  flags of the event are only cleared.
\<close>

lemma event_wake_but:
  fixes flags :: u32
  assumes "kpre_but event k" and "event \<noteq> NULL" and "obj_type (blk_objs k event) = RHINO_EVENT_OBJ_TYPE"
    and "set ts \<subseteq> pend_on k event" and "distinct ts" and "\<forall>t \<in> set ts. pend_info (tasks k t) \<noteq> 0"
  defines "met \<equiv> \<lambda>t. flags_met (pend_option (tasks k t)) (pend_flags (tasks k t)) flags"
  shows "kpre_but event (event_wake event flags ts k) \<and>
    obj_type (blk_objs (event_wake event flags ts k) event) = RHINO_EVENT_OBJ_TYPE \<and>
    pend_on (event_wake event flags ts k) event = pend_on k event - {t \<in> set ts. met t} \<and>
    waits_same k (event_wake event flags ts k) \<and>
    (\<exists>g. event_flags (events (event_wake event flags ts k) event) = event_flags (events k event) AND g)"
  using assms(1-6) unfolding met_def
proof (induction ts arbitrary: k)
  case Nil
  have "event_flags (events k event) = event_flags (events k event) AND (- 1)" by simp
  then show ?case using Nil by (auto simp: waits_same_def intro!: exI [of _ "- 1"])
next
  case (Cons t ts)
  let ?k1 = "store32 (pend_info (tasks k t)) flags k"
  let ?k2 = "pend_task_wakeup t ?k1"
  let ?m = "\<lambda>k t. flags_met (pend_option (tasks k t)) (pend_flags (tasks k t)) flags"
  show ?case
  proof (cases "?m k t")
    case False
    have "{u \<in> set (t # ts). ?m k u} = {u \<in> set ts. ?m k u}" using False by auto
    then show ?thesis using Cons False by simp
  next
    case True
    have k1: "kpre_but event ?k1" by (rule kpre_but_same [OF Cons.prems(1)]) (use Cons.prems(6) in simp_all)
    have nm: "obj_type (blk_objs ?k1 event) \<noteq> RHINO_MUTEX_OBJ_TYPE" and t: "t \<in> pend_on ?k1 event" and w: "winv ?k1"
      using Cons.prems(3,4) k1 by (simp_all add: kpre_but_def)
    note q = wk.wake_quiet [OF w t nm]
    have k2: "kpre_but event ?k2" by (rule kpre_but_wake [OF k1 t]) (use Cons.prems(3) in simp)
    have p2: "pend_on ?k2 event = pend_on k event - {t}" using wk.wake_pend_on [OF w t nm] by simp
    have o2: "obj_type (blk_objs ?k2 event) = RHINO_EVENT_OBJ_TYPE" using quietD(11) [OF q, of event] Cons.prems(3) by simp
    have ws: "waits_same k ?k2" using quietD(16) [OF q] by (simp add: waits_same_def)
    have ev: "events ?k2 = events k" using quietD(8) [OF q] by simp
    define g where "g = (if pend_option (tasks ?k2 t) AND RHINO_FLAGS_CLEAR_MASK \<noteq> 0 then NOT (pend_flags (tasks ?k2 t)) else - 1)"
    define k3 where "k3 = (if pend_option (tasks ?k2 t) AND RHINO_FLAGS_CLEAR_MASK \<noteq> 0
      then upd_event event (\<lambda>x. x\<lparr>event_flags := event_flags x AND NOT (pend_flags (tasks ?k2 t))\<rparr>) ?k2 else ?k2)"
    have k3: "kpre_but event k3" unfolding k3_def using k2 Cons.prems(2) by (auto intro: kpre_but_same)
    have f3: "tasks k3 = tasks ?k2" "blk_objs k3 = blk_objs ?k2" "pend_on k3 = pend_on ?k2"
      "event_flags (events k3 event) = event_flags (events k event) AND g"
      by (simp_all add: k3_def g_def ev)
    have ts: "set ts \<subseteq> pend_on k3 event" using Cons.prems(4,5) p2 f3(3) by auto
    have same: "pend_info (tasks k3 u) = pend_info (tasks k u)" "?m k3 u = ?m k u" if "u \<in> pend_on k3 event" for u
      using that ws f3(1,3) by (simp_all add: waits_same_def pend_on_def)
    have info: "\<forall>u \<in> set ts. pend_info (tasks k3 u) \<noteq> 0" using same(1) ts Cons.prems(6) by auto
    note ih = Cons.IH [OF k3 Cons.prems(2) _ ts _ info]
    have "event_wake event flags (t # ts) k = event_wake event flags ts k3"
      using True by (simp add: Let_def k3_def)
    moreover have "pend_on k3 event - {u \<in> set ts. ?m k3 u} = pend_on k event - {u \<in> set (t # ts). ?m k u}"
      using same(2) ts p2 f3(3) True by auto
    moreover have "waits_same k k3" using ws f3(1) by (simp add: waits_same_def)
    ultimately show ?thesis
      using ih o2 f3(2,4) Cons.prems(5) waits_same_trans [of k k3] by (auto simp: and.assoc)
  qed
qed

lemma event_set_kinv:
  assumes inv: "kinv k" and e: "event \<noteq> NULL"
  shows "kinv (snd (event_set event flags opt k))"
proof -
  let ?k = "upd_event event (\<lambda>x. x\<lparr>event_flags := event_flags x OR flags\<rparr>) k"
  let ?f = "event_flags (events k event) OR flags"
  let ?k' = "event_wake event ?f (blk_list (blk_objs ?k event)) ?k"
  have "kpre ?k'" if ty: "obj_type (blk_objs k event) = RHINO_EVENT_OBJ_TYPE"
  proof -
    have but: "kpre_but event ?k"
      by (rule kpre_but_same) (use kinv_kpre [OF inv] e in \<open>simp_all add: kpre_but_iff [of _ event]\<close>)
    have set: "set (blk_list (blk_objs ?k event)) = pend_on ?k event" using blk_list_pend_on [OF inv] by simp
    have "distinct (blk_list (blk_objs ?k event))"
      using bl_okD(1) [OF core_okD(2) [OF kinvD(5) [OF inv]]] by simp
    moreover have "\<forall>t \<in> set (blk_list (blk_objs ?k event)). pend_info (tasks ?k t) \<noteq> 0"
      using kinvD(3) [OF inv, of event] ty set by (simp add: obj_inv_def)
    ultimately have r: "kpre_but event ?k'" "obj_type (blk_objs ?k' event) = RHINO_EVENT_OBJ_TYPE"
      "pend_on ?k' event = pend_on ?k event -
         {t \<in> pend_on ?k event. flags_met (pend_option (tasks ?k t)) (pend_flags (tasks ?k t)) ?f}"
      "waits_same ?k ?k'" "\<exists>g. event_flags (events ?k' event) = event_flags (events ?k event) AND g"
      using event_wake_but [OF but e _ _ _, of "blk_list (blk_objs ?k event)" ?f] ty set by simp_all
    have "pend_info (tasks ?k' t) \<noteq> 0 \<and>
        \<not> flags_met (pend_option (tasks ?k' t)) (pend_flags (tasks ?k' t)) (event_flags (events ?k' event))"
      if "t \<in> pend_on ?k' event" for t
    proof -
      have "pend_info (tasks ?k' t) = pend_info (tasks k t)" "pend_option (tasks ?k' t) = pend_option (tasks k t)"
        "pend_flags (tasks ?k' t) = pend_flags (tasks k t)"
        using r(4) that by (simp_all add: waits_same_def pend_on_def)
      moreover have "t \<in> pend_on k event" "\<not> flags_met (pend_option (tasks k t)) (pend_flags (tasks k t)) ?f"
        using r(3) that by auto
      ultimately show ?thesis
        using kinvD(3) [OF inv, of event] ty r(5) flags_met_mono by (auto simp: obj_inv_def)
    qed
    then show ?thesis using r(1,2) by (simp add: kpre_but_iff [of _ event] obj_inv_def)
  qed
  then show ?thesis
    using inv e by (auto simp: event_set_def Let_def event_clear_kinv intro!: kpre_core_sched)
qed

end
