(* ===== verification/Rhino_Queue.thy ===== *)
theory Rhino_Queue
  imports Rhino_Inv
begin

text \<open>
  Queues of pointer-sized messages (\<^verbatim>\<open>k_queue.c\<close>). The storage handed to the creation of a
  queue is its list of bytes and belongs to the ring of the queue from then on; pointers have
  four bytes. The second half of a receive that has blocked is \<open>krhino_queue_recv_end\<close>.
\<close>

section \<open>Operations\<close>

definition QMSG_SEND_TO_FRONT :: u8 where
  "QMSG_SEND_TO_FRONT = 3"

definition QMSG_SEND_TO_END :: u8 where
  "QMSG_SEND_TO_END = 4"

definition task_msg_recv :: "u32 \<Rightarrow> tid \<Rightarrow> kernel \<Rightarrow> kernel" where
  "task_msg_recv msg task k = pend_task_wakeup task (upd_task task (\<lambda>x. x\<lparr>task_msg := msg\<rparr>) k)"

definition queue_create ::
  "oid \<Rightarrow> addr \<Rightarrow> u8 list option \<Rightarrow> nat \<Rightarrow> u8 \<Rightarrow> kernel \<Rightarrow> kstat \<times> kernel" where
  "queue_create queue name start msg_num mm_alloc_flag k =
     (if queue = NULL then (RHINO_NULL_PTR, k)
      else case start of None \<Rightarrow> (RHINO_NULL_PTR, k) | Some buf \<Rightarrow>
        if name = NULL then (RHINO_NULL_PTR, k)
        else if msg_num = 0 then (RHINO_INV_PARAM, k)
        else
          let k = upd_blk queue (\<lambda>x. x\<lparr>blk_list := [], blk_policy := BLK_POLICY_PRI\<rparr>) k;
              k = upd_queue queue (\<lambda>x. x\<lparr>
                q_ringbuf := snd (ringbuf_init (take (msg_num * 4) buf) RINGBUF_TYPE_FIX 4),
                q_size := msg_num, q_cur_num := 0, q_peak_num := 0,
                queue_mm_alloc_flag := mm_alloc_flag\<rparr>) k;
              k = upd_blk queue (\<lambda>x. x\<lparr>obj_type := RHINO_QUEUE_OBJ_TYPE\<rparr>) k
          in (RHINO_SUCCESS, k))"

definition krhino_queue_create ::
  "oid \<Rightarrow> addr \<Rightarrow> u8 list option \<Rightarrow> nat \<Rightarrow> kernel \<Rightarrow> kstat \<times> kernel" where
  "krhino_queue_create queue name start msg_num k =
     queue_create queue name start msg_num K_OBJ_STATIC_ALLOC k"

definition queue_ring_reset :: "oid \<Rightarrow> kernel \<Rightarrow> kernel" where
  "queue_ring_reset queue k =
     upd_queue queue (\<lambda>x. x\<lparr>q_ringbuf := snd (ringbuf_reset (q_ringbuf x))\<rparr>) k"

definition krhino_queue_del :: "oid \<Rightarrow> kernel \<Rightarrow> kstat \<times> kernel" where
  "krhino_queue_del queue k =
     (if queue = NULL then (RHINO_NULL_PTR, k)
      else if g_intrpt_nested_level k > 0 then (RHINO_NOT_CALLED_BY_INTRPT, k)
      else if obj_type (blk_objs k queue) \<noteq> RHINO_QUEUE_OBJ_TYPE then (RHINO_KOBJ_TYPE_ERR, k)
      else if queue_mm_alloc_flag (queues k queue) \<noteq> K_OBJ_STATIC_ALLOC then (RHINO_KOBJ_DEL_ERR, k)
      else
        let k = upd_blk queue (\<lambda>x. x\<lparr>obj_type := RHINO_OBJ_TYPE_NONE\<rparr>) k;
            k = wake_all pend_task_rm queue k;
            k = queue_ring_reset queue k
        in (RHINO_SUCCESS, core_sched k))"

text \<open>\<open>queue_obj\<close> and \<open>msg_start\<close> are the results of the two allocations.\<close>

definition krhino_queue_dyn_create ::
  "oid \<Rightarrow> u8 list option \<Rightarrow> u32 \<Rightarrow> addr \<Rightarrow> nat \<Rightarrow> kernel \<Rightarrow> kstat \<times> kernel" where
  "krhino_queue_dyn_create queue_obj msg_start queue name msg_num k =
     (if queue = 0 then (RHINO_NULL_PTR, k)
      else if queue_obj = NULL then (RHINO_NO_MEM, k)
      else if msg_start = None then (RHINO_NO_MEM, k)
      else
        let (stat, k) = queue_create queue_obj name msg_start msg_num K_OBJ_DYN_ALLOC k
        in if stat \<noteq> RHINO_SUCCESS then (stat, k)
           else (stat, store32 queue (word_of_nat queue_obj) k))"

definition krhino_queue_dyn_del :: "oid \<Rightarrow> kernel \<Rightarrow> kstat \<times> kernel" where
  "krhino_queue_dyn_del queue k =
     (if queue = NULL then (RHINO_NULL_PTR, k)
      else if g_intrpt_nested_level k > 0 then (RHINO_NOT_CALLED_BY_INTRPT, k)
      else if obj_type (blk_objs k queue) \<noteq> RHINO_QUEUE_OBJ_TYPE then (RHINO_KOBJ_TYPE_ERR, k)
      else if queue_mm_alloc_flag (queues k queue) \<noteq> K_OBJ_DYN_ALLOC then (RHINO_KOBJ_DEL_ERR, k)
      else
        let k = upd_blk queue (\<lambda>x. x\<lparr>obj_type := RHINO_OBJ_TYPE_NONE\<rparr>) k;
            k = wake_all pend_task_rm queue k;
            k = queue_ring_reset queue k
        in (RHINO_SUCCESS, core_sched k))"

definition msg_send :: "oid \<Rightarrow> u32 \<Rightarrow> u8 \<Rightarrow> bool \<Rightarrow> kernel \<Rightarrow> kstat \<times> kernel" where
  "msg_send p_q p_void opt_send_method opt_wake_all k =
     (if p_q = NULL then (RHINO_NULL_PTR, k)
      else if obj_type (blk_objs k p_q) \<noteq> RHINO_QUEUE_OBJ_TYPE then (RHINO_KOBJ_TYPE_ERR, k)
      else if q_cur_num (queues k p_q) \<ge> q_size (queues k p_q) then (RHINO_QUEUE_FULL, k)
      else
        case blk_list (blk_objs k p_q) of
          [] \<Rightarrow>
            let k = upd_queue p_q (\<lambda>x. x\<lparr>q_cur_num := q_cur_num x + 1\<rparr>) k;
                k = upd_queue p_q (\<lambda>x. if q_cur_num x > q_peak_num x
                      then x\<lparr>q_peak_num := q_cur_num x\<rparr> else x) k;
                k = upd_queue p_q (\<lambda>x. x\<lparr>q_ringbuf := snd
                      (if opt_send_method = QMSG_SEND_TO_END
                       then ringbuf_push (q_ringbuf x) (word_bytes p_void) 4
                       else ringbuf_head_push (q_ringbuf x) (word_bytes p_void) 4)\<rparr>) k
            in (RHINO_SUCCESS, k)
        | t # _ \<Rightarrow>
            (RHINO_SUCCESS, core_sched
              (if opt_wake_all then wake_all (task_msg_recv p_void) p_q k
               else task_msg_recv p_void t k)))"

definition krhino_queue_front_send :: "oid \<Rightarrow> u32 \<Rightarrow> kernel \<Rightarrow> kstat \<times> kernel" where
  "krhino_queue_front_send queue msg k = msg_send queue msg QMSG_SEND_TO_FRONT False k"

definition krhino_queue_back_send :: "oid \<Rightarrow> u32 \<Rightarrow> kernel \<Rightarrow> kstat \<times> kernel" where
  "krhino_queue_back_send queue msg k = msg_send queue msg QMSG_SEND_TO_END False k"

definition krhino_queue_all_send :: "oid \<Rightarrow> u32 \<Rightarrow> u8 \<Rightarrow> kernel \<Rightarrow> kstat \<times> kernel" where
  "krhino_queue_all_send queue msg opt k = msg_send queue msg opt True k"

definition krhino_queue_recv :: "oid \<Rightarrow> u64 \<Rightarrow> u32 \<Rightarrow> kernel \<Rightarrow> outcome \<times> kernel" where
  "krhino_queue_recv queue ticks msg k =
     (if queue = NULL then (Ret RHINO_NULL_PTR, k)
      else if msg = 0 then (Ret RHINO_NULL_PTR, k)
      else if g_intrpt_nested_level k > 0 \<and> ticks \<noteq> RHINO_NO_WAIT
      then (Ret RHINO_NOT_CALLED_BY_INTRPT, k)
      else if obj_type (blk_objs k queue) \<noteq> RHINO_QUEUE_OBJ_TYPE then (Ret RHINO_KOBJ_TYPE_ERR, k)
      else if q_cur_num (queues k queue) > 0 then
        let (_, data, _, r) = ringbuf_pop (q_ringbuf (queues k queue));
            k = store_bytes msg data (upd_queue queue (\<lambda>x. x\<lparr>q_ringbuf := r\<rparr>) k);
            k = upd_queue queue (\<lambda>x. x\<lparr>q_cur_num := q_cur_num x - 1\<rparr>) k
        in (Ret RHINO_SUCCESS, k)
      else if ticks = RHINO_NO_WAIT then (Ret RHINO_NO_PEND_WAIT, store32 msg 0 k)
      else if g_sched_lock k > 0 then (Ret RHINO_SCHED_DISABLE, store32 msg 0 k)
      else (Blocked, core_sched (pend_to_blk_obj queue (g_active_task k) ticks k)))"

definition krhino_queue_recv_end :: "u32 \<Rightarrow> kernel \<Rightarrow> kstat \<times> kernel" where
  "krhino_queue_recv_end msg k =
     (let (ret, k) = pend_state_end_proc (g_active_task k) k
      in (ret, store32 msg (if ret = RHINO_SUCCESS then task_msg (tasks k (g_active_task k)) else 0) k))"

definition krhino_queue_is_full :: "oid \<Rightarrow> kernel \<Rightarrow> kstat" where
  "krhino_queue_is_full queue k =
     (if queue = NULL then RHINO_NULL_PTR
      else if obj_type (blk_objs k queue) \<noteq> RHINO_QUEUE_OBJ_TYPE then RHINO_KOBJ_TYPE_ERR
      else if q_cur_num (queues k queue) \<ge> q_size (queues k queue) then RHINO_QUEUE_FULL
      else RHINO_QUEUE_NOT_FULL)"

definition krhino_queue_flush :: "oid \<Rightarrow> kernel \<Rightarrow> kstat \<times> kernel" where
  "krhino_queue_flush queue k =
     (if queue = NULL then (RHINO_NULL_PTR, k)
      else if g_intrpt_nested_level k > 0 then (RHINO_NOT_CALLED_BY_INTRPT, k)
      else if obj_type (blk_objs k queue) \<noteq> RHINO_QUEUE_OBJ_TYPE then (RHINO_KOBJ_TYPE_ERR, k)
      else
        let k = upd_queue queue (\<lambda>x. x\<lparr>q_cur_num := 0\<rparr>) k
        in (RHINO_SUCCESS, queue_ring_reset queue k))"

text \<open>\<^verbatim>\<open>msg_info_t\<close>; the buffer stands for the pointer \<^verbatim>\<open>queue_start\<close> to it, and the head of the block
  list for the pointer to its first node.\<close>

record msg_info =
  info_peak_num :: nat
  info_cur_num :: nat
  info_queue_start :: "u8 list"
  info_size :: nat
  info_pend_entry :: "tid list"

definition krhino_queue_info_get :: "oid \<Rightarrow> bool \<Rightarrow> kernel \<Rightarrow> kstat \<times> msg_info option" where
  "krhino_queue_info_get queue info_given k =
     (if queue = NULL then (RHINO_NULL_PTR, None)
      else if \<not> info_given then (RHINO_NULL_PTR, None)
      else if obj_type (blk_objs k queue) \<noteq> RHINO_QUEUE_OBJ_TYPE then (RHINO_KOBJ_TYPE_ERR, None)
      else (RHINO_SUCCESS, Some \<lparr>info_peak_num = q_peak_num (queues k queue),
        info_cur_num = q_cur_num (queues k queue),
        info_queue_start = rb_mem (q_ringbuf (queues k queue)), info_size = q_size (queues k queue),
        info_pend_entry = take 1 (blk_list (blk_objs k queue))\<rparr>))"

section \<open>The invariant\<close>

text \<open>Delivery to a waiting task fulfils the contract of waking.\<close>

lemma task_msg_recv_ok:
  assumes inv: "winv k" and t: "t \<in> pend_on k b" and nm: "obj_type (blk_objs k b) \<noteq> RHINO_MUTEX_OBJ_TYPE"
  shows "winv (task_msg_recv msg t k)" and "pend_on (task_msg_recv msg t k) = (pend_on k)(b := pend_on k b - {t})"
    and "quiet k (task_msg_recv msg t k)"
proof -
  let ?k = "upd_task t (\<lambda>x. x\<lparr>task_msg := msg\<rparr>) k"
  have "t \<noteq> NULL" by (rule core_okD(11) [OF winvD(1) [OF inv] pend_on_live [OF t]])
  then have same: "state_same k ?k" by (intro state_same_upd_task) (simp_all add: task_same_def)
  note s = state_same_sets [OF same]
  have inv': "winv ?k" and t': "t \<in> pend_on ?k b" and nm': "obj_type (blk_objs ?k b) \<noteq> RHINO_MUTEX_OBJ_TYPE"
    using inv state_same_winv(1) [OF same] t s nm by simp_all
  note w = wk.wake_winv [OF inv' t' nm'] wk.wake_pend_on [OF inv' t' nm'] wk.wake_quiet [OF inv' t' nm']
  show "winv (task_msg_recv msg t k)" and p: "pend_on (task_msg_recv msg t k) = (pend_on k)(b := pend_on k b - {t})"
    using w(1,2) s by (simp_all add: task_msg_recv_def)
  have "\<not> pended (task_state (tasks (task_msg_recv msg t k) t))"
  proof
    assume "pended (task_state (tasks (task_msg_recv msg t k) t))"
    then have "t \<in> pend_on (task_msg_recv msg t k) (blk_obj (tasks (task_msg_recv msg t k) t))"
      by (simp add: pend_on_def)
    then have "t \<in> pend_on k (blk_obj (tasks (task_msg_recv msg t k) t))" "blk_obj (tasks (task_msg_recv msg t k) t) \<noteq> b"
      using p by (auto split: if_splits)
    with t show False by (simp add: pend_on_def)
  qed
  moreover have "waits_same ?k (task_msg_recv msg t k)"
    using quietD(16) [OF w(3)] by (simp add: task_msg_recv_def)
  ultimately have "waits_same k (task_msg_recv msg t k)"
    by (auto simp: waits_same_def split: if_splits)
  moreover have "quiet ?k (task_msg_recv msg t k)" using w(3) by (simp add: task_msg_recv_def)
  ultimately show "quiet k (task_msg_recv msg t k)" by (simp add: quiet_def s)
qed

interpretation recv: waker "task_msg_recv msg" for msg
  by unfold_locales (rule task_msg_recv_ok; assumption)+

lemma queue_create_kinv:
  assumes inv: "kinv k" and fresh: "obj_type (blk_objs k queue) = RHINO_OBJ_TYPE_NONE"
    and room: "\<And>buf. start = Some buf \<Longrightarrow> msg_num * 4 \<le> length buf"
  shows "kinv (snd (queue_create queue name start msg_num flag k))"
proof (cases "queue = NULL \<or> name = NULL \<or> msg_num = 0 \<or> start = None")
  case True
  then show ?thesis using inv by (auto simp: queue_create_def split: option.split)
next
  case False
  then obtain buf where buf: "start = Some buf" by blast
  let ?r = "snd (ringbuf_init (take (msg_num * 4) buf) RINGBUF_TYPE_FIX 4)"
  let ?k = "upd_queue queue (\<lambda>x. x\<lparr>q_ringbuf := ?r, q_size := msg_num, q_cur_num := 0, q_peak_num := 0,
    queue_mm_alloc_flag := flag\<rparr>) k"
  let ?f = "\<lambda>x. x\<lparr>blk_list := [], blk_policy := BLK_POLICY_PRI, obj_type := RHINO_QUEUE_OBJ_TYPE\<rparr> :: blk_obj"
  have eq: "snd (queue_create queue name start msg_num flag k) = upd_blk queue ?f ?k"
    by (rule kernel.equality) (use False buf in \<open>auto simp: queue_create_def\<close>)
  have len: "length (take (msg_num * 4) buf) = 4 * msg_num" using room [OF buf] by simp
  have "fix_holds (length (take (msg_num * 4) buf)) 4 ?r []"
    using len False by (intro fix_holds_init) (auto simp del: length_take)
  then have qi: "queue_inv (queues ?k queue)" using False len by (simp add: queue_inv_def)
  have "kinv (upd_blk queue ?f ?k)"
    by (rule kinv_new_header [OF inv _ fresh]) (use False qi in \<open>auto simp: obj_inv_def\<close>)
  then show ?thesis using eq by simp
qed

lemma queue_del_kinv:
  assumes "kinv k"
  shows "kinv (snd (krhino_queue_del queue k))" and "kinv (snd (krhino_queue_dyn_del queue k))"
proof -
  have "kinv (core_sched (queue_ring_reset queue (del_waiters queue k)))"
    if "queue \<noteq> NULL" "obj_type (blk_objs k queue) = RHINO_QUEUE_OBJ_TYPE"
    by (rule kinv_del_waiters [OF assms that(1)]) (simp_all add: that queue_ring_reset_def)
  then show "kinv (snd (krhino_queue_del queue k))" and "kinv (snd (krhino_queue_dyn_del queue k))"
    using assms by (auto simp: krhino_queue_del_def krhino_queue_dyn_del_def del_waiters_def Let_def)
qed

text \<open>The messages in a queue.\<close>

definition queue_holds :: "kqueue \<Rightarrow> u32 list \<Rightarrow> bool" where
  "queue_holds q ms \<longleftrightarrow> 0 < q_size q \<and> q_cur_num q = length ms \<and> length ms \<le> q_size q \<and>
     fix_holds (4 * q_size q) 4 (q_ringbuf q) (map word_bytes ms)"

lemma fix_holds_bound:
  assumes "fix_holds N b r ms"
  shows "b * length ms + freesize r = N"
proof -
  have len: "sum_list (map length ms) = b * length ms" if "\<forall>m \<in> set ms. fix_ok b m" for ms
    using that by (induction ms) (simp_all add: fix_ok_def)
  have "rb_used r = b * length ms"
    using assms rb_used_bytes [of r "concat ms"] len [of ms] by (simp add: fix_holds_def length_concat)
  then show ?thesis using freesize_used [of r] assms by (simp add: fix_holds_def)
qed

lemma queue_inv_holds: "queue_inv q \<longleftrightarrow> (\<exists>ms. queue_holds q ms)"
proof
  assume "queue_inv q"
  then obtain ms where ms: "0 < q_size q" "fix_holds (4 * q_size q) 4 (q_ringbuf q) (map word_bytes ms)"
    "length ms = q_cur_num q" by (auto simp: queue_inv_def)
  then show "\<exists>ms. queue_holds q ms" using fix_holds_bound [OF ms(2)] by (intro exI [of _ ms]) (simp add: queue_holds_def)
qed (auto simp: queue_holds_def queue_inv_def)

text \<open>Sending to a queue nobody waits for, and taking a message out, at the level of the ring.\<close>

lemma queue_push:
  fixes w :: u32
  assumes "queue_holds q ms" and "q_cur_num q < q_size q"
  defines "q' e \<equiv> q\<lparr>q_cur_num := q_cur_num q + 1, q_peak_num := max (q_peak_num q) (q_cur_num q + 1),
    q_ringbuf := snd (if e then ringbuf_push (q_ringbuf q) (word_bytes w) 4
      else ringbuf_head_push (q_ringbuf q) (word_bytes w) 4)\<rparr>"
  shows "queue_holds (q' True) (ms @ [w])" and "queue_holds (q' False) (w # ms)"
proof -
  let ?N = "4 * q_size q"
  have h: "fix_holds ?N 4 (q_ringbuf q) (map word_bytes ms)" and l: "length ms < q_size q" "q_cur_num q = length ms"
    using assms(1,2) by (simp_all add: queue_holds_def)
  have fit: "fix_ok 4 (word_bytes w)" "fix_fits (word_bytes w) (q_ringbuf q)"
    using fix_holds_bound [OF h] l(1) h by (simp_all add: fix_ok_def fix_fits_def fix_holds_def)
  from fix_push_fits [OF h fit] show "queue_holds (q' True) (ms @ [w])"
    using assms(1) l by (auto simp: queue_holds_def q'_def ring_push_def)
  from fix_head_push [OF h fit] show "queue_holds (q' False) (w # ms)"
    using assms(1) l by (auto simp: queue_holds_def q'_def)
qed

lemma queue_pop:
  assumes "queue_holds q (w # ms)"
  obtains r where "ringbuf_pop (q_ringbuf q) = (RHINO_SUCCESS, word_bytes w, 4, r)"
    and "queue_holds (q\<lparr>q_cur_num := q_cur_num q - 1, q_ringbuf := r\<rparr>) ms"
proof -
  have h: "fix_holds (4 * q_size q) 4 (q_ringbuf q) (word_bytes w # map word_bytes ms)"
    using assms by (simp add: queue_holds_def)
  obtain r where r: "ring_pop (q_ringbuf q) = (RHINO_SUCCESS, word_bytes w, r)"
    "fix_holds (4 * q_size q) 4 r (map word_bytes ms)"
    using fix_pop_Cons [OF h] by blast
  have "blk_size (q_ringbuf q) = 4" "rb_type (q_ringbuf q) = RINGBUF_TYPE_FIX"
    using h by (simp_all add: fix_holds_def)
  then have "ringbuf_pop (q_ringbuf q) = (RHINO_SUCCESS, word_bytes w, 4, r)"
    using r(1) by (auto simp: ring_pop_def ringbuf_pop_def Let_def case_prod_beta rb_wrap_head_def split: if_splits)
  with that r(2) assms show ?thesis by (simp add: queue_holds_def)
qed

lemma queue_reset: "queue_holds q ms \<Longrightarrow>
    queue_holds (q\<lparr>q_cur_num := 0, q_ringbuf := snd (ringbuf_reset (q_ringbuf q))\<rparr>) []"
  by (auto simp: queue_holds_def fix_holds_def ringbuf_reset_def rb_inv_def rb_used_def rb_bytes_def)

text \<open>The three operations on a queue without waiting tasks as one update of its content.\<close>

lemma msg_send_store:
  assumes "p_q \<noteq> NULL" and "obj_type (blk_objs k p_q) = RHINO_QUEUE_OBJ_TYPE"
    and "q_cur_num (queues k p_q) < q_size (queues k p_q)" and "blk_list (blk_objs k p_q) = []"
  shows "msg_send p_q w opt all k = (RHINO_SUCCESS, upd_queue p_q (\<lambda>q. q\<lparr>q_cur_num := q_cur_num q + 1,
    q_peak_num := max (q_peak_num q) (q_cur_num q + 1),
    q_ringbuf := snd (if opt = QMSG_SEND_TO_END then ringbuf_push (q_ringbuf q) (word_bytes w) 4
      else ringbuf_head_push (q_ringbuf q) (word_bytes w) 4)\<rparr>) k)"
  using assms by (auto simp: msg_send_def Let_def upd_queue_def max_def)

lemma kinv_upd_queue:
  assumes "kinv k" and "q \<noteq> NULL" and "obj_type (blk_objs k q) = RHINO_QUEUE_OBJ_TYPE"
    and "queue_holds (f (queues k q)) ms" and "pend_on k q = {} \<or> ms = []"
  shows "kinv (upd_queue q f k)"
  by (rule kinv_upd_obj [where b = q]) (use assms in \<open>auto simp: waits_same_tasks obj_inv_def queue_inv_holds queue_holds_def\<close>)

lemma queue_obj:
  assumes "kinv k" and "obj_type (blk_objs k q) = RHINO_QUEUE_OBJ_TYPE"
  obtains ms where "queue_holds (queues k q) ms" and "pend_on k q = {} \<or> ms = []"
  using kinvD(3) [OF assms(1), of q] assms(2) by (auto simp: obj_inv_def queue_inv_holds queue_holds_def)

lemma msg_send_kinv:
  assumes inv: "kinv k"
  shows "kinv (snd (msg_send q w opt all k))"
proof (cases "q = NULL \<or> obj_type (blk_objs k q) \<noteq> RHINO_QUEUE_OBJ_TYPE \<or> q_cur_num (queues k q) \<ge> q_size (queues k q)")
  case True
  then show ?thesis using inv by (auto simp: msg_send_def)
next
  case False
  then have q: "q \<noteq> NULL" "obj_type (blk_objs k q) = RHINO_QUEUE_OBJ_TYPE" "q_cur_num (queues k q) < q_size (queues k q)"
    and nm: "obj_type (blk_objs k q) \<noteq> RHINO_MUTEX_OBJ_TYPE" by simp_all
  obtain ms where ms: "queue_holds (queues k q) ms" by (rule queue_obj [OF inv q(2)])
  show ?thesis
  proof (cases "blk_list (blk_objs k q)")
    case Nil
    then have "pend_on k q = {}" using blk_list_empty_iff [OF inv] by simp
    with queue_push [OF ms q(3), of w] kinv_upd_queue [OF inv q(1,2)] show ?thesis
      unfolding msg_send_store [OF q Nil] by (cases "opt = QMSG_SEND_TO_END") (auto simp: max_def)
  next
    case (Cons t ts)
    with recv.kinv_wake_first [OF inv nm Cons] recv.kinv_wake_all [OF inv nm] q show ?thesis
      by (simp add: msg_send_def)
  qed
qed

lemma recv_take_eq:
  assumes "queue \<noteq> NULL" and "msg \<noteq> 0" and "obj_type (blk_objs k queue) = RHINO_QUEUE_OBJ_TYPE"
    and "g_intrpt_nested_level k = 0 \<or> ticks = RHINO_NO_WAIT"
    and "0 < q_cur_num (queues k queue)" and "ringbuf_pop (q_ringbuf (queues k queue)) = (st, data, n, r)"
  shows "krhino_queue_recv queue ticks msg k = (Ret RHINO_SUCCESS,
    store_bytes msg data (upd_queue queue (\<lambda>q. q\<lparr>q_cur_num := q_cur_num q - 1, q_ringbuf := r\<rparr>) k))"
proof -
  have "krhino_queue_recv queue ticks msg k = (Ret RHINO_SUCCESS, upd_queue queue (\<lambda>x. x\<lparr>q_cur_num := q_cur_num x - 1\<rparr>)
      (store_bytes msg data (upd_queue queue (\<lambda>x. x\<lparr>q_ringbuf := r\<rparr>) k)))"
    using assms by (auto simp: krhino_queue_recv_def)
  moreover have "upd_queue queue (\<lambda>x. x\<lparr>q_cur_num := q_cur_num x - 1\<rparr>)
      (store_bytes msg data (upd_queue queue (\<lambda>x. x\<lparr>q_ringbuf := r\<rparr>) k)) =
    store_bytes msg data (upd_queue queue (\<lambda>q. q\<lparr>q_cur_num := q_cur_num q - 1, q_ringbuf := r\<rparr>) k)"
    by (rule kernel.equality) (auto simp: store_bytes_def fun_eq_iff)
  ultimately show ?thesis by simp
qed

lemma queue_recv_kinv:
  assumes inv: "kinv k" and a: "ticks \<noteq> RHINO_NO_WAIT \<Longrightarrow> g_intrpt_nested_level k = 0 \<Longrightarrow> g_sched_lock k = 0 \<Longrightarrow>
      g_active_task k \<noteq> g_idle_task"
  shows "kinv (snd (krhino_queue_recv queue ticks msg k))"
proof -
  let ?ok = "queue \<noteq> NULL \<and> msg \<noteq> 0 \<and> obj_type (blk_objs k queue) = RHINO_QUEUE_OBJ_TYPE \<and>
    (g_intrpt_nested_level k = 0 \<or> ticks = RHINO_NO_WAIT)"
  have "kinv (snd (krhino_queue_recv queue ticks msg k))" if ok: ?ok and n: "0 < q_cur_num (queues k queue)"
  proof -
    obtain ms where ms: "queue_holds (queues k queue) ms" "pend_on k queue = {} \<or> ms = []"
      using ok by (metis queue_obj [OF inv])
    then obtain w ws where ws: "ms = w # ws" using n by (cases ms) (auto simp: queue_holds_def)
    obtain r where r: "ringbuf_pop (q_ringbuf (queues k queue)) = (RHINO_SUCCESS, word_bytes w, 4, r)"
      "queue_holds ((queues k queue)\<lparr>q_cur_num := q_cur_num (queues k queue) - 1, q_ringbuf := r\<rparr>) ws"
      using queue_pop ms(1) unfolding ws by blast
    have "kinv (upd_queue queue (\<lambda>q. q\<lparr>q_cur_num := q_cur_num q - 1, q_ringbuf := r\<rparr>) k)"
      by (rule kinv_upd_queue [OF inv, where ms = ws]) (use ok ms(2) ws r(2) in auto)
    then show ?thesis using ok n r(1) by (simp add: recv_take_eq kinv_store_bytes)
  qed
  then have taken: "kinv (snd (krhino_queue_recv queue ticks msg k))" if "?ok \<and> 0 < q_cur_num (queues k queue)"
    using that by simp
  have block: "kinv (core_sched (pend_to_blk_obj queue (g_active_task k) ticks k))"
    if c: "queue \<noteq> NULL" "obj_type (blk_objs k queue) = RHINO_QUEUE_OBJ_TYPE" "q_cur_num (queues k queue) = 0"
      "g_intrpt_nested_level k = 0" "g_sched_lock k = 0" "ticks \<noteq> 0"
    by (rule kinv_block [OF inv c(4,5) _ c(1,6)]) (use a c kinvD(3) [OF inv, of queue] in \<open>auto simp: obj_inv_def RHINO_NO_WAIT_def\<close>)
  have "kinv (snd (krhino_queue_recv queue ticks msg k))" if "\<not> (?ok \<and> 0 < q_cur_num (queues k queue))"
  proof (cases ?ok)
    case True
    with that have "q_cur_num (queues k queue) = 0" by simp
    with True inv kinv_store32 [OF inv, of msg 0] block show ?thesis
      by (auto simp: krhino_queue_recv_def RHINO_NO_WAIT_def word_greater_zero_iff)
  next
    case False
    with inv show ?thesis by (auto simp: krhino_queue_recv_def RHINO_NO_WAIT_def word_greater_zero_iff)
  qed
  with taken show ?thesis by metis
qed

lemma queue_flush_kinv:
  assumes inv: "kinv k"
  shows "kinv (snd (krhino_queue_flush queue k))"
proof -
  let ?f = "\<lambda>q. q\<lparr>q_cur_num := 0, q_ringbuf := snd (ringbuf_reset (q_ringbuf q))\<rparr>"
  have eq: "queue_ring_reset queue (upd_queue queue (\<lambda>x. x\<lparr>q_cur_num := 0\<rparr>) k) = upd_queue queue ?f k"
    by (simp add: queue_ring_reset_def upd_queue_def)
  have "kinv (upd_queue queue ?f k)" if q: "queue \<noteq> NULL" "obj_type (blk_objs k queue) = RHINO_QUEUE_OBJ_TYPE"
  proof -
    obtain ms where "queue_holds (queues k queue) ms" by (rule queue_obj [OF inv q(2)])
    from queue_reset [OF this] show ?thesis by (intro kinv_upd_queue [OF inv q, where ms = "[]"]) simp_all
  qed
  then show ?thesis using inv eq by (auto simp: krhino_queue_flush_def Let_def)
qed

end
