(* ===== verification/Rhino_Buf_Queue.thy ===== *)
theory Rhino_Buf_Queue
  imports Rhino_Inv
begin

text \<open>
  Queues of messages of any length (\<^verbatim>\<open>k_buf_queue.c\<close>), on a dynamic or a fixed-size ring. The
  storage handed to the creation belongs to the ring of the queue from then on. The second
  half of a receive that has blocked is \<open>krhino_buf_queue_recv_end\<close>.
\<close>

section \<open>Operations\<close>

definition buf_queue_create ::
  "oid \<Rightarrow> addr \<Rightarrow> u8 list option \<Rightarrow> nat \<Rightarrow> nat \<Rightarrow> u8 \<Rightarrow> nat \<Rightarrow> kernel \<Rightarrow> kstat \<times> kernel" where
  "buf_queue_create queue name buf buf_size max_msg mm_alloc_flag type k =
     (if queue = NULL then (RHINO_NULL_PTR, k)
      else case buf of None \<Rightarrow> (RHINO_NULL_PTR, k) | Some bytes \<Rightarrow>
        if name = NULL then (RHINO_NULL_PTR, k)
        else if max_msg = 0 then (RHINO_INV_PARAM, k)
        else if buf_size = 0 then (RHINO_BUF_QUEUE_SIZE_ZERO, k)
        else
          let k = upd_blk queue (\<lambda>x. x\<lparr>blk_list := []\<rparr>) k;
              k = upd_buf_queue queue (\<lambda>x. x\<lparr>bq_cur_num := 0, bq_peak_num := 0,
                    max_msg_size := max_msg, bq_mm_alloc_flag := mm_alloc_flag\<rparr>) k;
              k = upd_blk queue (\<lambda>x. x\<lparr>blk_policy := BLK_POLICY_PRI,
                    obj_type := RHINO_BUF_QUEUE_OBJ_TYPE\<rparr>) k;
              k = upd_buf_queue queue (\<lambda>x. x\<lparr>
                    bq_ringbuf := snd (ringbuf_init (take buf_size bytes) type max_msg)\<rparr>) k;
              k = upd_buf_queue queue (\<lambda>x. x\<lparr>min_free_buf_size := freesize (bq_ringbuf x)\<rparr>) k
          in (RHINO_SUCCESS, k))"

definition krhino_buf_queue_create ::
  "oid \<Rightarrow> addr \<Rightarrow> u8 list option \<Rightarrow> nat \<Rightarrow> nat \<Rightarrow> kernel \<Rightarrow> kstat \<times> kernel" where
  "krhino_buf_queue_create queue name buf buf_size max_msg k =
     buf_queue_create queue name buf buf_size max_msg K_OBJ_STATIC_ALLOC RINGBUF_TYPE_DYN k"

definition krhino_fix_buf_queue_create ::
  "oid \<Rightarrow> addr \<Rightarrow> u8 list option \<Rightarrow> nat \<Rightarrow> nat \<Rightarrow> kernel \<Rightarrow> kstat \<times> kernel" where
  "krhino_fix_buf_queue_create queue name buf msg_size msg_num k =
     buf_queue_create queue name buf (msg_size * msg_num) msg_size K_OBJ_STATIC_ALLOC RINGBUF_TYPE_FIX k"

definition bufq_ring_reset :: "oid \<Rightarrow> kernel \<Rightarrow> kernel" where
  "bufq_ring_reset queue k =
     upd_buf_queue queue (\<lambda>x. x\<lparr>bq_ringbuf := snd (ringbuf_reset (bq_ringbuf x))\<rparr>) k"

definition krhino_buf_queue_del :: "oid \<Rightarrow> kernel \<Rightarrow> kstat \<times> kernel" where
  "krhino_buf_queue_del queue k =
     (if queue = NULL then (RHINO_NULL_PTR, k)
      else if g_intrpt_nested_level k > 0 then (RHINO_NOT_CALLED_BY_INTRPT, k)
      else if obj_type (blk_objs k queue) \<noteq> RHINO_BUF_QUEUE_OBJ_TYPE then (RHINO_KOBJ_TYPE_ERR, k)
      else if bq_mm_alloc_flag (buf_queues k queue) \<noteq> K_OBJ_STATIC_ALLOC then (RHINO_KOBJ_DEL_ERR, k)
      else
        let k = upd_blk queue (\<lambda>x. x\<lparr>obj_type := RHINO_OBJ_TYPE_NONE\<rparr>) k;
            k = wake_all pend_task_rm queue k;
            k = bufq_ring_reset queue k
        in (RHINO_SUCCESS, core_sched k))"

text \<open>\<open>queue_obj\<close> and \<open>buf\<close> are the results of the two allocations.\<close>

definition krhino_buf_queue_dyn_create ::
  "oid \<Rightarrow> u8 list option \<Rightarrow> u32 \<Rightarrow> addr \<Rightarrow> nat \<Rightarrow> nat \<Rightarrow> kernel \<Rightarrow> kstat \<times> kernel" where
  "krhino_buf_queue_dyn_create queue_obj buf queue name buf_size max_msg k =
     (if queue = 0 then (RHINO_NULL_PTR, k)
      else if buf_size = 0 then (RHINO_BUF_QUEUE_SIZE_ZERO, k)
      else if queue_obj = NULL then (RHINO_NO_MEM, k)
      else if buf = None then (RHINO_NO_MEM, k)
      else
        let (stat, k) = buf_queue_create queue_obj name buf buf_size max_msg K_OBJ_DYN_ALLOC RINGBUF_TYPE_DYN k
        in if stat \<noteq> RHINO_SUCCESS then (stat, k)
           else (RHINO_SUCCESS, store32 queue (word_of_nat queue_obj) k))"

definition krhino_buf_queue_dyn_del :: "oid \<Rightarrow> kernel \<Rightarrow> kstat \<times> kernel" where
  "krhino_buf_queue_dyn_del queue k =
     (if queue = NULL then (RHINO_NULL_PTR, k)
      else if g_intrpt_nested_level k > 0 then (RHINO_NOT_CALLED_BY_INTRPT, k)
      else if obj_type (blk_objs k queue) \<noteq> RHINO_BUF_QUEUE_OBJ_TYPE then (RHINO_KOBJ_TYPE_ERR, k)
      else if bq_mm_alloc_flag (buf_queues k queue) \<noteq> K_OBJ_DYN_ALLOC then (RHINO_KOBJ_DEL_ERR, k)
      else
        let k = upd_blk queue (\<lambda>x. x\<lparr>obj_type := RHINO_OBJ_TYPE_NONE\<rparr>) k;
            k = wake_all pend_task_rm queue k;
            k = bufq_ring_reset queue k
        in (RHINO_SUCCESS, core_sched k))"

text \<open>
  \<open>data\<close> is the memory from \<open>msg\<close> on, as far as any of the copies reads: a push at the tail of
  a fixed-size ring copies a whole block whatever \<open>msg_size\<close> is, the other copies take the
  first \<open>msg_size\<close> bytes.
\<close>

definition buf_queue_send :: "oid \<Rightarrow> u32 \<Rightarrow> nat \<Rightarrow> bool \<Rightarrow> kernel \<Rightarrow> kstat \<times> kernel" where
  "buf_queue_send queue msg msg_size front k =
     (if obj_type (blk_objs k queue) \<noteq> RHINO_BUF_QUEUE_OBJ_TYPE then (RHINO_KOBJ_TYPE_ERR, k)
      else if msg_size > max_msg_size (buf_queues k queue) then (RHINO_BUF_QUEUE_MSG_SIZE_OVERFLOW, k)
      else if msg_size = 0 then (RHINO_INV_PARAM, k)
      else
        let data = load_bytes msg (max_msg_size (buf_queues k queue)) k
        in case blk_list (blk_objs k queue) of
          [] \<Rightarrow>
            let (err, r) = (if front then ringbuf_head_push (bq_ringbuf (buf_queues k queue)) data msg_size
                            else ringbuf_push (bq_ringbuf (buf_queues k queue)) data msg_size);
                k = upd_buf_queue queue (\<lambda>x. x\<lparr>bq_ringbuf := r\<rparr>) k
            in if err \<noteq> RHINO_SUCCESS
               then (if err = RHINO_RINGBUF_FULL then RHINO_BUF_QUEUE_FULL else err, k)
               else
                 let k = upd_buf_queue queue (\<lambda>x. x\<lparr>bq_cur_num := bq_cur_num x + 1\<rparr>) k;
                     k = upd_buf_queue queue (\<lambda>x. if bq_peak_num x < bq_cur_num x
                           then x\<lparr>bq_peak_num := bq_cur_num x\<rparr> else x) k;
                     k = upd_buf_queue queue (\<lambda>x. if min_free_buf_size x > freesize (bq_ringbuf x)
                           then x\<lparr>min_free_buf_size := freesize (bq_ringbuf x)\<rparr> else x) k
                 in (RHINO_SUCCESS, k)
        | t # _ \<Rightarrow>
            let k = store_bytes (task_msg (tasks k t)) (take msg_size data) k;
                k = upd_task t (\<lambda>x. x\<lparr>bq_msg_size := msg_size\<rparr>) k;
                k = pend_task_wakeup t k
            in (RHINO_SUCCESS, core_sched k))"

definition krhino_buf_queue_send :: "oid \<Rightarrow> u32 \<Rightarrow> nat \<Rightarrow> kernel \<Rightarrow> kstat \<times> kernel" where
  "krhino_buf_queue_send queue msg msg_len k =
     (if queue = NULL then (RHINO_NULL_PTR, k)
      else if msg = 0 then (RHINO_NULL_PTR, k)
      else buf_queue_send queue msg msg_len False k)"

definition krhino_buf_queue_send_front :: "oid \<Rightarrow> u32 \<Rightarrow> nat \<Rightarrow> kernel \<Rightarrow> kstat \<times> kernel" where
  "krhino_buf_queue_send_front queue msg msg_len k =
     (if queue = NULL then (RHINO_NULL_PTR, k)
      else if msg = 0 then (RHINO_NULL_PTR, k)
      else buf_queue_send queue msg msg_len True k)"

text \<open>What \<^verbatim>\<open>ringbuf_pop\<close> writes for the caller: a dynamic ring stores the length before it copies
  the message, a fixed ring after.\<close>

definition recv_out :: "k_ringbuf \<Rightarrow> u32 \<Rightarrow> u8 list \<Rightarrow> u32 \<Rightarrow> u32 \<Rightarrow> kernel \<Rightarrow> kernel" where
  "recv_out r msg data size_ptr len k =
     (if rb_type r = RINGBUF_TYPE_FIX then store32 size_ptr len (store_bytes msg data k)
      else store_bytes msg data (store32 size_ptr len k))"

definition krhino_buf_queue_recv :: "oid \<Rightarrow> u64 \<Rightarrow> u32 \<Rightarrow> u32 \<Rightarrow> kernel \<Rightarrow> outcome \<times> kernel" where
  "krhino_buf_queue_recv queue ticks msg size_ptr k =
     (if queue = NULL then (Ret RHINO_NULL_PTR, k)
      else if msg = 0 then (Ret RHINO_NULL_PTR, k)
      else if size_ptr = 0 then (Ret RHINO_NULL_PTR, k)
      else if g_intrpt_nested_level k > 0 \<and> ticks \<noteq> RHINO_NO_WAIT
      then (Ret RHINO_NOT_CALLED_BY_INTRPT, k)
      else if obj_type (blk_objs k queue) \<noteq> RHINO_BUF_QUEUE_OBJ_TYPE then (Ret RHINO_KOBJ_TYPE_ERR, k)
      else if \<not> ringbuf_is_empty (bq_ringbuf (buf_queues k queue)) then
        let (_, data, len, r) = ringbuf_pop (bq_ringbuf (buf_queues k queue));
            k = upd_buf_queue queue (\<lambda>x. x\<lparr>bq_ringbuf := r, bq_cur_num := bq_cur_num x - 1\<rparr>) k
        in (Ret RHINO_SUCCESS, recv_out r msg data size_ptr (word_of_nat len) k)
      else if ticks = RHINO_NO_WAIT then (Ret RHINO_NO_PEND_WAIT, store32 size_ptr 0 k)
      else if g_sched_lock k > 0 then (Ret RHINO_SCHED_DISABLE, store32 size_ptr 0 k)
      else
        let k = upd_task (g_active_task k) (\<lambda>x. x\<lparr>task_msg := msg\<rparr>) k
        in (Blocked, core_sched (pend_to_blk_obj queue (g_active_task k) ticks k)))"

definition krhino_buf_queue_recv_end :: "u32 \<Rightarrow> kernel \<Rightarrow> kstat \<times> kernel" where
  "krhino_buf_queue_recv_end size_ptr k =
     (let (ret, k) = pend_state_end_proc (g_active_task k) k
      in (ret, store32 size_ptr (if ret = RHINO_SUCCESS
           then word_of_nat (bq_msg_size (tasks k (g_active_task k))) else 0) k))"

definition krhino_buf_queue_flush :: "oid \<Rightarrow> kernel \<Rightarrow> kstat \<times> kernel" where
  "krhino_buf_queue_flush queue k =
     (if queue = NULL then (RHINO_NULL_PTR, k)
      else if g_intrpt_nested_level k > 0 then (RHINO_NOT_CALLED_BY_INTRPT, k)
      else if obj_type (blk_objs k queue) \<noteq> RHINO_BUF_QUEUE_OBJ_TYPE then (RHINO_KOBJ_TYPE_ERR, k)
      else
        let k = bufq_ring_reset queue k
        in (RHINO_SUCCESS, upd_buf_queue queue (\<lambda>x. x\<lparr>bq_cur_num := 0, bq_peak_num := 0,
              min_free_buf_size := freesize (bq_ringbuf x)\<rparr>) k))"

text \<open>\<^verbatim>\<open>kbuf_queue_info_t\<close>\<close>

record kbuf_queue_info =
  bqi_buf_size :: nat
  bqi_max_msg_size :: nat
  bqi_cur_num :: nat
  bqi_peak_num :: nat
  bqi_free_buf_size :: nat
  bqi_min_free_buf_size :: nat

definition krhino_buf_queue_info_get :: "oid \<Rightarrow> bool \<Rightarrow> kernel \<Rightarrow> kstat \<times> kbuf_queue_info option" where
  "krhino_buf_queue_info_get queue info_given k =
     (if queue = NULL then (RHINO_NULL_PTR, None)
      else if \<not> info_given then (RHINO_NULL_PTR, None)
      else if obj_type (blk_objs k queue) \<noteq> RHINO_BUF_QUEUE_OBJ_TYPE then (RHINO_KOBJ_TYPE_ERR, None)
      else let q = buf_queues k queue
        in (RHINO_SUCCESS, Some \<lparr>bqi_buf_size = rb_end (bq_ringbuf q), bqi_max_msg_size = max_msg_size q,
             bqi_cur_num = bq_cur_num q, bqi_peak_num = bq_peak_num q,
             bqi_free_buf_size = freesize (bq_ringbuf q), bqi_min_free_buf_size = min_free_buf_size q\<rparr>))"

definition krhino_buf_queue_is_valid :: "oid \<Rightarrow> kernel \<Rightarrow> kstat" where
  "krhino_buf_queue_is_valid queue k =
     (if queue = NULL then RHINO_NULL_PTR
      else if obj_type (blk_objs k queue) \<noteq> RHINO_BUF_QUEUE_OBJ_TYPE then RHINO_KOBJ_TYPE_ERR
      else RHINO_SUCCESS)"

section \<open>The ring of a buffer queue\<close>

lemma fix_push_block:
  "rb_type r = RINGBUF_TYPE_FIX \<Longrightarrow> ringbuf_push r data n = ring_push r (take (blk_size r) data)"
  by (simp add: ring_push_def ringbuf_push_def)

lemma push_prefix:
  "rb_type r = RINGBUF_TYPE_DYN \<Longrightarrow> ringbuf_push r data n = ringbuf_push r (take n data) n"
  "ringbuf_head_push r data n = ringbuf_head_push r (take n data) n"
  unfolding ringbuf_push_def ringbuf_head_push_def take_take min.idem by (simp_all add: rb_konst)

text \<open>A message too long for a header of three bytes is refused by a dynamic ring.\<close>

lemma dyn_push_too_long:
  assumes "rb_type r = RINGBUF_TYPE_DYN" and "RINGBUF_LEN_3BYTES_MAXVALUE < n"
  shows "ringbuf_push r data n = (if ringbuf_is_full r then RHINO_RINGBUF_FULL else RHINO_INV_PARAM, r)"
    and "ringbuf_head_push r data n = (if ringbuf_is_full r then RHINO_RINGBUF_FULL else RHINO_INV_PARAM, r)"
  using assms
  by (simp_all add: ringbuf_push_def ringbuf_head_push_def ringbuf_headlen_compress_def COMPRESS_LEN_def rb_konst Let_def)

text \<open>What a send does to the ring: the message is stored at the chosen end, or nothing changes.\<close>

definition bufq_put :: "bool \<Rightarrow> k_ringbuf \<Rightarrow> u8 list \<Rightarrow> nat \<Rightarrow> kstat \<times> k_ringbuf" where
  "bufq_put front r data n = (if front then ringbuf_head_push r data n else ringbuf_push r data n)"

lemma bufq_put_dyn:
  assumes holds: "dyn_holds N r ms" and n: "0 < n" "n \<le> length data"
  shows "(\<exists>m r'. bufq_put front r data n = (RHINO_SUCCESS, r') \<and> length m = n \<and>
      dyn_holds N r' (if front then m # ms else ms @ [m])) \<or>
    (\<exists>err. bufq_put front r data n = (err, r) \<and> err \<noteq> RHINO_SUCCESS)"
proof -
  have ty: "rb_type r = RINGBUF_TYPE_DYN" using holds by (simp add: dyn_holds_def)
  let ?m = "take n data"
  have len: "length ?m = n" using n by simp
  then have eq: "ringbuf_push r data n = ring_push r ?m" "ringbuf_head_push r data n = ringbuf_head_push r ?m (length ?m)"
    using push_prefix(1) [OF ty, of data n] push_prefix(2) [of r data n] by (simp_all add: ring_push_def)
  consider (long) "RINGBUF_LEN_3BYTES_MAXVALUE < n" | (fits) "dyn_ok ?m" "dyn_fits ?m r" | (full) "dyn_ok ?m" "\<not> dyn_fits ?m r"
    using n by (fastforce simp: dyn_ok_def)
  then show ?thesis
  proof cases
    case long
    then show ?thesis using dyn_push_too_long [OF ty] by (simp add: bufq_put_def)
  next
    case fits
    show ?thesis
    proof (cases front)
      case True
      obtain r' where "ringbuf_head_push r ?m (length ?m) = (RHINO_SUCCESS, r')"
        "dyn_holds N r' (head_stored ?m (rb_unwrap_head r) # ms)"
        using dyn_head_push_stored [OF holds fits] by blast
      then show ?thesis
        using len True by (intro disjI1 exI [of _ "head_stored ?m (rb_unwrap_head r)"] exI [of _ r'])
          (simp add: bufq_put_def eq)
    next
      case False
      obtain r' where "ring_push r ?m = (RHINO_SUCCESS, r')" "dyn_holds N r' (ms @ [?m])"
        using dyn_push_fits [OF holds fits] by blast
      then show ?thesis
        using len False by (intro disjI1 exI [of _ ?m] exI [of _ r']) (simp add: bufq_put_def eq)
    qed
  next
    case full
    then show ?thesis
      using dyn_push_full [OF holds full] ringbuf_head_push_dyn_eq [OF ty full(1)]
      by (simp add: bufq_put_def eq)
  qed
qed

lemma bufq_put_fix:
  assumes holds: "fix_holds N b r ms" and n: "length data = b" "front \<longrightarrow> n = b"
  shows "(\<exists>r'. bufq_put front r data n = (RHINO_SUCCESS, r') \<and>
      fix_holds N b r' (if front then data # ms else ms @ [data])) \<or>
    (\<exists>err. bufq_put front r data n = (err, r) \<and> err \<noteq> RHINO_SUCCESS)"
proof -
  have ty: "rb_type r = RINGBUF_TYPE_FIX" and b: "blk_size r = b" using holds by (simp_all add: fix_holds_def)
  have ok: "fix_ok b data" using n by (simp add: fix_ok_def)
  show ?thesis
  proof (cases "fix_fits data r")
    case True
    with fix_push_fits [OF holds ok] fix_head_push [OF holds ok] n show ?thesis
      by (auto simp: bufq_put_def fix_push_block [OF ty] b)
  next
    case False
    then have "ringbuf_is_full r" using ty b by (simp add: ringbuf_is_full_def fix_fits_def)
    then show ?thesis by (simp add: bufq_put_def ringbuf_push_def ringbuf_head_push_def)
  qed
qed

lemma bufq_put_ok:
  assumes holds: "bufq_holds q ms" and n: "0 < n" "n \<le> max_msg_size q" "length data = max_msg_size q"
    and blk: "front \<and> rb_type (bq_ringbuf q) = RINGBUF_TYPE_FIX \<longrightarrow> n = max_msg_size q"
  shows "(\<exists>m r'. bufq_put front (bq_ringbuf q) data n = (RHINO_SUCCESS, r') \<and>
      bufq_holds (q\<lparr>bq_ringbuf := r'\<rparr>) (if front then m # ms else ms @ [m])) \<or>
    (\<exists>err. bufq_put front (bq_ringbuf q) data n = (err, bq_ringbuf q) \<and> err \<noteq> RHINO_SUCCESS)"
proof -
  have le: "\<forall>m \<in> set ms. length m \<le> max_msg_size q" using holds by (simp add: bufq_holds_def)
  from holds consider (dyn) "dyn_holds (rb_end (bq_ringbuf q)) (bq_ringbuf q) ms"
    | (fixed) "fix_holds (rb_end (bq_ringbuf q)) (max_msg_size q) (bq_ringbuf q) ms"
    by (auto simp: bufq_holds_def)
  then show ?thesis
  proof cases
    case dyn
    have "n \<le> length data" using n by simp
    from bufq_put_dyn [OF dyn n(1) this, of front] show ?thesis
    proof (elim disjE exE conjE)
      fix m r' assume r': "bufq_put front (bq_ringbuf q) data n = (RHINO_SUCCESS, r')" "length m = n"
        "dyn_holds (rb_end (bq_ringbuf q)) r' (if front then m # ms else ms @ [m])"
      then have "rb_end r' = rb_end (bq_ringbuf q)" by (simp add: dyn_holds_def)
      with r' le n(2) have "bufq_holds (q\<lparr>bq_ringbuf := r'\<rparr>) (if front then m # ms else ms @ [m])"
        by (auto simp: bufq_holds_def)
      with r'(1) show ?thesis by blast
    qed auto
  next
    case f: fixed
    then have ty: "rb_type (bq_ringbuf q) = RINGBUF_TYPE_FIX" by (simp add: fix_holds_def)
    have "front \<longrightarrow> n = max_msg_size q" using blk ty by simp
    from bufq_put_fix [OF f n(3) this] show ?thesis
    proof (elim disjE exE conjE)
      fix r' assume r': "bufq_put front (bq_ringbuf q) data n = (RHINO_SUCCESS, r')"
        "fix_holds (rb_end (bq_ringbuf q)) (max_msg_size q) r' (if front then data # ms else ms @ [data])"
      then have "rb_end r' = rb_end (bq_ringbuf q)" by (simp add: fix_holds_def)
      with r' le n(3) have "bufq_holds (q\<lparr>bq_ringbuf := r'\<rparr>) (if front then data # ms else ms @ [data])"
        by (auto simp: bufq_holds_def)
      with r'(1) show ?thesis by blast
    qed auto
  qed
qed

lemma bufq_empty_iff:
  assumes "bufq_holds q ms"
  shows "ringbuf_is_empty (bq_ringbuf q) \<longleftrightarrow> ms = []"
proof -
  let ?r = "bq_ringbuf q"
  have inv: "rb_inv ?r" using assms by (auto simp: bufq_holds_def dyn_holds_def fix_holds_def)
  then have "ringbuf_is_empty ?r \<longleftrightarrow> rb_bytes ?r = []"
    using freesize_used [OF inv] by (simp add: ringbuf_is_empty_def flip: length_0_conv) linarith
  also have "\<dots> \<longleftrightarrow> ms = []"
    using assms by (cases ms) (auto simp: bufq_holds_def dyn_holds_def fix_holds_def dyn_enc_def dyn_ok_def fix_ok_def)
  finally show ?thesis .
qed

lemma bufq_pop:
  assumes "bufq_holds q (m # ms)"
  obtains r where "ringbuf_pop (bq_ringbuf q) = (RHINO_SUCCESS, m, length m, r)"
    and "bufq_holds (q\<lparr>bq_ringbuf := r\<rparr>) ms"
proof -
  have le: "\<forall>m \<in> set ms. length m \<le> max_msg_size q" using assms by (simp add: bufq_holds_def)
  let ?r = "bq_ringbuf q"
  from assms consider (dyn) "dyn_holds (rb_end ?r) ?r (m # ms)" | (fixed) "fix_holds (rb_end ?r) (max_msg_size q) ?r (m # ms)"
    by (auto simp: bufq_holds_def)
  then show ?thesis
  proof cases
    case dyn
    then obtain r where r: "ringbuf_pop ?r = (RHINO_SUCCESS, m, length m, r)" "rb_inv r"
      "rb_type r = RINGBUF_TYPE_DYN" "rb_bytes r = concat (map dyn_enc ms)" "rb_end r = rb_end ?r"
      using ringbuf_pop_dyn [of ?r m "concat (map dyn_enc ms)"] by (auto simp: dyn_holds_def)
    moreover have "bufq_holds (q\<lparr>bq_ringbuf := r\<rparr>) ms"
      using r le dyn by (simp add: bufq_holds_def dyn_holds_def)
    ultimately show ?thesis using that by blast
  next
    case fixed
    obtain r where r: "ring_pop ?r = (RHINO_SUCCESS, m, r)" "fix_holds (rb_end ?r) (max_msg_size q) r ms"
      using fix_pop_Cons [OF fixed] by blast
    have "blk_size ?r = length m" "rb_type ?r = RINGBUF_TYPE_FIX"
      using fixed by (simp_all add: fix_holds_def fix_ok_def)
    then have "ringbuf_pop ?r = (RHINO_SUCCESS, m, length m, r)"
      using r(1) by (auto simp: ring_pop_def ringbuf_pop_def Let_def case_prod_beta rb_wrap_head_def split: if_splits)
    moreover have "rb_end r = rb_end ?r" using r(2) by (simp add: fix_holds_def)
    then have "bufq_holds (q\<lparr>bq_ringbuf := r\<rparr>) ms" using r(2) le by (simp add: bufq_holds_def)
    ultimately show ?thesis using that by blast
  qed
qed

lemma bufq_reset:
  assumes "bufq_holds q ms"
  shows "bufq_holds (q\<lparr>bq_ringbuf := snd (ringbuf_reset (bq_ringbuf q))\<rparr>) []"
  using assms by (auto simp: bufq_holds_def dyn_holds_def fix_holds_def ringbuf_reset_def rb_inv_def rb_used_def rb_bytes_def)

lemma bufq_holds_cong: "bq_ringbuf q' = bq_ringbuf q \<Longrightarrow> max_msg_size q' = max_msg_size q \<Longrightarrow>
    bufq_holds q' ms = bufq_holds q ms"
  by (simp add: bufq_holds_def)

section \<open>The invariant\<close>

lemma buf_queue_create_kinv:
  assumes inv: "kinv k" and fresh: "obj_type (blk_objs k queue) = RHINO_OBJ_TYPE_NONE"
    and room: "\<And>bytes. buf = Some bytes \<Longrightarrow> buf_size \<le> length bytes"
    and type: "type = RINGBUF_TYPE_DYN \<or> type = RINGBUF_TYPE_FIX \<and> max_msg dvd buf_size"
  shows "kinv (snd (buf_queue_create queue name buf buf_size max_msg flag type k))"
proof (cases "queue = NULL \<or> name = NULL \<or> max_msg = 0 \<or> buf_size = 0 \<or> buf = None")
  case True
  then show ?thesis using inv by (auto simp: buf_queue_create_def split: option.split)
next
  case False
  then obtain bytes where bytes: "buf = Some bytes" by blast
  let ?r = "snd (ringbuf_init (take buf_size bytes) type max_msg)"
  let ?k = "upd_buf_queue queue (\<lambda>x. x\<lparr>bq_cur_num := 0, bq_peak_num := 0, max_msg_size := max_msg,
    bq_mm_alloc_flag := flag, bq_ringbuf := ?r, min_free_buf_size := freesize ?r\<rparr>) k"
  let ?f = "\<lambda>x. x\<lparr>blk_list := [], blk_policy := BLK_POLICY_PRI, obj_type := RHINO_BUF_QUEUE_OBJ_TYPE\<rparr> :: blk_obj"
  have eq: "snd (buf_queue_create queue name buf buf_size max_msg flag type k) = upd_blk queue ?f ?k"
    by (rule kernel.equality) (use False bytes in \<open>auto simp: buf_queue_create_def\<close>)
  let ?b = "take buf_size bytes"
  have len: "length ?b = buf_size" using room [OF bytes] by simp
  then have ne: "?b \<noteq> []" using False by auto
  have "dyn_holds (length ?b) ?r [] \<or> fix_holds (length ?b) max_msg ?r []"
    using type False ne len dyn_holds_init [OF ne] fix_holds_init [OF ne, of max_msg] by auto
  moreover have "rb_end ?r = length ?b" using ringbuf_init_inv(6) [OF ne] by simp
  ultimately have qi: "bufq_inv (buf_queues ?k queue)"
    by (auto simp: bufq_inv_def bufq_holds_def)
  have "kinv (upd_blk queue ?f ?k)"
    by (rule kinv_new_header [OF inv _ fresh]) (use False qi in \<open>auto simp: obj_inv_def\<close>)
  then show ?thesis using eq by simp
qed

lemma buf_queue_del_kinv:
  assumes "kinv k"
  shows "kinv (snd (krhino_buf_queue_del queue k))" and "kinv (snd (krhino_buf_queue_dyn_del queue k))"
proof -
  have "kinv (core_sched (bufq_ring_reset queue (del_waiters queue k)))"
    if "queue \<noteq> NULL" "obj_type (blk_objs k queue) = RHINO_BUF_QUEUE_OBJ_TYPE"
    by (rule kinv_del_waiters [OF assms that(1)]) (simp_all add: that bufq_ring_reset_def)
  then show "kinv (snd (krhino_buf_queue_del queue k))" and "kinv (snd (krhino_buf_queue_dyn_del queue k))"
    using assms by (auto simp: krhino_buf_queue_del_def krhino_buf_queue_dyn_del_def del_waiters_def Let_def)
qed

lemma bufq_obj:
  assumes "kinv k" and "obj_type (blk_objs k q) = RHINO_BUF_QUEUE_OBJ_TYPE"
  obtains ms where "bufq_holds (buf_queues k q) ms" and "length ms = bq_cur_num (buf_queues k q)"
    and "pend_on k q = {} \<or> ms = []" and "\<And>t. t \<in> pend_on k q \<Longrightarrow> task_msg (tasks k t) \<noteq> 0"
  using kinvD(3) [OF assms(1), of q] assms(2) by (auto simp: obj_inv_def bufq_inv_def)

lemma kinv_upd_buf_queue:
  assumes inv: "kinv k" and q: "q \<noteq> NULL" "obj_type (blk_objs k q) = RHINO_BUF_QUEUE_OBJ_TYPE"
    and new: "bufq_holds (f (buf_queues k q)) ms" "length ms = bq_cur_num (f (buf_queues k q))"
    and free: "pend_on k q = {} \<or> ms = []"
  shows "kinv (upd_buf_queue q f k)"
proof (rule kinv_upd_obj [OF inv, where b = q])
  have "bufq_inv (f (buf_queues k q))" using new by (auto simp: bufq_inv_def)
  then show "obj_inv (upd_buf_queue q f k) q"
    using q kinvD(3) [OF inv, of q] free new(2) by (auto simp: obj_inv_def)
qed (use q in \<open>simp_all add: waits_same_tasks\<close>)

text \<open>The two ways of a send, as one update each.\<close>

lemma buf_queue_send_store:
  assumes "obj_type (blk_objs k queue) = RHINO_BUF_QUEUE_OBJ_TYPE"
    and "n \<le> max_msg_size (buf_queues k queue)" and "0 < n" and "blk_list (blk_objs k queue) = []"
    and put: "bufq_put front (bq_ringbuf (buf_queues k queue))
      (load_bytes msg (max_msg_size (buf_queues k queue)) k) n = (err, r)"
  shows "buf_queue_send queue msg n front k =
    (if err = RHINO_SUCCESS
     then (RHINO_SUCCESS, upd_buf_queue queue (\<lambda>q. q\<lparr>bq_ringbuf := r, bq_cur_num := bq_cur_num q + 1,
       bq_peak_num := max (bq_peak_num q) (bq_cur_num q + 1),
       min_free_buf_size := min (min_free_buf_size q) (freesize r)\<rparr>) k)
     else (if err = RHINO_RINGBUF_FULL then RHINO_BUF_QUEUE_FULL else err,
       upd_buf_queue queue (\<lambda>q. q\<lparr>bq_ringbuf := r\<rparr>) k))"
proof -
  let ?k = "upd_buf_queue queue (\<lambda>q. q\<lparr>bq_ringbuf := r\<rparr>) k"
  have "buf_queue_send queue msg n front k =
    (if err \<noteq> RHINO_SUCCESS then (if err = RHINO_RINGBUF_FULL then RHINO_BUF_QUEUE_FULL else err, ?k)
     else (RHINO_SUCCESS, upd_buf_queue queue (\<lambda>x. if min_free_buf_size x > freesize (bq_ringbuf x)
         then x\<lparr>min_free_buf_size := freesize (bq_ringbuf x)\<rparr> else x)
       (upd_buf_queue queue (\<lambda>x. if bq_peak_num x < bq_cur_num x then x\<lparr>bq_peak_num := bq_cur_num x\<rparr> else x)
         (upd_buf_queue queue (\<lambda>x. x\<lparr>bq_cur_num := bq_cur_num x + 1\<rparr>) ?k))))"
    using assms by (simp add: buf_queue_send_def bufq_put_def Let_def)
  then show ?thesis by (auto simp: upd_buf_queue_def max_def min_def)
qed

lemma bufq_wake_kinv:
  assumes inv: "kinv k" and q: "q \<noteq> NULL" "obj_type (blk_objs k q) = RHINO_BUF_QUEUE_OBJ_TYPE"
    and t: "t \<in> pend_on k q"
  shows "kinv (core_sched (pend_task_wakeup t (upd_task t (\<lambda>x. x\<lparr>bq_msg_size := n\<rparr>)
    (store_bytes (task_msg (tasks k t)) data k))))"
proof -
  let ?k1 = "store_bytes (task_msg (tasks k t)) data k"
  let ?k2 = "upd_task t (\<lambda>x. x\<lparr>bq_msg_size := n\<rparr>) ?k1"
  obtain ms where "task_msg (tasks k t) \<noteq> 0" using t by (metis bufq_obj [OF inv q(2)])
  then have k1: "kpre ?k1" by (rule kpre_store_bytes [OF kinv_kpre [OF inv]])
  have "t \<noteq> NULL" by (rule core_okD(11) [OF kinvD(5) [OF inv] pend_on_live [OF t]])
  then have same: "state_same ?k1 ?k2" by (intro state_same_upd_task) (simp_all add: task_same_def)
  then have k2: "kpre ?k2" by (rule kpre_state_same [OF k1]) (simp_all add: waits_same_def)
  have "t \<in> pend_on ?k2 q" using t state_same_sets(3) [OF same] by simp
  from wk.kpre_wake [OF k2 this] q(2) show ?thesis by (simp add: kpre_core_sched)
qed

lemma buf_queue_send_kinv:
  assumes inv: "kinv k" and q: "queue \<noteq> NULL"
    and blk: "front \<and> rb_type (bq_ringbuf (buf_queues k queue)) = RINGBUF_TYPE_FIX \<longrightarrow>
      n = max_msg_size (buf_queues k queue)"
  shows "kinv (snd (buf_queue_send queue msg n front k))"
proof (cases "obj_type (blk_objs k queue) = RHINO_BUF_QUEUE_OBJ_TYPE \<and> n \<le> max_msg_size (buf_queues k queue) \<and> 0 < n")
  case False
  then show ?thesis using inv by (auto simp: buf_queue_send_def)
next
  case True
  then have ty: "obj_type (blk_objs k queue) = RHINO_BUF_QUEUE_OBJ_TYPE"
    and n: "n \<le> max_msg_size (buf_queues k queue)" "0 < n" by simp_all
  let ?q = "buf_queues k queue" and ?data = "load_bytes msg (max_msg_size (buf_queues k queue)) k"
  show ?thesis
  proof (cases "blk_list (blk_objs k queue)")
    case (Cons t ts)
    then have "t \<in> pend_on k queue" using blk_list_pend_on [OF inv, of queue] by auto
    from bufq_wake_kinv [OF inv q ty this] ty n Cons show ?thesis by (simp add: buf_queue_send_def Let_def)
  next
    case Nil
    then have free: "pend_on k queue = {}" using blk_list_empty_iff [OF inv] by simp
    obtain ms where ms: "bufq_holds ?q ms" "length ms = bq_cur_num ?q" by (metis bufq_obj [OF inv ty])
    obtain err r where put: "bufq_put front (bq_ringbuf ?q) ?data n = (err, r)" by fastforce
    note eq = buf_queue_send_store [OF ty n Nil put]
    have len: "length ?data = max_msg_size ?q" by (simp add: load_bytes_def)
    show ?thesis
    proof (cases "err = RHINO_SUCCESS")
      case True
      then obtain m where "bufq_holds (?q\<lparr>bq_ringbuf := r\<rparr>) (if front then m # ms else ms @ [m])"
        using bufq_put_ok [OF ms(1) n(2,1) len blk] put by auto
      then have "kinv (upd_buf_queue queue (\<lambda>q. q\<lparr>bq_ringbuf := r, bq_cur_num := bq_cur_num q + 1,
         bq_peak_num := max (bq_peak_num q) (bq_cur_num q + 1),
         min_free_buf_size := min (min_free_buf_size q) (freesize r)\<rparr>) k)"
        using ms(2) free
        by (intro kinv_upd_buf_queue [OF inv q ty, where ms = "if front then m # ms else ms @ [m]"])
          (simp_all add: bufq_holds_def)
      then show ?thesis using True by (simp add: eq)
    next
      case False
      then have "r = bq_ringbuf ?q" using bufq_put_ok [OF ms(1) n(2,1) len blk] put by auto
      then have "kinv (upd_buf_queue queue (\<lambda>q. q\<lparr>bq_ringbuf := r\<rparr>) k)"
        using ms free by (intro kinv_upd_buf_queue [OF inv q ty, where ms = ms]) simp_all
      then show ?thesis using False by (simp add: eq)
    qed
  qed
qed

lemma buf_queue_recv_kinv:
  assumes inv: "kinv k" and a: "ticks \<noteq> RHINO_NO_WAIT \<Longrightarrow> g_intrpt_nested_level k = 0 \<Longrightarrow> g_sched_lock k = 0 \<Longrightarrow>
      g_active_task k \<noteq> g_idle_task"
  shows "kinv (snd (krhino_buf_queue_recv queue ticks msg size_ptr k))"
proof (cases "queue \<noteq> NULL \<and> msg \<noteq> 0 \<and> size_ptr \<noteq> 0 \<and> obj_type (blk_objs k queue) = RHINO_BUF_QUEUE_OBJ_TYPE \<and>
    (g_intrpt_nested_level k = 0 \<or> ticks = RHINO_NO_WAIT)")
  case False
  then show ?thesis using inv by (auto simp: krhino_buf_queue_recv_def RHINO_NO_WAIT_def word_greater_zero_iff)
next
  case ok: True
  then have q: "queue \<noteq> NULL" "obj_type (blk_objs k queue) = RHINO_BUF_QUEUE_OBJ_TYPE" by simp_all
  obtain ms where ms: "bufq_holds (buf_queues k queue) ms" "length ms = bq_cur_num (buf_queues k queue)"
    "pend_on k queue = {} \<or> ms = []" and ptr: "\<And>t. t \<in> pend_on k queue \<Longrightarrow> task_msg (tasks k t) \<noteq> 0"
    by (metis bufq_obj [OF inv q(2)])
  show ?thesis
  proof (cases ms)
    case (Cons m rest)
    obtain r where r: "ringbuf_pop (bq_ringbuf (buf_queues k queue)) = (RHINO_SUCCESS, m, length m, r)"
      "bufq_holds ((buf_queues k queue)\<lparr>bq_ringbuf := r\<rparr>) rest"
      using bufq_pop ms(1) unfolding Cons by blast
    have "kinv (upd_buf_queue queue (\<lambda>x. x\<lparr>bq_ringbuf := r, bq_cur_num := bq_cur_num x - 1\<rparr>) k)"
      using r(2) ms(2,3) Cons
      by (intro kinv_upd_buf_queue [OF inv q, where ms = rest]) (auto simp: bufq_holds_def)
    then show ?thesis
      using ok bufq_empty_iff [OF ms(1)] Cons r(1)
      by (auto simp: krhino_buf_queue_recv_def Let_def recv_out_def intro!: kinv_store32 kinv_store_bytes)
  next
    case Nil
    let ?k = "upd_task (g_active_task k) (\<lambda>x. x\<lparr>task_msg := msg\<rparr>) k"
    have "kinv (core_sched (pend_to_blk_obj queue (g_active_task k) ticks ?k))"
      if c: "g_intrpt_nested_level k = 0" "g_sched_lock k = 0" "ticks \<noteq> 0"
    proof -
      have rdy: "g_active_task k \<in> rdy k" by (rule kinv_active_rdy [OF inv c(1)])
      have nn: "g_active_task k \<noteq> NULL" by (rule winvD(7) [OF kinvD(1) [OF inv]])
      have "kinv ?k"
        by (rule kinv_state_same [OF inv state_same_upd_task [OF nn]])
          (use rdy in \<open>auto simp: task_same_def waits_same_def rdy_def pended_def\<close>)
      then have "kinv (core_sched (pend_to_blk_obj queue (g_active_task ?k) ticks ?k))"
      proof (rule kinv_block)
        fix k'
        assume "buf_queues k' queue = buf_queues ?k queue"
          and "obj_type (blk_objs k' queue) = obj_type (blk_objs ?k queue)"
          and p: "pend_on k' queue = insert (g_active_task ?k) (pend_on ?k queue)"
          and i: "\<And>t. pend_info (tasks k' t) = pend_info (tasks ?k t) \<and> task_msg (tasks k' t) = task_msg (tasks ?k t) \<and>
            pend_option (tasks k' t) = pend_option (tasks ?k t) \<and> pend_flags (tasks k' t) = pend_flags (tasks ?k t)"
        moreover have "task_msg (tasks ?k t) \<noteq> 0" if "t \<in> pend_on ?k queue" for t
          using that ptr ok by (auto simp: pend_on_def)
        ultimately show "obj_inv k' queue"
          using q ok ms Nil by (auto simp: obj_inv_def bufq_inv_def)
      qed (use a c q in \<open>auto simp: RHINO_NO_WAIT_def\<close>)
      then show ?thesis by simp
    qed
    then show ?thesis
      using ok bufq_empty_iff [OF ms(1)] Nil inv
      by (auto simp: krhino_buf_queue_recv_def Let_def RHINO_NO_WAIT_def word_greater_zero_iff intro!: kinv_store32)
  qed
qed

lemma buf_queue_flush_kinv:
  assumes inv: "kinv k"
  shows "kinv (snd (krhino_buf_queue_flush queue k))"
proof -
  let ?f = "\<lambda>q. q\<lparr>bq_ringbuf := snd (ringbuf_reset (bq_ringbuf q)), bq_cur_num := 0, bq_peak_num := 0,
    min_free_buf_size := freesize (snd (ringbuf_reset (bq_ringbuf q)))\<rparr>"
  have eq: "upd_buf_queue queue (\<lambda>x. x\<lparr>bq_cur_num := 0, bq_peak_num := 0, min_free_buf_size := freesize (bq_ringbuf x)\<rparr>)
      (bufq_ring_reset queue k) = upd_buf_queue queue ?f k"
    by (simp add: bufq_ring_reset_def upd_buf_queue_def)
  have "kinv (upd_buf_queue queue ?f k)"
    if q: "queue \<noteq> NULL" "obj_type (blk_objs k queue) = RHINO_BUF_QUEUE_OBJ_TYPE"
  proof -
    obtain ms where "bufq_holds (buf_queues k queue) ms" by (rule bufq_obj [OF inv q(2)])
    from bufq_reset [OF this] show ?thesis
      by (intro kinv_upd_buf_queue [OF inv q, where ms = "[]"]) (simp_all add: bufq_holds_def)
  qed
  then show ?thesis using inv eq by (auto simp: krhino_buf_queue_flush_def Let_def)
qed

end
