(* ===== verification/Rhino_Kernel.thy ===== *)
theory Rhino_Kernel
  imports Rhino_Sys Rhino_Event Rhino_Queue Rhino_Buf_Queue
begin

text \<open>
  The kernel as a whole. The calls of each component are a datatype, with one function that
  performs a call and one predicate for what the caller has to guarantee. The contract of a
  group of calls is the locale \<open>kernel_calls\<close>: a call whose conditions hold keeps the invariant of
  the kernel. It is interpreted for every component and for all calls together; \<open>reachable\<close> are
  the states of a system after its start.
\<close>

section \<open>The contract of a group of calls\<close>

primrec run_calls :: "('c \<Rightarrow> kernel \<Rightarrow> outcome \<times> kernel) \<Rightarrow> ('c \<Rightarrow> kernel \<Rightarrow> bool) \<Rightarrow> 'c list \<Rightarrow> kernel \<Rightarrow> kernel option" where
  "run_calls perform ok [] k = Some k"
| "run_calls perform ok (c # cs) k = (if ok c k then run_calls perform ok cs (snd (perform c k)) else None)"

locale kernel_calls =
  fixes perform :: "'c \<Rightarrow> kernel \<Rightarrow> outcome \<times> kernel"
    and ok :: "'c \<Rightarrow> kernel \<Rightarrow> bool"
  assumes keeps: "kinv k \<Longrightarrow> ok c k \<Longrightarrow> kinv (snd (perform c k))"
begin

lemma run_keeps: "kinv k \<Longrightarrow> run_calls perform ok cs k = Some k' \<Longrightarrow> kinv k'"
  by (induction cs arbitrary: k) (simp_all split: if_splits, blast intro: keeps)

end

text \<open>A call that cannot block returns a status.\<close>

definition ret :: "kstat \<times> kernel \<Rightarrow> outcome \<times> kernel" where
  "ret r = (Ret (fst r), snd r)"

lemma snd_ret [simp]: "snd (ret r) = snd r" and fst_ret [simp]: "fst (ret r) = Ret (fst r)"
  by (simp_all add: ret_def)

definition live_task :: "tid \<Rightarrow> kernel \<Rightarrow> bool" where
  "live_task t k \<longleftrightarrow> task_state (tasks k t) \<noteq> K_SEED \<and> task_state (tasks k t) \<noteq> K_DELETED"

lemma live_task_iff [simp]: "live_task t k \<longleftrightarrow> t \<in> live k"
  by (simp add: live_task_def live_def)

definition no_object :: "oid \<Rightarrow> kernel \<Rightarrow> bool" where
  "no_object b k \<longleftrightarrow> obj_type (blk_objs k b) = RHINO_OBJ_TYPE_NONE"

definition not_idle :: "kernel \<Rightarrow> bool" where
  "not_idle k \<longleftrightarrow> g_active_task k \<noteq> g_idle_task"

text \<open>A call that would block is not made by the idle task.\<close>

definition can_wait :: "u64 \<Rightarrow> kernel \<Rightarrow> bool" where
  "can_wait ticks k \<longleftrightarrow> ticks = RHINO_NO_WAIT \<or> g_intrpt_nested_level k \<noteq> 0 \<or> g_sched_lock k \<noteq> 0 \<or> not_idle k"

section \<open>Semaphores\<close>

datatype sem_call =
    Sem_create oid addr u32 | Sem_del oid | Sem_dyn_create oid u32 addr u32 | Sem_dyn_del oid
  | Sem_give oid | Sem_give_all oid | Sem_take oid u64 | Sem_count_set oid u32 | Sem_count_get oid u32
  | Task_sem_create tid oid addr u32 | Task_sem_del tid | Task_sem_give tid | Task_sem_take u64
  | Task_sem_count_set tid u32 | Task_sem_count_get tid u32

fun do_sem :: "sem_call \<Rightarrow> kernel \<Rightarrow> outcome \<times> kernel" where
  "do_sem (Sem_create sem name count) k = ret (krhino_sem_create sem name count k)"
| "do_sem (Sem_del sem) k = ret (krhino_sem_del sem k)"
| "do_sem (Sem_dyn_create obj sem name count) k = ret (krhino_sem_dyn_create obj sem name count k)"
| "do_sem (Sem_dyn_del sem) k = ret (krhino_sem_dyn_del sem k)"
| "do_sem (Sem_give sem) k = ret (krhino_sem_give sem k)"
| "do_sem (Sem_give_all sem) k = ret (krhino_sem_give_all sem k)"
| "do_sem (Sem_take sem ticks) k = krhino_sem_take sem ticks k"
| "do_sem (Sem_count_set sem count) k = ret (krhino_sem_count_set sem count k)"
| "do_sem (Sem_count_get sem count) k = ret (krhino_sem_count_get sem count k)"
| "do_sem (Task_sem_create task sem name count) k = ret (krhino_task_sem_create task sem name count k)"
| "do_sem (Task_sem_del task) k = ret (krhino_task_sem_del task k)"
| "do_sem (Task_sem_give task) k = ret (krhino_task_sem_give task k)"
| "do_sem (Task_sem_take ticks) k = krhino_task_sem_take ticks k"
| "do_sem (Task_sem_count_set task count) k = ret (krhino_task_sem_count_set task count k)"
| "do_sem (Task_sem_count_get task count) k = ret (krhino_task_sem_count_get task count k)"

text \<open>An object is created in memory that holds no live object; the idle task does not block.\<close>

fun ok_sem :: "sem_call \<Rightarrow> kernel \<Rightarrow> bool" where
  "ok_sem (Sem_create sem name count) k = no_object sem k"
| "ok_sem (Sem_dyn_create obj sem name count) k = no_object obj k"
| "ok_sem (Task_sem_create task sem name count) k = no_object sem k"
| "ok_sem (Sem_take sem ticks) k = can_wait ticks k"
| "ok_sem (Task_sem_take ticks) k = can_wait ticks k"
| "ok_sem _ k = True"

lemma sem_dyn_create_kinv:
  assumes "kinv k" and "obj_type (blk_objs k obj) = RHINO_OBJ_TYPE_NONE"
  shows "kinv (snd (krhino_sem_dyn_create obj sem name count k))"
  using sem_create_kinv [OF assms] assms(1)
  by (auto simp: krhino_sem_dyn_create_def Let_def split: prod.split intro!: kinv_store32)
    (metis snd_conv)+

lemma sem_calls_kinv: "kinv k \<Longrightarrow> ok_sem c k \<Longrightarrow> kinv (snd (do_sem c k))"
proof (cases c)
  case (Task_sem_create task sem name count)
  assume inv: "kinv k" and ok: "ok_sem c k"
  then have "kinv (snd (sem_create sem name count K_OBJ_STATIC_ALLOC k))"
    using Task_sem_create by (intro sem_create_kinv) (simp_all add: no_object_def)
  then show ?thesis
    using inv Task_sem_create
    by (auto simp: krhino_task_sem_create_def krhino_sem_create_def task_same_def Let_def split: prod.split intro!: kinv_upd_task)
qed (auto simp: no_object_def can_wait_def not_idle_def krhino_sem_create_def krhino_sem_give_def krhino_sem_give_all_def
    krhino_task_sem_del_def krhino_task_sem_give_def krhino_task_sem_take_def krhino_task_sem_count_set_def
    krhino_task_sem_count_get_def krhino_sem_count_get_def
    intro: sem_create_kinv sem_del_kinv sem_dyn_create_kinv sem_give_kinv sem_take_kinv sem_count_set_kinv kinv_store32)

interpretation sem: kernel_calls do_sem ok_sem
  by unfold_locales (rule sem_calls_kinv)

section \<open>Mutexes\<close>

datatype mutex_call =
    Mutex_create oid addr | Mutex_del oid | Mutex_dyn_create oid u32 addr | Mutex_dyn_del oid
  | Mutex_lock oid u64 | Mutex_unlock oid

fun do_mutex :: "mutex_call \<Rightarrow> kernel \<Rightarrow> outcome \<times> kernel" where
  "do_mutex (Mutex_create mutex name) k = ret (krhino_mutex_create mutex name k)"
| "do_mutex (Mutex_del mutex) k = ret (krhino_mutex_del mutex k)"
| "do_mutex (Mutex_dyn_create obj mutex name) k = ret (krhino_mutex_dyn_create obj mutex name k)"
| "do_mutex (Mutex_dyn_del mutex) k = ret (krhino_mutex_dyn_del mutex k)"
| "do_mutex (Mutex_lock mutex ticks) k = krhino_mutex_lock mutex ticks k"
| "do_mutex (Mutex_unlock mutex) k = ret (krhino_mutex_unlock mutex k)"

text \<open>The count of nested locks stays below its limit.\<close>

fun ok_mutex :: "mutex_call \<Rightarrow> kernel \<Rightarrow> bool" where
  "ok_mutex (Mutex_create mutex name) k = no_object mutex k"
| "ok_mutex (Mutex_dyn_create obj mutex name) k = no_object obj k"
| "ok_mutex (Mutex_lock mutex ticks) k \<longleftrightarrow> not_idle k \<and>
     (g_active_task k = mutex_task (mutexes k mutex) \<longrightarrow> owner_nested (mutexes k mutex) \<noteq> - 1)"
| "ok_mutex _ k = True"

lemma mutex_dyn_create_kinv:
  assumes "kinv k" and "obj_type (blk_objs k obj) = RHINO_OBJ_TYPE_NONE"
  shows "kinv (snd (krhino_mutex_dyn_create obj mutex name k))"
  using mutex_create_kinv [OF assms] assms(1)
  by (auto simp: krhino_mutex_dyn_create_def Let_def split: prod.split intro!: kinv_store32)
    (metis snd_conv)+

lemma mutex_calls_kinv: "kinv k \<Longrightarrow> ok_mutex c k \<Longrightarrow> kinv (snd (do_mutex c k))"
  by (cases c) (auto simp: no_object_def not_idle_def krhino_mutex_create_def
      intro: mutex_create_kinv mutex_del_kinv mutex_dyn_create_kinv mutex_lock_kinv mutex_unlock_kinv)

interpretation mutex: kernel_calls do_mutex ok_mutex
  by unfold_locales (rule mutex_calls_kinv)

section \<open>Events\<close>

datatype event_call =
    Event_create oid addr u32 | Event_del oid | Event_dyn_create oid u32 addr u32 | Event_dyn_del oid
  | Event_get oid u32 u8 u32 u64 | Event_set oid u32 u8

fun do_event :: "event_call \<Rightarrow> kernel \<Rightarrow> outcome \<times> kernel" where
  "do_event (Event_create event name flags) k = ret (krhino_event_create event name flags k)"
| "do_event (Event_del event) k = ret (krhino_event_del event k)"
| "do_event (Event_dyn_create obj event name flags) k = ret (krhino_event_dyn_create obj event name flags k)"
| "do_event (Event_dyn_del event) k = ret (krhino_event_dyn_del event k)"
| "do_event (Event_get event flags opt actl_flags ticks) k = krhino_event_get event flags opt actl_flags ticks k"
| "do_event (Event_set event flags opt) k = ret (krhino_event_set event flags opt k)"

fun ok_event :: "event_call \<Rightarrow> kernel \<Rightarrow> bool" where
  "ok_event (Event_create event name flags) k = no_object event k"
| "ok_event (Event_dyn_create obj event name flags) k = no_object obj k"
| "ok_event (Event_get event flags opt actl_flags ticks) k = can_wait ticks k"
| "ok_event _ k = True"

lemma event_dyn_create_kinv:
  assumes "kinv k" and "obj_type (blk_objs k obj) = RHINO_OBJ_TYPE_NONE"
  shows "kinv (snd (krhino_event_dyn_create obj event name flags k))"
  using event_create_kinv [OF assms] assms(1)
  by (auto simp: krhino_event_dyn_create_def Let_def split: prod.split intro!: kinv_store32)
    (metis snd_conv)+

lemma event_calls_kinv: "kinv k \<Longrightarrow> ok_event c k \<Longrightarrow> kinv (snd (do_event c k))"
  by (cases c) (auto simp: no_object_def can_wait_def not_idle_def krhino_event_create_def krhino_event_set_def
      intro: event_create_kinv event_del_kinv event_dyn_create_kinv event_get_kinv event_set_kinv)

interpretation event: kernel_calls do_event ok_event
  by unfold_locales (rule event_calls_kinv)

section \<open>Queues\<close>

datatype queue_call =
    Queue_create oid addr "u8 list option" nat | Queue_del oid
  | Queue_dyn_create oid "u8 list option" u32 addr nat | Queue_dyn_del oid
  | Queue_front_send oid u32 | Queue_back_send oid u32 | Queue_all_send oid u32 u8
  | Queue_recv oid u64 u32 | Queue_flush oid

fun do_queue :: "queue_call \<Rightarrow> kernel \<Rightarrow> outcome \<times> kernel" where
  "do_queue (Queue_create queue name start num) k = ret (krhino_queue_create queue name start num k)"
| "do_queue (Queue_del queue) k = ret (krhino_queue_del queue k)"
| "do_queue (Queue_dyn_create obj start queue name num) k = ret (krhino_queue_dyn_create obj start queue name num k)"
| "do_queue (Queue_dyn_del queue) k = ret (krhino_queue_dyn_del queue k)"
| "do_queue (Queue_front_send queue msg) k = ret (krhino_queue_front_send queue msg k)"
| "do_queue (Queue_back_send queue msg) k = ret (krhino_queue_back_send queue msg k)"
| "do_queue (Queue_all_send queue msg opt) k = ret (krhino_queue_all_send queue msg opt k)"
| "do_queue (Queue_recv queue ticks msg) k = krhino_queue_recv queue ticks msg k"
| "do_queue (Queue_flush queue) k = ret (krhino_queue_flush queue k)"

text \<open>The storage of a queue has room for its messages.\<close>

fun has_room :: "nat \<Rightarrow> u8 list option \<Rightarrow> bool" where
  "has_room n None = True"
| "has_room n (Some bytes) \<longleftrightarrow> n \<le> length bytes"

lemma has_roomD: "has_room n buf \<Longrightarrow> buf = Some bytes \<Longrightarrow> n \<le> length bytes"
  by simp

fun ok_queue :: "queue_call \<Rightarrow> kernel \<Rightarrow> bool" where
  "ok_queue (Queue_create queue name start num) k \<longleftrightarrow> no_object queue k \<and> has_room (num * 4) start"
| "ok_queue (Queue_dyn_create obj start queue name num) k \<longleftrightarrow> no_object obj k \<and> has_room (num * 4) start"
| "ok_queue (Queue_recv queue ticks msg) k = can_wait ticks k"
| "ok_queue _ k = True"

lemma queue_dyn_create_kinv:
  assumes "kinv k" and "obj_type (blk_objs k obj) = RHINO_OBJ_TYPE_NONE" and "has_room (num * 4) start"
  shows "kinv (snd (krhino_queue_dyn_create obj start queue name num k))"
proof -
  have "kinv (snd (queue_create obj name start num flag k))" for flag
    by (rule queue_create_kinv [OF assms(1,2)]) (use assms(3) in simp)
  then show ?thesis
    using assms(1) by (auto simp: krhino_queue_dyn_create_def Let_def split: prod.split intro!: kinv_store32) (metis snd_conv)+
qed

lemma queue_calls_kinv: "kinv k \<Longrightarrow> ok_queue c k \<Longrightarrow> kinv (snd (do_queue c k))"
  by (cases c) (auto simp: no_object_def can_wait_def not_idle_def krhino_queue_create_def krhino_queue_front_send_def
      krhino_queue_back_send_def krhino_queue_all_send_def
      intro: queue_create_kinv has_roomD queue_del_kinv queue_dyn_create_kinv msg_send_kinv queue_recv_kinv queue_flush_kinv)

interpretation queue: kernel_calls do_queue ok_queue
  by unfold_locales (rule queue_calls_kinv)


section \<open>Buffer queues\<close>

datatype buf_queue_call =
    Buf_queue_create oid addr "u8 list option" nat nat | Fix_buf_queue_create oid addr "u8 list option" nat nat
  | Buf_queue_del oid | Buf_queue_dyn_create oid "u8 list option" u32 addr nat nat | Buf_queue_dyn_del oid
  | Buf_queue_send oid u32 nat | Buf_queue_send_front oid u32 nat | Buf_queue_recv oid u64 u32 u32 | Buf_queue_flush oid

fun do_buf_queue :: "buf_queue_call \<Rightarrow> kernel \<Rightarrow> outcome \<times> kernel" where
  "do_buf_queue (Buf_queue_create queue name bytes n m) k = ret (krhino_buf_queue_create queue name bytes n m k)"
| "do_buf_queue (Fix_buf_queue_create queue name bytes m n) k = ret (krhino_fix_buf_queue_create queue name bytes m n k)"
| "do_buf_queue (Buf_queue_del queue) k = ret (krhino_buf_queue_del queue k)"
| "do_buf_queue (Buf_queue_dyn_create obj bytes queue name n m) k = ret (krhino_buf_queue_dyn_create obj bytes queue name n m k)"
| "do_buf_queue (Buf_queue_dyn_del queue) k = ret (krhino_buf_queue_dyn_del queue k)"
| "do_buf_queue (Buf_queue_send queue msg n) k = ret (krhino_buf_queue_send queue msg n k)"
| "do_buf_queue (Buf_queue_send_front queue msg n) k = ret (krhino_buf_queue_send_front queue msg n k)"
| "do_buf_queue (Buf_queue_recv queue ticks msg n) k = krhino_buf_queue_recv queue ticks msg n k"
| "do_buf_queue (Buf_queue_flush queue) k = ret (krhino_buf_queue_flush queue k)"

text \<open>A message put in front of a ring of fixed-size blocks fills its block.\<close>

fun ok_buf_queue :: "buf_queue_call \<Rightarrow> kernel \<Rightarrow> bool" where
  "ok_buf_queue (Buf_queue_create queue name bytes n m) k \<longleftrightarrow> no_object queue k \<and> has_room n bytes"
| "ok_buf_queue (Fix_buf_queue_create queue name bytes m n) k \<longleftrightarrow> no_object queue k \<and> has_room (m * n) bytes"
| "ok_buf_queue (Buf_queue_dyn_create obj bytes queue name n m) k \<longleftrightarrow> no_object obj k \<and> has_room n bytes"
| "ok_buf_queue (Buf_queue_send_front queue msg n) k \<longleftrightarrow>
     (rb_type (bq_ringbuf (buf_queues k queue)) = RINGBUF_TYPE_FIX \<longrightarrow> n = max_msg_size (buf_queues k queue))"
| "ok_buf_queue (Buf_queue_recv queue ticks msg n) k = can_wait ticks k"
| "ok_buf_queue _ k = True"

lemma buf_queue_create_room:
  assumes "kinv k" and "no_object queue k" and "has_room n bytes"
    and "type = RINGBUF_TYPE_DYN \<or> type = RINGBUF_TYPE_FIX \<and> m dvd n"
  shows "kinv (snd (buf_queue_create queue name bytes n m flag type k))"
  by (rule buf_queue_create_kinv) (use assms in \<open>auto simp: no_object_def\<close>)

lemma buf_queue_dyn_create_kinv:
  assumes "kinv k" and "no_object obj k" and "has_room n bytes"
  shows "kinv (snd (krhino_buf_queue_dyn_create obj bytes queue name n m k))"
  using buf_queue_create_room [OF assms, of RINGBUF_TYPE_DYN m name K_OBJ_DYN_ALLOC] assms(1)
  by (auto simp: krhino_buf_queue_dyn_create_def Let_def split: prod.split intro!: kinv_store32)

lemma buf_queue_calls_kinv: "kinv k \<Longrightarrow> ok_buf_queue c k \<Longrightarrow> kinv (snd (do_buf_queue c k))"
  by (cases c) (auto simp: can_wait_def not_idle_def krhino_buf_queue_create_def krhino_fix_buf_queue_create_def
      krhino_buf_queue_send_def krhino_buf_queue_send_front_def
      intro: buf_queue_create_room buf_queue_del_kinv buf_queue_dyn_create_kinv buf_queue_send_kinv buf_queue_recv_kinv
        buf_queue_flush_kinv)

interpretation buf_queue: kernel_calls do_buf_queue ok_buf_queue
  by unfold_locales (rule buf_queue_calls_kinv)

section \<open>Tasks\<close>

datatype task_call =
    Task_create tid addr nat u64 addr nat addr u8 | Task_dyn_create addr tid u32 addr nat u64 nat addr u8
  | Task_sleep u64 | Task_yield | Task_suspend tid | Task_resume tid | Task_pri_change tid nat u32
  | Task_wait_abort tid | Task_del tid | Task_dyn_del tid | Task_time_slice_set tid u32
  | Sched_policy_set tid u8 | Sched_policy_get tid u32 | Task_info_set tid nat u32 | Task_info_get tid nat u32

fun do_task :: "task_call \<Rightarrow> kernel \<Rightarrow> outcome \<times> kernel" where
  "do_task (Task_create task name pri ticks stack_buf stack_size entry autorun) k =
     ret (krhino_task_create task name pri ticks stack_buf stack_size entry autorun k)"
| "do_task (Task_dyn_create task_stack task_obj task name pri ticks stack entry autorun) k =
     ret (krhino_task_dyn_create task_stack task_obj task name pri ticks stack entry autorun k)"
| "do_task (Task_sleep ticks) k = krhino_task_sleep ticks k"
| "do_task Task_yield k = ret (krhino_task_yield k)"
| "do_task (Task_suspend task) k = ret (krhino_task_suspend task k)"
| "do_task (Task_resume task) k = ret (krhino_task_resume task k)"
| "do_task (Task_pri_change task pri old_pri) k = ret (krhino_task_pri_change task pri old_pri k)"
| "do_task (Task_wait_abort task) k = ret (krhino_task_wait_abort task k)"
| "do_task (Task_del task) k = ret (krhino_task_del task k)"
| "do_task (Task_dyn_del task) k = ret (krhino_task_dyn_del task k)"
| "do_task (Task_time_slice_set task n) k = ret (krhino_task_time_slice_set task n k)"
| "do_task (Sched_policy_set task policy) k = ret (krhino_sched_policy_set task policy k)"
| "do_task (Sched_policy_get task policy) k = ret (krhino_sched_policy_get task policy k)"
| "do_task (Task_info_set task idx info) k = ret (krhino_task_info_set task idx info k)"
| "do_task (Task_info_get task idx info) k = ret (krhino_task_info_get task idx info k)"

text \<open>
  A control block is created where no live task is. Yielding is left to tasks, the idle task
  does not sleep, and a task that is deleted is live; the semaphore for the memory of deleted
  tasks has not been deleted and has not reached its limit.
\<close>

fun ok_task :: "task_call \<Rightarrow> kernel \<Rightarrow> bool" where
  "ok_task (Task_create task name pri ticks stack_buf stack_size entry autorun) k = (\<not> live_task task k)"
| "ok_task (Task_dyn_create task_stack task_obj task name pri ticks stack entry autorun) k = (\<not> live_task task_obj k)"
| "ok_task (Task_sleep ticks) k = not_idle k"
| "ok_task Task_yield k \<longleftrightarrow> g_intrpt_nested_level k = 0"
| "ok_task (Task_pri_change task pri old_pri) k \<longleftrightarrow> task_state (tasks k task) \<noteq> K_SEED"
| "ok_task (Task_del task) k \<longleftrightarrow> task = NULL \<or> live_task task k"
| "ok_task (Task_dyn_del task) k \<longleftrightarrow> (task = NULL \<or> live_task task k) \<and>
     obj_type (blk_objs k g_res_sem) = RHINO_SEM_OBJ_TYPE \<and> sem_count (sems k g_res_sem) \<noteq> - 1 \<and> g_sched_lock k \<noteq> - 1"
| "ok_task _ k = True"

lemma task_calls_kinv: "kinv k \<Longrightarrow> ok_task c k \<Longrightarrow> kinv (snd (do_task c k))"
  by (cases c) (auto simp: not_idle_def krhino_task_create_def
      intro: task_create_kinv task_dyn_create_kinv task_sleep_kinv task_yield_kinv task_suspend_kinv task_resume_kinv
        task_pri_change_kinv task_wait_abort_kinv task_del_kinv task_dyn_del_kinv task_setters_kinv)

interpretation task: kernel_calls do_task ok_task
  by unfold_locales (rule task_calls_kinv)

section \<open>Scheduler and interrupts\<close>

datatype sys_call = Sched_disable | Sched_enable | Intrpt_enter | Intrpt_exit | Tick_proc | Dyn_mem_drain

fun do_sys :: "sys_call \<Rightarrow> kernel \<Rightarrow> outcome \<times> kernel" where
  "do_sys Sched_disable k = ret (krhino_sched_disable k)"
| "do_sys Sched_enable k = ret (krhino_sched_enable k)"
| "do_sys Intrpt_enter k = ret (krhino_intrpt_enter k)"
| "do_sys Intrpt_exit k = (Ret RHINO_SUCCESS, krhino_intrpt_exit k)"
| "do_sys Tick_proc k = (Ret RHINO_SUCCESS, krhino_tick_proc k)"
| "do_sys Dyn_mem_drain k = (Ret RHINO_SUCCESS, snd (dyn_mem_proc_drain k))"

text \<open>Interrupts nest up to the configured depth, and the tick handler runs in an interrupt.\<close>

fun ok_sys :: "sys_call \<Rightarrow> kernel \<Rightarrow> bool" where
  "ok_sys Intrpt_enter k \<longleftrightarrow> g_intrpt_nested_level k < RHINO_CONFIG_INTRPT_MAX_NESTED_LEVEL"
| "ok_sys Intrpt_exit k \<longleftrightarrow> g_intrpt_nested_level k \<noteq> 0"
| "ok_sys Tick_proc k \<longleftrightarrow> g_intrpt_nested_level k \<noteq> 0"
| "ok_sys _ k = True"

lemma dyn_mem_drain_eq: "dyn_mem_proc_drain k = (g_res_list k, k\<lparr>g_res_list := []\<rparr>)"
  by (induction k rule: dyn_mem_proc_drain.induct) (subst dyn_mem_proc_drain.simps, simp split: list.split)

lemma dyn_mem_drain_kinv: "kinv k \<Longrightarrow> kinv (snd (dyn_mem_proc_drain k))"
  using kinv_fields [of k "k\<lparr>g_res_list := []\<rparr>"] kinvD(4) [of k]
  by (simp add: dyn_mem_drain_eq kinv_def sched_ok_def)

lemma sys_calls_kinv: "kinv k \<Longrightarrow> ok_sys c k \<Longrightarrow> kinv (snd (do_sys c k))"
  by (cases c) (simp_all add: sched_disable_kinv sched_enable_kinv intrpt_enter_kinv intrpt_exit_kinv tick_proc_kinv
      dyn_mem_drain_kinv)

interpretation sys: kernel_calls do_sys ok_sys
  by unfold_locales (rule sys_calls_kinv)

section \<open>All calls\<close>

datatype kcall =
    Sem sem_call | Mutex mutex_call | Event event_call | Queue queue_call | Buf_queue buf_queue_call
  | Task task_call | Sys sys_call

fun do_call :: "kcall \<Rightarrow> kernel \<Rightarrow> outcome \<times> kernel" where
  "do_call (Sem c) k = do_sem c k"
| "do_call (Mutex c) k = do_mutex c k"
| "do_call (Event c) k = do_event c k"
| "do_call (Queue c) k = do_queue c k"
| "do_call (Buf_queue c) k = do_buf_queue c k"
| "do_call (Task c) k = do_task c k"
| "do_call (Sys c) k = do_sys c k"

fun ok_call :: "kcall \<Rightarrow> kernel \<Rightarrow> bool" where
  "ok_call (Sem c) k = ok_sem c k"
| "ok_call (Mutex c) k = ok_mutex c k"
| "ok_call (Event c) k = ok_event c k"
| "ok_call (Queue c) k = ok_queue c k"
| "ok_call (Buf_queue c) k = ok_buf_queue c k"
| "ok_call (Task c) k = ok_task c k"
| "ok_call (Sys c) k = ok_sys c k"

interpretation kcalls: kernel_calls do_call ok_call
proof
  fix k c assume "kinv k" and "ok_call c k"
  then show "kinv (snd (do_call c k))"
    by (cases c) (simp_all add: sem.keeps mutex.keeps event.keeps queue.keeps buf_queue.keeps task.keeps sys.keeps)
qed

text \<open>
  The system: it is initialised, tasks and semaphores are created, it is started; then tasks and
  interrupt handlers make their calls.
\<close>

inductive preparing :: "kernel \<Rightarrow> bool" where
  init: "task_obj \<noteq> g_idle_task \<Longrightarrow> preparing (snd (krhino_init task_stack task_obj dyn_mem_task zeroed_kernel))"
| new_task: "preparing k \<Longrightarrow> \<not> live_task task k \<Longrightarrow>
    preparing (snd (krhino_task_create task name pri ticks stack_buf stack_size entry autorun k))"
| new_sem: "preparing k \<Longrightarrow> preparing (snd (krhino_sem_create sem name count k))"

inductive reachable :: "kernel \<Rightarrow> bool" where
  start: "preparing k \<Longrightarrow> reachable (snd (krhino_start k))"
| call: "reachable k \<Longrightarrow> ok_call c k \<Longrightarrow> reachable (snd (do_call c k))"

inductive_cases reachableE: "reachable k"

lemma preparing_boot:
  "preparing k \<Longrightarrow> boot k \<and> g_idle_task \<in> rdy k \<and> b_prio (tasks k g_idle_task) = RHINO_IDLE_PRI"
proof (induction rule: preparing.induct)
  case (init task_obj task_stack dyn_mem_task)
  then show ?case using init_boot by blast
next
  case (new_task k task name pri ticks stack_buf stack_size entry autorun)
  let ?r = "task_create task name pri ticks stack_buf stack_size entry autorun K_OBJ_STATIC_ALLOC k"
  have b: "boot k" and t: "task \<notin> live k" using new_task by simp_all
  note c = boot_task_create [OF b t, of name pri ticks stack_buf stack_size entry autorun K_OBJ_STATIC_ALLOC]
  have "task \<noteq> g_idle_task" using t new_task.IH rdy_live by auto
  then have "tasks (snd ?r) g_idle_task = tasks k g_idle_task" using c(2,3) by (cases "fst ?r = RHINO_SUCCESS") simp_all
  then show ?case using c(1) new_task.IH by (simp add: krhino_task_create_def rdy_def)
next
  case (new_sem k sem name count)
  then show ?case
    using boot_sem_create [of k sem name count]
    by (auto simp: rdy_def krhino_sem_create_def sem_create_def Let_def)
qed

theorem reachable_kinv: "reachable k \<Longrightarrow> kinv k"
  by (induction rule: reachable.induct) (use preparing_boot boot_start kcalls.keeps in blast)+

end
