(* ===== verification/Rhino_Example.thy ===== *)
theory Rhino_Example
  imports Rhino_Kernel
begin

text \<open>
  States of a small running system, the concrete inputs of the examples: each is reached by calls
  from the start, and what is needed of it is evaluated.
\<close>

section \<open>A system for the examples\<close>

text \<open>
  A system after its start, and four calls later: the task with address 2, of priority 60, has
  created and locked the mutex 20 and created task 10 of priority 30; that task runs at once, tries
  to lock the mutex and waits.
\<close>

definition started :: kernel where
  "started = snd (krhino_start (snd (krhino_init 8 2 4 zeroed_kernel)))"

definition has_mutex :: kernel where
  "has_mutex = snd (do_call (Mutex (Mutex_create 20 1)) started)"

definition holds_mutex :: kernel where
  "holds_mutex = snd (do_call (Mutex (Mutex_lock 20 RHINO_WAIT_FOREVER)) has_mutex)"

definition preempted :: kernel where
  "preempted = snd (do_call (Task (Task_create 10 1 30 0 1 64 1 1)) holds_mutex)"

definition contended :: kernel where
  "contended = snd (do_call (Mutex (Mutex_lock 20 100)) preempted)"

lemma started_reachable: "reachable started"
  unfolding started_def by (intro reachable.start preparing.init) (simp add: g_idle_task_def)

lemma started_facts:
  "g_active_task started = 2 \<and> task_state (tasks started 2) = K_RDY \<and> prio (tasks started 2) = 60 \<and>
   g_sched_lock started = 0 \<and> g_intrpt_nested_level started = 0 \<and> cur_list_item started 60 = [2] \<and> g_tick_head started = [] \<and>
   obj_type (blk_objs started 1) = RHINO_SEM_OBJ_TYPE"
  by code_simp

lemma preempted_facts:
  "g_active_task preempted = 10 \<and> mutexes preempted 20 = \<lparr>mutex_task = 2, owner_nested = 1, mutex_mm_alloc_flag = 1\<rparr> \<and>
   task_state (tasks preempted 2) = K_RDY \<and> prio (tasks preempted 2) = 60 \<and> b_prio (tasks preempted 2) = 60 \<and>
   task_state (tasks preempted 10) = K_RDY \<and> prio (tasks preempted 10) = 30 \<and>
   cur_list_item preempted 60 = [2] \<and> cur_list_item preempted 30 = [10] \<and> highest_pri preempted = 30 \<and>
   blk_objs preempted 20 = \<lparr>blk_list = [], blk_policy = BLK_POLICY_PRI, obj_type = RHINO_MUTEX_OBJ_TYPE\<rparr> \<and>
   g_sched_lock preempted = 0 \<and> g_intrpt_nested_level preempted = 0 \<and> g_sys_stat preempted = RHINO_RUNNING"
  by code_simp

lemma has_mutex_reachable: "reachable has_mutex"
proof -
  have "ok_call (Mutex (Mutex_create 20 1)) started" by code_simp
  then show ?thesis unfolding has_mutex_def by (intro reachable.call started_reachable)
qed

lemma preempted_reachable: "reachable preempted"
proof -
  have "ok_call (Mutex (Mutex_lock 20 RHINO_WAIT_FOREVER)) has_mutex" by code_simp
  then have "reachable holds_mutex" unfolding holds_mutex_def by (intro reachable.call has_mutex_reachable)
  moreover have "ok_call (Task (Task_create 10 1 30 0 1 64 1 1)) holds_mutex" by code_simp
  ultimately show ?thesis unfolding preempted_def by (intro reachable.call)
qed

lemma contended_reachable: "reachable contended"
  unfolding contended_def
  by (intro reachable.call preempted_reachable) (simp add: preempted_facts can_wait_def not_idle_def g_idle_task_def)

lemma contended_facts:
  "prio (tasks contended 2) = 30" "b_prio (tasks contended 2) = 60" "task_state (tasks contended 2) = K_RDY"
  "task_state (tasks contended 10) = K_PEND" "blk_obj (tasks contended 10) = 20" "prio (tasks contended 10) = 30"
  "mutex_task (mutexes contended 20) = 2" "obj_type (blk_objs contended 20) = RHINO_MUTEX_OBJ_TYPE"
  "tick_head (tasks contended 10)" "tick_match (tasks contended 10) = g_tick_count contended + 100"
  "g_intrpt_nested_level contended = 0" "g_sched_lock contended = 0"
  "owner_nested (mutexes contended 20) = 1" "blk_list (blk_objs contended 20) = [10]"
  by (simp_all add: contended_def krhino_mutex_lock_def preempted_facts task_pri_change_def pri_loop.simps [of 2] Let_def
      pend_to_blk_obj_def RHINO_NO_WAIT_def RHINO_WAIT_FOREVER_def tick_list_insert_def tick_list_pri_insert_def
      pend_list_add_def insert_before_def)

lemma contended_active: "g_active_task contended = 2"
proof -
  have "highest_pri contended = 30" "cur_list_item contended 30 = [2]"
    by (simp_all add: contended_def krhino_mutex_lock_def preempted_facts task_pri_change_def pri_loop.simps [of 2] Let_def
        pend_to_blk_obj_def RHINO_NO_WAIT_def RHINO_WAIT_FOREVER_def tick_list_insert_def tick_list_pri_insert_def
        ready_list_rm_def ready_list_add_tail_def is_ready_list_empty_def)
  then show ?thesis
    using kinvD(4) [OF reachable_kinv [OF contended_reachable]] by (simp add: sched_ok_def contended_facts top_task_def)
qed

text \<open>A queue with room for two messages.\<close>

definition has_queue :: kernel where
  "has_queue = snd (do_call (Queue (Queue_create 30 1 (Some (replicate 8 0)) 2)) started)"

lemma has_queue_facts:
  "obj_type (blk_objs has_queue 30) = RHINO_QUEUE_OBJ_TYPE \<and> blk_list (blk_objs has_queue 30) = [] \<and>
   q_size (queues has_queue 30) = 2 \<and> q_cur_num (queues has_queue 30) = 0"
  by code_simp

lemma has_queue_reachable: "reachable has_queue"
proof -
  have "ok_call (Queue (Queue_create 30 1 (Some (replicate 8 0)) 2)) started" by code_simp
  then show ?thesis unfolding has_queue_def by (intro reachable.call started_reachable)
qed

text \<open>A buffer queue over sixteen bytes for messages of up to eight bytes.\<close>

definition has_buf_queue :: kernel where
  "has_buf_queue = snd (do_call (Buf_queue (Buf_queue_create 31 1 (Some (replicate 16 0)) 16 8)) started)"

lemma has_buf_queue_facts:
  "obj_type (blk_objs has_buf_queue 31) = RHINO_BUF_QUEUE_OBJ_TYPE \<and> blk_list (blk_objs has_buf_queue 31) = [] \<and>
   max_msg_size (buf_queues has_buf_queue 31) = 8 \<and> bq_cur_num (buf_queues has_buf_queue 31) = 0 \<and>
   rb_end (bq_ringbuf (buf_queues has_buf_queue 31)) = 16 \<and>
   rb_type (bq_ringbuf (buf_queues has_buf_queue 31)) = RINGBUF_TYPE_DYN"
  by code_simp

lemma has_buf_queue_reachable: "reachable has_buf_queue"
proof -
  have "ok_call (Buf_queue (Buf_queue_create 31 1 (Some (replicate 16 0)) 16 8)) started" by code_simp
  then show ?thesis unfolding has_buf_queue_def by (intro reachable.call started_reachable)
qed

text \<open>A task that waits for one of two event flags and will clear it.\<close>

definition has_event :: kernel where
  "has_event = snd (do_call (Event (Event_create 40 1 0)) started)"

definition awaits_event :: kernel where
  "awaits_event = snd (do_call (Event (Event_get 40 1 RHINO_OR_CLEAR 100 RHINO_WAIT_FOREVER)) has_event)"

lemma has_event_facts:
  "obj_type (blk_objs has_event 40) = RHINO_EVENT_OBJ_TYPE \<and> blk_list (blk_objs has_event 40) = [] \<and>
   blk_policy (blk_objs has_event 40) = BLK_POLICY_PRI \<and> event_flags (events has_event 40) = 0 \<and>
   g_active_task has_event = 2 \<and> g_sched_lock has_event = 0 \<and> g_intrpt_nested_level has_event = 0"
  by code_simp

lemma awaits_event_reachable: "reachable awaits_event"
proof -
  have "ok_call (Event (Event_create 40 1 0)) started" by code_simp
  then have "reachable has_event" unfolding has_event_def by (intro reachable.call started_reachable)
  then show ?thesis unfolding awaits_event_def
    by (rule reachable.call) (simp add: has_event_facts can_wait_def not_idle_def g_idle_task_def)
qed

lemma awaits_event_facts:
  "obj_type (blk_objs awaits_event 40) = RHINO_EVENT_OBJ_TYPE" "blk_list (blk_objs awaits_event 40) = [2]"
  "event_flags (events awaits_event 40) = 0" "pend_option (tasks awaits_event 2) = RHINO_OR_CLEAR"
  "pend_flags (tasks awaits_event 2) = 1" "task_state (tasks awaits_event 2) = K_PEND"
  "pend_info (tasks awaits_event 2) = 100"
  "blk_obj (tasks awaits_event 2) = 40"
  by (simp_all add: awaits_event_def krhino_event_get_def has_event_facts flags_met_def event_konst RHINO_NO_WAIT_def
      RHINO_WAIT_FOREVER_def pend_to_blk_obj_def pend_list_add_def insert_before_def Let_def)

end
