(* ===== verification/Rhino_Services.thy ===== *)
theory Rhino_Services
  imports Rhino_Example
begin

text \<open>
  What the calls do in a running system: time, semaphores, mutexes, queues, events and tasks.
\<close>

section \<open>Time\<close>

text \<open>One timer interrupt: the handler enters, counts the tick and leaves.\<close>

definition tick_interrupt :: "kernel \<Rightarrow> kernel" where
  "tick_interrupt k = krhino_intrpt_exit (krhino_tick_proc (snd (krhino_intrpt_enter k)))"

lemma time_slice_update_frame:
  "g_intrpt_nested_level (time_slice_update p k) = g_intrpt_nested_level k"
  "g_sched_lock (time_slice_update p k) = g_sched_lock k" "g_active_task (time_slice_update p k) = g_active_task k"
  "g_tick_count (time_slice_update p k) = g_tick_count k" "blk_objs (time_slice_update p k) = blk_objs k"
  "g_tick_head (time_slice_update p k) = g_tick_head k"
  "task_state (tasks (time_slice_update p k) t) = task_state (tasks k t)"
  "blk_state (tasks (time_slice_update p k) t) = blk_state (tasks k t)"
  "tick_head (tasks (time_slice_update p k) t) = tick_head (tasks k t)"
  "tick_match (tasks (time_slice_update p k) t) = tick_match (tasks k t)"
  by (simp_all add: time_slice_update_def Let_def split: list.split)

lemma tick_interrupt_reachable:
  assumes "reachable k" and "g_intrpt_nested_level k = 0"
  shows "reachable (tick_interrupt k)"
proof -
  let ?k1 = "snd (do_call (Sys Intrpt_enter) k)"
  have lim: "(0::u8) < RHINO_CONFIG_INTRPT_MAX_NESTED_LEVEL" by (simp add: konst)
  have n1: "g_intrpt_nested_level ?k1 = 1" using assms(2) lim by (simp add: krhino_intrpt_enter_def not_le)
  have 1: "reachable ?k1" by (rule reachable.call [OF assms(1)]) (use assms(2) lim in simp)
  let ?k2 = "snd (do_call (Sys Tick_proc) ?k1)"
  have 2: "reachable ?k2" by (rule reachable.call [OF 1]) (use n1 in simp)
  have "g_intrpt_nested_level ?k2 = 1"
    using n1 tick_list_update_ok(2) [OF kinv_kpre [OF reachable_kinv [OF 1]]] by (simp add: krhino_tick_proc_def Let_def time_slice_update_frame)
  then have "reachable (snd (do_call (Sys Intrpt_exit) ?k2))" by (intro reachable.call [OF 2]) simp
  then show ?thesis by (simp add: tick_interrupt_def)
qed


text \<open>What a timer interrupt does to one task is what the walk over the tick list does.\<close>

lemma tick_interrupt_task:
  assumes "kinv k" and "g_intrpt_nested_level k = 0"
  shows "g_intrpt_nested_level (tick_interrupt k) = 0"
    and "task_state (tasks (tick_interrupt k) t) = (if t \<in> set (takeWhile (due (tick_counted k)) (g_tick_head k))
      then expired_state (task_state (tasks k t)) else task_state (tasks k t))"
    and "blk_state (tasks (tick_interrupt k) t) = (if t \<in> set (takeWhile (due (tick_counted k)) (g_tick_head k))
      then expired_blk (task_state (tasks k t)) else blk_state (tasks k t))"
    and "tick_head (tasks (tick_interrupt k) t) \<longleftrightarrow> t \<in> set (dropWhile (due (tick_counted k)) (g_tick_head k))"
    and "ticks_left (tick_interrupt k) t = ticks_left k t - 1"
proof -
  let ?k1 = "k\<lparr>g_intrpt_nested_level := 1\<rparr>"
  have lim: "(0::u8) < RHINO_CONFIG_INTRPT_MAX_NESTED_LEVEL" by (simp add: konst)
  have e: "snd (krhino_intrpt_enter k) = ?k1" using assms(2) lim by (simp add: krhino_intrpt_enter_def not_le)
  have inv: "kinv ?k1" using intrpt_enter_kinv(1) [OF assms(1)] assms(2) lim unfolding e by simp
  note u = tick_list_update_ok [OF kinv_kpre [OF inv]]
  have due: "due (tick_counted ?k1) = due (tick_counted k)" by (simp add: fun_eq_iff due_def ticks_left_def)
  let ?k2 = "tick_list_update ?k1"
  have "g_active_task ?k2 \<noteq> NULL" using winvD(7) [OF kpreD(1) [OF u(1)]] .
  then have p: "krhino_tick_proc ?k1 = time_slice_update (prio (tasks ?k2 (g_active_task ?k2))) ?k2" (is "_ = ?k3")
    by (simp add: krhino_tick_proc_def Let_def)
  have n: "g_intrpt_nested_level ?k3 = 1" using u(2) by (simp add: time_slice_update_frame)
  have ex: "tick_interrupt k = core_sched (?k3\<lparr>g_intrpt_nested_level := 0\<rparr>)"
    using n by (simp add: tick_interrupt_def e p intrpt_exit_sched)
  show "g_intrpt_nested_level (tick_interrupt k) = 0" unfolding ex by simp
  show "task_state (tasks (tick_interrupt k) t) = (if t \<in> set (takeWhile (due (tick_counted k)) (g_tick_head k))
      then expired_state (task_state (tasks k t)) else task_state (tasks k t))"
    unfolding ex using u(9) [of t] by (simp add: time_slice_update_frame due)
  show "blk_state (tasks (tick_interrupt k) t) = (if t \<in> set (takeWhile (due (tick_counted k)) (g_tick_head k))
      then expired_blk (task_state (tasks k t)) else blk_state (tasks k t))"
    unfolding ex using u(10) [of t] by (simp add: time_slice_update_frame due)
  have "tick_head (tasks ?k2 t) \<longleftrightarrow> t \<in> set (g_tick_head ?k2)" using u(11) by (auto simp: timed_def)
  then show "tick_head (tasks (tick_interrupt k) t) \<longleftrightarrow> t \<in> set (dropWhile (due (tick_counted k)) (g_tick_head k))"
    unfolding ex using u(7) by (simp add: time_slice_update_frame due)
  have "ticks_left ?k2 t = ticks_left k t - 1" using u(8) [of t] by (simp add: ticks_left_def)
  then show "ticks_left (tick_interrupt k) t = ticks_left k t - 1"
    unfolding ex by (simp add: ticks_left_def time_slice_update_frame)
qed

text \<open>A deadline more than one tick away is not touched; the next tick takes all the others.\<close>

lemma sint_unat:
  fixes w :: u64
  assumes "unat w < 2 ^ 63"
  shows "sint w = int (unat w)"
proof -
  have "int (unat w) < 2 ^ 63" using assms by (metis of_nat_less_iff of_nat_numeral of_nat_power)
  then have "signed_take_bit 63 (int (unat w)) = int (unat w)"
    by (intro signed_take_bit_int_eq_self) (linarith, assumption)
  then show ?thesis by (simp add: sint_uint)
qed

lemma not_due:
  assumes "1 < unat (ticks_left k t)" and "unat (ticks_left k t) \<le> 2 ^ 63"
  shows "\<not> due (tick_counted k) t"
proof -
  let ?w = "ticks_left k t - 1"
  have "unat ?w = unat (ticks_left k t) - 1" using assms(1) by (simp add: unat_sub_if')
  then have "0 < unat ?w" "unat ?w < 2 ^ 63" using assms by simp_all
  then have "0 < sint ?w" by (simp only: sint_unat of_nat_0_less_iff)
  then show ?thesis by (simp add: due_def)
qed

lemma all_due:
  assumes "kinv k" and "tick_head (tasks k t)" and "unat (ticks_left k t) = 1"
  shows "t \<in> set (takeWhile (due (tick_counted k)) (g_tick_head k))"
proof -
  have tq: "tq_ok (timed k) k" "tick_pos k"
    using winvD(3) [OF kinvD(1) [OF assms(1)]] kinvD(2) [OF assms(1)] by (simp_all add: tick_ok_def)
  then have t: "t \<in> set (g_tick_head k)" using assms(2) by (simp add: tq_ok_def timed_def)
  then obtain xs ys where xs: "g_tick_head k = xs @ t # ys" by (meson split_list)
  have one: "ticks_left k t = 1" using assms(3) by (metis unat_1 word_unat_eq_iff)
  have "due (tick_counted k) u" if "u \<in> set (xs @ [t])" for u
  proof -
    have "ticks_left k u \<le> 1" using tq(1) that unfolding tq_ok_def xs by (auto simp: sorted_append one)
    moreover have "ticks_left k u \<noteq> 0" using tq that unfolding tq_ok_def tick_pos_def xs by auto
    ultimately have "ticks_left k u = 1" by (simp add: word_le_nat_alt word_unat_eq_iff)
    then show ?thesis by (simp add: due_def)
  qed
  then have "takeWhile (due (tick_counted k)) (g_tick_head k) = xs @ t # takeWhile (due (tick_counted k)) ys"
    unfolding xs by (subst takeWhile_append2) auto
  then show ?thesis by simp
qed

lemma takeWhile_dropWhile_disjoint: "distinct xs \<Longrightarrow> x \<in> set (takeWhile P xs) \<Longrightarrow> x \<notin> set (dropWhile P xs)"
  by (metis IntI distinct_append empty_iff takeWhile_dropWhile_id)

lemma dropWhile_keeps: "x \<in> set xs \<Longrightarrow> \<not> P x \<Longrightarrow> x \<in> set (dropWhile P xs)"
  by (induction xs) auto

lemma tick_interrupts_wait:
  assumes "reachable k" and "g_intrpt_nested_level k = 0" and "tick_head (tasks k t)"
    and "i < unat (ticks_left k t)" and "unat (ticks_left k t) \<le> 2 ^ 63"
  shows "reachable ((tick_interrupt ^^ i) k) \<and> g_intrpt_nested_level ((tick_interrupt ^^ i) k) = 0 \<and>
    tick_head (tasks ((tick_interrupt ^^ i) k) t) \<and>
    unat (ticks_left ((tick_interrupt ^^ i) k) t) = unat (ticks_left k t) - i \<and>
    task_state (tasks ((tick_interrupt ^^ i) k) t) = task_state (tasks k t) \<and>
    blk_state (tasks ((tick_interrupt ^^ i) k) t) = blk_state (tasks k t)"
  using assms(4)
proof (induction i)
  case (Suc i)
  let ?k = "(tick_interrupt ^^ i) k"
  have IH: "reachable ?k" "g_intrpt_nested_level ?k = 0" "tick_head (tasks ?k t)"
    "unat (ticks_left ?k t) = unat (ticks_left k t) - i" "task_state (tasks ?k t) = task_state (tasks k t)"
    "blk_state (tasks ?k t) = blk_state (tasks k t)"
    using Suc by simp_all
  note inv = reachable_kinv [OF IH(1)]
  note u = tick_interrupt_task(1) [OF inv IH(2)] tick_interrupt_task(2-5) [OF inv IH(2), of t]
  have nd: "\<not> due (tick_counted ?k) t" by (rule not_due) (use IH(4) Suc.prems assms(5) in simp_all)
  have "t \<in> set (g_tick_head ?k)"
    using IH(3) winvD(3) [OF kinvD(1) [OF inv]] by (simp add: tick_ok_def tq_ok_def timed_def)
  then have "t \<in> set (dropWhile (due (tick_counted ?k)) (g_tick_head ?k))" using nd by (rule dropWhile_keeps)
  moreover have "t \<notin> set (takeWhile (due (tick_counted ?k)) (g_tick_head ?k))" using nd by (auto dest: set_takeWhileD)
  moreover have "unat (ticks_left ?k t - 1) = unat (ticks_left k t) - Suc i"
    using unat_one_less [of "ticks_left ?k t" "unat (ticks_left k t) - Suc i"] IH(4) Suc.prems by simp
  ultimately show ?case using tick_interrupt_reachable [OF IH(1,2)] u IH(5,6) by simp
qed (use assms in simp)

text \<open>
  C5. Timeouts are exact: a task that sleeps or waits with \<open>n\<close> ticks left, \<open>n \<le> 2 ^ 63\<close>, is untouched
  by the next \<open>n - 1\<close> timer interrupts and leaves its wait in the \<open>n\<close>-th: it is ready, or suspended if
  it was suspended meanwhile; the end of a sleep is reported as success, the end of a wait as
  timeout.
\<close>

theorem timeout_exact:
  assumes "reachable k" and "g_intrpt_nested_level k = 0" and "tick_head (tasks k t)"
    and "unat (ticks_left k t) = n" and "n \<le> 2 ^ 63"
  shows "0 < n \<and>
    (\<forall>i < n. task_state (tasks ((tick_interrupt ^^ i) k) t) = task_state (tasks k t)) \<and>
    task_state (tasks ((tick_interrupt ^^ n) k) t) = (if suspended (task_state (tasks k t)) then K_SUSPENDED else K_RDY) \<and>
    fst (pend_state_end_proc t ((tick_interrupt ^^ n) k)) =
      (if sleeping (task_state (tasks k t)) then RHINO_SUCCESS else RHINO_BLK_TIMEOUT)"
proof -
  have n: "0 < n"
    using kinvD(2) [OF reachable_kinv [OF assms(1)]] assms(3,4) by (auto simp: tick_pos_def timed_def word_unat_eq_iff)
  then obtain m where m: "n = Suc m" by (cases n) auto
  let ?k = "(tick_interrupt ^^ m) k"
  have w: "reachable ?k" "g_intrpt_nested_level ?k = 0" "tick_head (tasks ?k t)" "unat (ticks_left ?k t) = 1"
    "task_state (tasks ?k t) = task_state (tasks k t)"
    using tick_interrupts_wait [OF assms(1-3), of m] assms(4,5) m by simp_all
  note u = tick_interrupt_task(2-5) [OF reachable_kinv [OF w(1)] w(2), of t]
  note d = all_due [OF reachable_kinv [OF w(1)] w(3,4)]
  have "task_state (tasks ((tick_interrupt ^^ n) k) t) = expired_state (task_state (tasks k t))"
    "blk_state (tasks ((tick_interrupt ^^ n) k) t) = expired_blk (task_state (tasks k t))"
    using u d w(5) by (simp_all add: m)
  then show ?thesis
    using n tick_interrupts_wait [OF assms(1-3)] assms(4,5)
    by (simp add: expired_state_def expired_blk_def pend_state_end_proc_def)
qed

theorem timeout_exact_witness:
  "task_state (tasks ((tick_interrupt ^^ 99) contended) 10) = K_PEND \<and>
   task_state (tasks ((tick_interrupt ^^ 100) contended) 10) = K_RDY \<and>
   fst (pend_state_end_proc 10 ((tick_interrupt ^^ 100) contended)) = RHINO_BLK_TIMEOUT"
proof -
  have "g_intrpt_nested_level contended = 0" by (simp add: contended_facts)
  moreover have "unat (ticks_left contended 10) = 100" by (simp add: ticks_left_def contended_facts)
  ultimately show ?thesis
    using timeout_exact [OF contended_reachable, of 10 100] by (simp add: contended_facts suspended_def sleeping_def)
qed

lemma sint_unat_neg:
  fixes w :: u64
  assumes "2 ^ 63 \<le> unat w"
  shows "sint w < 0"
proof -
  have "int (2 ^ 63) \<le> int (unat w)" using assms by (simp only: of_nat_le_iff)
  then have lo: "2 ^ 63 \<le> uint w" by simp
  have hi: "uint w < 2 ^ 64" using uint_bounded [of w] by simp
  then have "uint w div 2 ^ 63 = 1" using lo by simp
  then have "bit (uint w) 63" by (simp add: bit_iff_odd)
  moreover have "take_bit 64 (uint w) = uint w" using hi by (simp add: take_bit_int_eq_self)
  ultimately have "signed_take_bit 63 (uint w) = uint w - 2 ^ 64"
    by (simp add: signed_take_bit_eq_take_bit_minus)
  then show ?thesis using hi by (simp add: sint_uint)
qed

text \<open>
  C12. The limit \<open>2 ^ 63\<close> is real: \<^verbatim>\<open>delta\<close> of \<^verbatim>\<open>tick_list_update\<close> is signed, so a task that sleeps alone for
  more than \<open>2 ^ 63\<close> ticks is ready after the first timer interrupt.
\<close>

theorem long_sleep_ends_early:
  assumes "reachable k" and "g_intrpt_nested_level k = 0" and "g_sched_lock k = 0"
    and "not_idle k" and "g_tick_head k = []" and "2 ^ 63 < unat ticks"
  shows "task_state (tasks (snd (krhino_task_sleep ticks k)) (g_active_task k)) = K_SLEEP \<and>
    task_state (tasks (tick_interrupt (snd (krhino_task_sleep ticks k))) (g_active_task k)) = K_RDY"
proof -
  let ?a = "g_active_task k"
  define k' where "k' = snd (krhino_task_sleep ticks k)"
  have pos: "0 < ticks" and nz: "ticks \<noteq> 0" using assms(6) by (auto simp: word_greater_zero_iff)
  have "reachable (snd (do_call (Task (Task_sleep ticks)) k))" by (rule reachable.call [OF assms(1)]) (use assms(4) in \<open>simp add: not_idle_def\<close>)
  then have inv: "kinv k'" by (simp add: k'_def reachable_kinv)
  have f: "g_intrpt_nested_level k' = 0" "task_state (tasks k' ?a) = K_SLEEP" "g_tick_head k' = [?a]" "ticks_left k' ?a = ticks"
    using assms(2,3,5) pos nz
    by (simp_all add: k'_def krhino_task_sleep_def Let_def tick_list_insert_def tick_list_pri_insert_def insert_before_def ticks_left_def)
  have "2 ^ 63 \<le> unat (ticks - 1)" using assms(6) by (simp add: unat_sub_if')
  then have "due (tick_counted k') ?a" using sint_unat_neg [of "ticks - 1"] by (simp add: due_def f(4))
  then show ?thesis
    using tick_interrupt_task(2) [OF inv f(1), of ?a] f(2,3) by (simp add: expired_state_def suspended_def k'_def [symmetric])
qed

theorem long_sleep_ends_early_witness:
  "task_state (tasks (snd (krhino_task_sleep (2 ^ 63 + 1) started)) 2) = K_SLEEP \<and>
   task_state (tasks (tick_interrupt (snd (krhino_task_sleep (2 ^ 63 + 1) started))) 2) = K_RDY"
  using long_sleep_ends_early [OF started_reachable, of "2 ^ 63 + 1"] started_facts
  by (simp add: not_idle_def g_idle_task_def)


section \<open>Semaphores\<close>

text \<open>
  A semaphore as its users see it: a count and the tasks that wait, in the order in which they will
  be served. \<open>queue_up\<close> is the order of the object's policy.
\<close>

definition queue_up :: "kernel \<Rightarrow> oid \<Rightarrow> tid \<Rightarrow> tid list \<Rightarrow> tid list" where
  "queue_up k b t ws = (if blk_policy (blk_objs k b) = BLK_POLICY_FIFO then ws @ [t]
     else insert_before (\<lambda>u. prio (tasks k u) > prio (tasks k t)) t ws)"

definition sem_view :: "oid \<Rightarrow> kernel \<Rightarrow> nat \<times> tid list" where
  "sem_view sem k = (unat (sem_count (sems k sem)), blk_list (blk_objs k sem))"

fun sem_spec_give :: "nat \<times> tid list \<Rightarrow> kstat \<times> nat \<times> tid list" where
  "sem_spec_give (n, []) = (if n = 2 ^ 32 - 1 then (RHINO_SEM_OVF, n, []) else (RHINO_SUCCESS, n + 1, []))"
| "sem_spec_give (n, t # ts) = (RHINO_SUCCESS, n, ts)"

fun sem_spec_take :: "(tid list \<Rightarrow> tid list) \<Rightarrow> u64 \<Rightarrow> nat \<times> tid list \<Rightarrow> outcome \<times> nat \<times> tid list" where
  "sem_spec_take enqueue ticks (Suc n, ws) = (Ret RHINO_SUCCESS, n, ws)"
| "sem_spec_take enqueue ticks (0, ws) =
     (if ticks = RHINO_NO_WAIT then (Ret RHINO_NO_PEND_WAIT, 0, ws) else (Blocked, 0, enqueue ws))"

lemma pend_to_blk_obj_queue:
  "blk_list (blk_objs (pend_to_blk_obj b t timeout k) b) = queue_up k b t (blk_list (blk_objs k b))"
proof -
  have p: "prio (tasks (tick_list_insert t n k') u) = prio (tasks k' u)" for n k' u
    by (simp add: tick_list_insert_def tick_list_pri_insert_def Let_def)
  have q: "(\<lambda>u. u \<noteq> t \<and> (u \<noteq> t \<longrightarrow> prio (tasks k t) < prio (tasks k u))) = (\<lambda>u. prio (tasks k t) < prio (tasks k u))"
    by auto
  show ?thesis
    by (simp add: pend_to_blk_obj_def queue_up_def pend_list_add_def Let_def p) (simp only: q simp_thms)
qed

lemma wake_with_waiting:
  fixes st :: blk_state
  assumes "winv k" and "t \<in> pend_on k b"
  shows "tasks (wake_with st t k) = (tasks k)(t := woken st (tasks k t))"
    and "blk_list (blk_objs (wake_with st t k) b) = remove1 t (blk_list (blk_objs k b))"
proof -
  note w = winvD [OF assms(1)] and c = core_okD [OF winvD(1) [OF assms(1)]] and t = assms(2)
  have b: "blk_obj (tasks k t) = b" "b \<noteq> NULL" "pended (task_state (tasks k t))" "t \<notin> rdy k" "t \<in> live k"
    using t c(10) [OF t] pend_on_live [OF t] by (auto simp: pend_on_def rdy_def pended_def)
  have tq: "tq_ok (timed k) k" using w(3) by (simp add: tick_ok_def)
  note l = wake_with_lists [OF c(1) b(4) c(2) t tq b(1-3) c(8) [OF b(5)] w(7) c(11) [OF b(5)], of st]
  show "tasks (wake_with st t k) = (tasks k)(t := woken st (tasks k t))" by (rule l(4))
  show "blk_list (blk_objs (wake_with st t k) b) = remove1 t (blk_list (blk_objs k b))" by (simp add: l(7))
qed

lemmas wakeup_waiting = wake_with_waiting [where st = BLK_FINISH, folded wake_with_eqs]
lemmas removed_waiting = wake_with_waiting [where st = BLK_DEL, folded wake_with_eqs]

lemma wakeup_first:
  assumes "winv k" and "blk_list (blk_objs k b) = t # ts"
  shows "blk_list (blk_objs (pend_task_wakeup t k) b) = ts"
    and "tasks (pend_task_wakeup t k) = (tasks k)(t := woken BLK_FINISH (tasks k t))"
proof -
  have "t \<in> pend_on k b" using bl_okD(2) [OF core_okD(2) [OF winvD(1) [OF assms(1)]], of b] assms(2) by auto
  from wakeup_waiting [OF assms(1) this] show "blk_list (blk_objs (pend_task_wakeup t k) b) = ts"
    and "tasks (pend_task_wakeup t k) = (tasks k)(t := woken BLK_FINISH (tasks k t))"
    by (simp_all add: assms(2))
qed

lemma woken_sel [simp]:
  "task_state (woken st x) = (if task_state x = K_PEND then K_RDY else K_SUSPENDED)"
  "blk_state (woken st x) = st" "task_msg (woken st x) = task_msg x" "bq_msg_size (woken st x) = bq_msg_size x"
  "prio (woken st x) = prio x" "mutex_list (woken st x) = mutex_list x"
  by (simp_all add: woken_def)

text \<open>
  C10. Semaphores: seen as a count and a line of waiting tasks, \<^verbatim>\<open>krhino_sem_give\<close> serves the first
  waiting task or raises the count, \<^verbatim>\<open>krhino_sem_take\<close> lowers the count or puts the caller into the
  line; both return what the specification returns, and the task that is served returns
  from its call with success.
\<close>

theorem sem_refines:
  assumes "reachable k" and "sem \<noteq> NULL" and "obj_type (blk_objs k sem) = RHINO_SEM_OBJ_TYPE"
  shows "(fst (krhino_sem_give sem k), sem_view sem (snd (krhino_sem_give sem k))) = sem_spec_give (sem_view sem k) \<and>
    (g_intrpt_nested_level k = 0 \<and> g_sched_lock k = 0 \<longrightarrow>
      (fst (krhino_sem_take sem ticks k), sem_view sem (snd (krhino_sem_take sem ticks k))) =
        sem_spec_take (queue_up k sem (g_active_task k)) ticks (sem_view sem k)) \<and>
    (\<forall>t ts. blk_list (blk_objs k sem) = t # ts \<longrightarrow>
      fst (pend_state_end_proc t (snd (krhino_sem_give sem k))) = RHINO_SUCCESS \<and>
      task_state (tasks (snd (krhino_sem_give sem k)) t) = (if task_state (tasks k t) = K_PEND then K_RDY else K_SUSPENDED))"
proof (intro conjI allI impI)
  note inv = reachable_kinv [OF assms(1)]
  let ?n = "sem_count (sems k sem)"
  have "unat (- 1 :: u32) = 2 ^ 32 - 1" by (simp add: unsigned_minus_1_eq_mask mask_eq_exp_minus_1)
  then have max: "?n = - 1 \<longleftrightarrow> unat ?n = 2 ^ 32 - 1" by (simp only: word_unat_eq_iff)
  have inc: "unat (?n + 1) = unat ?n + 1" if "?n \<noteq> - 1"
    using that unatSuc [of ?n] by (simp add: add.commute eq_neg_iff_add_eq_0)
  show "(fst (krhino_sem_give sem k), sem_view sem (snd (krhino_sem_give sem k))) = sem_spec_give (sem_view sem k)"
  proof (cases "blk_list (blk_objs k sem)")
    case Nil
    then show ?thesis
      using assms(2,3) inc max by (cases "?n = - 1") (simp_all add: krhino_sem_give_def sem_give_def sem_view_def Let_def)
  next
    case (Cons t ts)
    then show ?thesis
      using assms(2,3) wakeup_first(1) [OF kinvD(1) [OF inv] Cons]
      by (simp add: krhino_sem_give_def sem_give_def sem_view_def wake_with_eqs)
  qed
  fix t ts assume ts: "blk_list (blk_objs k sem) = t # ts"
  then show "fst (pend_state_end_proc t (snd (krhino_sem_give sem k))) = RHINO_SUCCESS"
    "task_state (tasks (snd (krhino_sem_give sem k)) t) = (if task_state (tasks k t) = K_PEND then K_RDY else K_SUSPENDED)"
    using assms(2,3) wakeup_first(2) [OF kinvD(1) [OF inv] ts] by (simp_all add: krhino_sem_give_def sem_give_def pend_state_end_proc_def)
next
  assume "g_intrpt_nested_level k = 0 \<and> g_sched_lock k = 0"
  then show "(fst (krhino_sem_take sem ticks k), sem_view sem (snd (krhino_sem_take sem ticks k))) =
      sem_spec_take (queue_up k sem (g_active_task k)) ticks (sem_view sem k)"
    using assms(2,3) pend_to_blk_obj_queue [of sem "g_active_task k" ticks k]
    by (cases "unat (sem_count (sems k sem))")
      (auto simp: krhino_sem_take_def sem_view_def word_greater_zero_iff unat_eq_zero unat_one_less)
qed

theorem sem_refines_witness:
  "(fst (krhino_sem_give 1 started), sem_view 1 (snd (krhino_sem_give 1 started))) = (RHINO_SUCCESS, 1, []) \<and>
   (fst (krhino_sem_take 1 5 started), sem_view 1 (snd (krhino_sem_take 1 5 started))) = (Blocked, 0, [2])"
proof -
  have "sem_view 1 started = (0, [])" "queue_up started 1 2 [] = [2]" by code_simp+
  then show ?thesis using sem_refines [OF started_reachable, of 1 5] started_facts by (simp add: RHINO_NO_WAIT_def)
qed

section \<open>Queues\<close>

lemma load32_upd_queue [simp]: "load32 a (upd_queue q f k) = load32 a k"
  by (simp add: load32_def load_bytes_def)

text \<open>
  A queue as its users see it: the stored messages, and the tasks that wait for one in the order in which
  they will be served. \<open>n\<close> is the capacity. A send gives the message to the first waiting task, or
  stores it at the end or at the front.
\<close>

definition queue_shows :: "oid \<Rightarrow> kernel \<Rightarrow> u32 list \<times> tid list \<Rightarrow> bool" where
  "queue_shows queue k v \<longleftrightarrow> queue_holds (queues k queue) (fst v) \<and> blk_list (blk_objs k queue) = snd v"

fun queue_spec_send :: "nat \<Rightarrow> bool \<Rightarrow> u32 \<Rightarrow> u32 list \<times> tid list \<Rightarrow> kstat \<times> u32 list \<times> tid list" where
  "queue_spec_send n front w (ms, ts) =
     (if n \<le> length ms then (RHINO_QUEUE_FULL, ms, ts)
      else case ts of
             [] \<Rightarrow> (RHINO_SUCCESS, if front then w # ms else ms @ [w], [])
           | t # ts' \<Rightarrow> (RHINO_SUCCESS, ms, ts'))"

text \<open>
  A receive, from a queue of either kind: what the call returns, the message it takes if there is one, and the
  messages and the line afterwards; \<open>join\<close> puts the caller into the line.
\<close>

fun spec_recv :: "(tid list \<Rightarrow> tid list) \<Rightarrow> u64 \<Rightarrow> bool \<Rightarrow> 'a list \<times> tid list \<Rightarrow>
  outcome \<times> 'a option \<times> 'a list \<times> tid list" where
  "spec_recv join ticks locked (m # ms, ts) = (Ret RHINO_SUCCESS, Some m, ms, ts)"
| "spec_recv join ticks locked ([], ts) =
     (if ticks = RHINO_NO_WAIT then (Ret RHINO_NO_PEND_WAIT, None, [], ts)
      else if locked then (Ret RHINO_SCHED_DISABLE, None, [], ts)
      else (Blocked, None, [], join ts))"

text \<open>The second half of the receiving call of \<open>t\<close>, run whenever it is scheduled again, returns \<open>w\<close>.\<close>

definition recv_returns :: "tid \<Rightarrow> u32 \<Rightarrow> kernel \<Rightarrow> bool" where
  "recv_returns t w k \<longleftrightarrow> (\<forall>msg k'. g_active_task k' = t \<and> tasks k' t = tasks k t \<longrightarrow>
     fst (krhino_queue_recv_end msg k') = RHINO_SUCCESS \<and> load32 msg (snd (krhino_queue_recv_end msg k')) = w)"

lemma recv_returnsI: "blk_state (tasks k t) = BLK_FINISH \<Longrightarrow> task_msg (tasks k t) = w \<Longrightarrow> recv_returns t w k"
  by (simp add: recv_returns_def krhino_queue_recv_end_def pend_state_end_proc_def load32_store32)

lemma queue_full:
  assumes "queue \<noteq> NULL" and "obj_type (blk_objs k queue) = RHINO_QUEUE_OBJ_TYPE"
    and "queue_holds (queues k queue) ms" and "q_size (queues k queue) \<le> length ms"
  shows "msg_send queue w opt all k = (RHINO_QUEUE_FULL, k)"
  using assms by (simp add: msg_send_def queue_holds_def)

lemma queue_store:
  assumes "queue \<noteq> NULL" and "obj_type (blk_objs k queue) = RHINO_QUEUE_OBJ_TYPE"
    and "queue_holds (queues k queue) ms" and "length ms < q_size (queues k queue)" and "blk_list (blk_objs k queue) = []"
  shows "fst (msg_send queue w opt all k) = RHINO_SUCCESS"
    and "queue_shows queue (snd (msg_send queue w opt all k)) (if opt = QMSG_SEND_TO_END then ms @ [w] else w # ms, [])"
proof -
  have n: "q_cur_num (queues k queue) < q_size (queues k queue)" using assms(3,4) by (simp add: queue_holds_def)
  note st = msg_send_store [OF assms(1,2) n assms(5), of w opt all] and p = queue_push [OF assms(3) n, of w]
  show "fst (msg_send queue w opt all k) = RHINO_SUCCESS"
    "queue_shows queue (snd (msg_send queue w opt all k)) (if opt = QMSG_SEND_TO_END then ms @ [w] else w # ms, [])"
    using p assms(5) by (simp_all add: st queue_shows_def)
qed

lemma queue_line_empty:
  assumes inv: "kinv k" and q: "obj_type (blk_objs k queue) = RHINO_QUEUE_OBJ_TYPE"
    and h: "queue_holds (queues k queue) ms" and ts: "blk_list (blk_objs k queue) = t # ts"
  shows "ms = []"
proof -
  have t: "t \<in> pend_on k queue" using blk_list_pend_on [OF inv, of queue] ts by auto
  obtain ms' where "queue_holds (queues k queue) ms'" "pend_on k queue = {} \<or> ms' = []" by (rule queue_obj [OF inv q])
  with t h show ?thesis by (auto simp: queue_holds_def)
qed

lemma queue_deliver:
  fixes opt :: u8 and w :: u32
  assumes inv: "kinv k" and q: "queue \<noteq> NULL" "obj_type (blk_objs k queue) = RHINO_QUEUE_OBJ_TYPE"
    and h: "queue_holds (queues k queue) ms" and ts: "blk_list (blk_objs k queue) = t # ts"
  defines "r \<equiv> msg_send queue w opt False k"
  shows "fst r = RHINO_SUCCESS" and "queues (snd r) = queues k"
    and "blk_list (blk_objs (snd r) queue) = ts" and "recv_returns t w (snd r)"
    and "task_state (tasks (snd r) t) = (if task_state (tasks k t) = K_PEND then K_RDY else K_SUSPENDED)"
proof -
  have t: "t \<in> pend_on k queue" using blk_list_pend_on [OF inv, of queue] ts by auto
  have n: "q_cur_num (queues k queue) < q_size (queues k queue)"
    using h queue_line_empty [OF inv q(2) h ts] by (simp add: queue_holds_def)
  let ?k = "upd_task t (\<lambda>x. x\<lparr>task_msg := w\<rparr>) k"
  have "t \<noteq> NULL" using core_okD(11) [OF kinvD(5) [OF inv] pend_on_live [OF t]] .
  then have "state_same k ?k" by (intro state_same_upd_task) (simp_all add: task_same_def)
  then have "winv ?k" using kinvD(1) [OF inv] state_same_winv(1) by blast
  note wk = wakeup_first [OF this, of queue t ts]
  have r: "r = (RHINO_SUCCESS, core_sched (pend_task_wakeup t ?k))"
    using q n ts by (simp add: r_def msg_send_def task_msg_recv_def)
  show "fst r = RHINO_SUCCESS" "queues (snd r) = queues k" "blk_list (blk_objs (snd r) queue) = ts"
    "task_state (tasks (snd r) t) = (if task_state (tasks k t) = K_PEND then K_RDY else K_SUSPENDED)"
    using wk ts by (simp_all add: r)
  show "recv_returns t w (snd r)" by (rule recv_returnsI) (use wk ts in \<open>simp_all add: r\<close>)
qed

text \<open>Both sends, in every case.\<close>

lemma queue_send_spec:
  assumes inv: "kinv k" and q: "queue \<noteq> NULL" "obj_type (blk_objs k queue) = RHINO_QUEUE_OBJ_TYPE"
    and h: "queue_shows queue k (ms, ts)" and o: "opt = (if front then QMSG_SEND_TO_FRONT else QMSG_SEND_TO_END)"
  shows "fst (msg_send queue w opt False k) = fst (queue_spec_send (q_size (queues k queue)) front w (ms, ts))"
    and "queue_shows queue (snd (msg_send queue w opt False k)) (snd (queue_spec_send (q_size (queues k queue)) front w (ms, ts)))"
proof -
  have hm: "queue_holds (queues k queue) ms" and ht: "blk_list (blk_objs k queue) = ts" using h by (simp_all add: queue_shows_def)
  have opt: "opt = QMSG_SEND_TO_END \<longleftrightarrow> \<not> front" by (simp add: o QMSG_SEND_TO_END_def QMSG_SEND_TO_FRONT_def)
  have "fst (msg_send queue w opt False k) = fst (queue_spec_send (q_size (queues k queue)) front w (ms, ts)) \<and>
    queue_shows queue (snd (msg_send queue w opt False k)) (snd (queue_spec_send (q_size (queues k queue)) front w (ms, ts)))"
  proof (cases "q_size (queues k queue) \<le> length ms")
    case True
    then show ?thesis using queue_full [OF q hm True] h by simp
  next
    case False
    show ?thesis
    proof (cases ts)
      case Nil
      then show ?thesis using queue_store [OF q hm _ _, of w opt False] ht False opt by (cases front) simp_all
    next
      case (Cons t ts')
      note d = queue_deliver [OF inv q hm ht [unfolded Cons], of w opt]
      show ?thesis using d(1-3) hm False Cons by (simp add: queue_shows_def)
    qed
  qed
  then show "fst (msg_send queue w opt False k) = fst (queue_spec_send (q_size (queues k queue)) front w (ms, ts))"
    and "queue_shows queue (snd (msg_send queue w opt False k)) (snd (queue_spec_send (q_size (queues k queue)) front w (ms, ts)))"
    by simp_all
qed

lemma queue_recv_spec:
  fixes ticks :: u64 and msg :: u32
  assumes q: "queue \<noteq> NULL" "msg \<noteq> 0" "obj_type (blk_objs k queue) = RHINO_QUEUE_OBJ_TYPE"
    and h: "queue_shows queue k (ms, ts)" and i: "g_intrpt_nested_level k = 0 \<or> ticks = RHINO_NO_WAIT"
  defines "r \<equiv> krhino_queue_recv queue ticks msg k"
    and "s \<equiv> spec_recv (queue_up k queue (g_active_task k)) ticks (g_sched_lock k > 0) (ms, ts)"
  shows "fst r = fst s" and "queue_shows queue (snd r) (snd (snd s))"
    and "fst r \<noteq> Blocked \<Longrightarrow> load32 msg (snd r) = (case fst (snd s) of Some v \<Rightarrow> v | None \<Rightarrow> 0)"
proof -
  have hm: "queue_holds (queues k queue) ms" and ht: "blk_list (blk_objs k queue) = ts" using h by (simp_all add: queue_shows_def)
  have "fst r = fst s \<and> queue_shows queue (snd r) (snd (snd s)) \<and>
    (fst r \<noteq> Blocked \<longrightarrow> load32 msg (snd r) = (case fst (snd s) of Some v \<Rightarrow> v | None \<Rightarrow> 0))"
  proof (cases ms)
    case Nil
    then have n: "q_cur_num (queues k queue) = 0" using hm by (simp add: queue_holds_def)
    then have r: "r = (if ticks = RHINO_NO_WAIT then (Ret RHINO_NO_PEND_WAIT, store32 msg 0 k)
        else if g_sched_lock k > 0 then (Ret RHINO_SCHED_DISABLE, store32 msg 0 k)
        else (Blocked, core_sched (pend_to_blk_obj queue (g_active_task k) ticks k)))"
      using q i by (auto simp: r_def krhino_queue_recv_def)
    show ?thesis
      using hm ht Nil pend_to_blk_obj_queue [of queue "g_active_task k" ticks k]
      by (simp add: r s_def queue_shows_def load32_store32)
  next
    case (Cons v ms')
    then have n: "0 < q_cur_num (queues k queue)" using hm by (simp add: queue_holds_def)
    obtain rb where rb: "ringbuf_pop (q_ringbuf (queues k queue)) = (RHINO_SUCCESS, word_bytes v, 4, rb)"
      "queue_holds ((queues k queue)\<lparr>q_cur_num := q_cur_num (queues k queue) - 1, q_ringbuf := rb\<rparr>) ms'"
      by (rule queue_pop [OF hm [unfolded Cons]])
    have "r = (Ret RHINO_SUCCESS, store_bytes msg (word_bytes v)
        (upd_queue queue (\<lambda>q. q\<lparr>q_cur_num := q_cur_num q - 1, q_ringbuf := rb\<rparr>) k))"
      unfolding r_def by (rule recv_take_eq [OF q _ n rb(1)]) (use i in auto)
    then show ?thesis using rb(2) ht Cons by (simp add: s_def queue_shows_def load_store32)
  qed
  then show "fst r = fst s" and "queue_shows queue (snd r) (snd (snd s))"
    and "fst r \<noteq> Blocked \<Longrightarrow> load32 msg (snd r) = (case fst (snd s) of Some v \<Rightarrow> v | None \<Rightarrow> 0)"
    by simp_all
qed

text \<open>
  C14. Seen as its messages and the line of waiting receivers, a queue behaves as the specification. A send, to
  the end or to the front, fails on a full queue and then changes nothing; it gives the message to the first
  waiting receiver, which becomes ready and whose call returns it, or stores it. A receive takes the first
  message; from an empty queue it returns at once with 0 for the message when it may not wait
  or the scheduler is locked, and otherwise puts the caller into the line.
\<close>

theorem queue_refines:
  assumes "reachable k" and "queue \<noteq> NULL" and "obj_type (blk_objs k queue) = RHINO_QUEUE_OBJ_TYPE"
    and "queue_shows queue k (ms, ts)"
  shows "(fst (krhino_queue_back_send queue w k) = fst (queue_spec_send (q_size (queues k queue)) False w (ms, ts)) \<and>
      queue_shows queue (snd (krhino_queue_back_send queue w k)) (snd (queue_spec_send (q_size (queues k queue)) False w (ms, ts)))) \<and>
    (fst (krhino_queue_front_send queue w k) = fst (queue_spec_send (q_size (queues k queue)) True w (ms, ts)) \<and>
      queue_shows queue (snd (krhino_queue_front_send queue w k)) (snd (queue_spec_send (q_size (queues k queue)) True w (ms, ts)))) \<and>
    (length ms = q_size (queues k queue) \<longrightarrow>
      krhino_queue_back_send queue w k = (RHINO_QUEUE_FULL, k) \<and> krhino_queue_front_send queue w k = (RHINO_QUEUE_FULL, k)) \<and>
    (\<forall>t ts' s. ts = t # ts' \<and> s \<in> {krhino_queue_back_send queue w k, krhino_queue_front_send queue w k} \<longrightarrow>
      ms = [] \<and> fst s = RHINO_SUCCESS \<and> recv_returns t w (snd s) \<and>
      task_state (tasks (snd s) t) = (if task_state (tasks k t) = K_PEND then K_RDY else K_SUSPENDED)) \<and>
    (msg \<noteq> 0 \<and> (g_intrpt_nested_level k = 0 \<or> ticks = RHINO_NO_WAIT) \<longrightarrow>
      fst (krhino_queue_recv queue ticks msg k) =
        fst (spec_recv (queue_up k queue (g_active_task k)) ticks (g_sched_lock k > 0) (ms, ts)) \<and>
      queue_shows queue (snd (krhino_queue_recv queue ticks msg k))
        (snd (snd (spec_recv (queue_up k queue (g_active_task k)) ticks (g_sched_lock k > 0) (ms, ts)))) \<and>
      (fst (krhino_queue_recv queue ticks msg k) \<noteq> Blocked \<longrightarrow> load32 msg (snd (krhino_queue_recv queue ticks msg k)) =
        (case fst (snd (spec_recv (queue_up k queue (g_active_task k)) ticks (g_sched_lock k > 0) (ms, ts))) of
           Some v \<Rightarrow> v | None \<Rightarrow> 0)))"
proof (intro conjI allI impI)
  note inv = reachable_kinv [OF assms(1)]
  note send = krhino_queue_back_send_def krhino_queue_front_send_def
  note sp = queue_send_spec [OF inv assms(2-4)]
  have h: "queue_holds (queues k queue) ms" "blk_list (blk_objs k queue) = ts" using assms(4) by (simp_all add: queue_shows_def)
  show "fst (krhino_queue_back_send queue w k) = fst (queue_spec_send (q_size (queues k queue)) False w (ms, ts))"
    "queue_shows queue (snd (krhino_queue_back_send queue w k)) (snd (queue_spec_send (q_size (queues k queue)) False w (ms, ts)))"
    unfolding send by (rule sp; simp)+
  show "fst (krhino_queue_front_send queue w k) = fst (queue_spec_send (q_size (queues k queue)) True w (ms, ts))"
    "queue_shows queue (snd (krhino_queue_front_send queue w k)) (snd (queue_spec_send (q_size (queues k queue)) True w (ms, ts)))"
    unfolding send by (rule sp; simp)+
  show "krhino_queue_back_send queue w k = (RHINO_QUEUE_FULL, k)" "krhino_queue_front_send queue w k = (RHINO_QUEUE_FULL, k)"
    if "length ms = q_size (queues k queue)"
    unfolding send by (rule queue_full [OF assms(2,3) h(1)]; simp add: that)+
  fix t ts' s assume a: "ts = t # ts' \<and> s \<in> {krhino_queue_back_send queue w k, krhino_queue_front_send queue w k}"
  then obtain opt where s: "s = msg_send queue w opt False k" by (auto simp: send)
  have t: "blk_list (blk_objs k queue) = t # ts'" using a h(2) by simp
  note d = queue_deliver [OF inv assms(2,3) h(1) t, of w opt, folded s]
  show "ms = []" by (rule queue_line_empty [OF inv assms(3) h(1) t])
  show "fst s = RHINO_SUCCESS" "recv_returns t w (snd s)"
    "task_state (tasks (snd s) t) = (if task_state (tasks k t) = K_PEND then K_RDY else K_SUSPENDED)"
    by (rule d(1) d(4) d(5))+
next
  assume m: "msg \<noteq> 0 \<and> (g_intrpt_nested_level k = 0 \<or> ticks = RHINO_NO_WAIT)"
  note r = queue_recv_spec [OF assms(2) conjunct1 [OF m] assms(3,4) conjunct2 [OF m]]
  show "fst (krhino_queue_recv queue ticks msg k) =
      fst (spec_recv (queue_up k queue (g_active_task k)) ticks (g_sched_lock k > 0) (ms, ts))" by (rule r(1))
  show "queue_shows queue (snd (krhino_queue_recv queue ticks msg k))
      (snd (snd (spec_recv (queue_up k queue (g_active_task k)) ticks (g_sched_lock k > 0) (ms, ts))))" by (rule r(2))
  show "load32 msg (snd (krhino_queue_recv queue ticks msg k)) =
      (case fst (snd (spec_recv (queue_up k queue (g_active_task k)) ticks (g_sched_lock k > 0) (ms, ts))) of
         Some v \<Rightarrow> v | None \<Rightarrow> 0)" if "fst (krhino_queue_recv queue ticks msg k) \<noteq> Blocked" by (rule r(3) [OF that])
qed

theorem queue_refines_witness:
  "queue_shows 30 (snd (krhino_queue_back_send 30 7 has_queue)) ([7], []) \<and>
   fst (krhino_queue_front_send 30 7 has_queue) = RHINO_SUCCESS \<and>
   fst (krhino_queue_recv 30 5 100 has_queue) = Blocked \<and>
   queue_shows 30 (snd (krhino_queue_recv 30 5 100 has_queue)) ([], [2])"
proof -
  have "(30::oid) \<noteq> NULL" by simp
  moreover obtain ms where "queue_holds (queues has_queue 30) ms"
    by (rule queue_obj [OF reachable_kinv [OF has_queue_reachable], of 30]) (use has_queue_facts in simp_all)
  moreover from this have "ms = []" using has_queue_facts by (simp add: queue_holds_def)
  moreover from calculation have "queue_shows 30 has_queue ([], [])" using has_queue_facts by (simp add: queue_shows_def)
  moreover have "queue_up has_queue 30 2 [] = [2]" "g_active_task has_queue = 2" "g_intrpt_nested_level has_queue = 0"
    "g_sched_lock has_queue = 0" by code_simp+
  ultimately show ?thesis
    using queue_refines [OF has_queue_reachable, of 30 "[]" "[]" 7 100 5] has_queue_facts
    by (simp add: RHINO_NO_WAIT_def)
qed

section \<open>Buffer queues\<close>

text \<open>
  A buffer queue over a dynamic ring of \<open>N\<close> bytes: the stored messages, each of which takes its bytes and its header, and
  the tasks that wait for one.
\<close>

definition bufq_shows :: "nat \<Rightarrow> oid \<Rightarrow> kernel \<Rightarrow> u8 list list \<times> tid list \<Rightarrow> bool" where
  "bufq_shows N queue k v \<longleftrightarrow>
     dyn_holds N (bq_ringbuf (buf_queues k queue)) (fst v) \<and> blk_list (blk_objs k queue) = snd v"

fun bufq_spec_send :: "nat \<Rightarrow> u8 list \<Rightarrow> u8 list list \<times> tid list \<Rightarrow> kstat \<times> u8 list list \<times> tid list" where
  "bufq_spec_send N m (ms, []) =
     (if enc_len m + sum_list (map enc_len ms) \<le> N then (RHINO_SUCCESS, ms @ [m], []) else (RHINO_BUF_QUEUE_FULL, ms, []))"
| "bufq_spec_send N m (ms, t # ts) = (RHINO_SUCCESS, ms, ts)"

text \<open>The second half of the receiving call of \<open>t\<close>, run whenever it is scheduled again, returns the length \<open>n\<close>.\<close>

definition bufq_recv_returns :: "tid \<Rightarrow> nat \<Rightarrow> kernel \<Rightarrow> bool" where
  "bufq_recv_returns t n k \<longleftrightarrow> (\<forall>size k'. g_active_task k' = t \<and> tasks k' t = tasks k t \<longrightarrow>
     fst (krhino_buf_queue_recv_end size k') = RHINO_SUCCESS \<and>
     load32 size (snd (krhino_buf_queue_recv_end size k')) = word_of_nat n)"

lemma load32_store_bytes_clear:
  assumes "\<forall>i < length bs. 4 \<le> unat (b + word_of_nat i - a)"
  shows "load32 a (store_bytes b bs k) = load32 a k"
proof -
  have "length bs \<le> unat (a + word_of_nat j - b)" if "j < 4" for j
  proof (rule ccontr)
    define d where "d = unat (a + word_of_nat j - b)"
    assume "\<not> length bs \<le> unat (a + word_of_nat j - b)"
    then have "d < length bs" by (simp add: d_def)
    with assms have "4 \<le> unat (b + word_of_nat d - a)" by blast
    moreover have "word_of_nat d = a + word_of_nat j - b" by (simp add: d_def)
    ultimately have "4 \<le> unat (word_of_nat j :: u32)" by simp
    then show False using that by (simp add: unat_of_nat)
  qed
  then have "mem (store_bytes b bs k) (a + word_of_nat j) = mem k (a + word_of_nat j)" if "j < 4" for j
    using that by (simp add: store_bytes_def leD)
  then show ?thesis unfolding load32_def load_bytes_def by (intro arg_cong [of _ _ of_le_bytes]) simp
qed

lemma dyn_empty_iff:
  assumes "dyn_holds N r ms"
  shows "ringbuf_is_empty r \<longleftrightarrow> ms = []"
proof -
  have inv: "rb_inv r" using assms by (simp add: dyn_holds_def)
  then have "ringbuf_is_empty r \<longleftrightarrow> rb_bytes r = []"
    using freesize_used [OF inv] by (simp add: ringbuf_is_empty_def flip: length_0_conv) linarith
  also have "\<dots> \<longleftrightarrow> ms = []"
    using assms by (cases ms) (auto simp: dyn_holds_def dyn_enc_def dyn_ok_def)
  finally show ?thesis .
qed

lemma dyn_take:
  assumes "dyn_holds N r (m # ms)"
  obtains r' where "ringbuf_pop r = (RHINO_SUCCESS, m, length m, r')" and "dyn_holds N r' ms"
proof -
  obtain r' where "ringbuf_pop r = (RHINO_SUCCESS, m, length m, r')" "rb_inv r'"
    "rb_type r' = RINGBUF_TYPE_DYN" "rb_bytes r' = concat (map dyn_enc ms)" "rb_end r' = rb_end r"
    using ringbuf_pop_dyn [of r m "concat (map dyn_enc ms)"] assms by (auto simp: dyn_holds_def)
  then show ?thesis using that assms by (simp add: dyn_holds_def)
qed

lemma upd_buf_queue_same: "q \<noteq> NULL \<Longrightarrow> f (buf_queues k q) = buf_queues k q \<Longrightarrow> upd_buf_queue q f k = k"
  by (simp add: upd_buf_queue_def fun_upd_idem)

lemma take_load_bytes: "n \<le> m \<Longrightarrow> take n (load_bytes a m k) = load_bytes a n k"
  by (simp add: load_bytes_def take_map)

lemma length_load_bytes [simp]: "length (load_bytes a n k) = n"
  by (simp add: load_bytes_def)

lemma bufq_store:
  assumes q: "queue \<noteq> NULL" "obj_type (blk_objs k queue) = RHINO_BUF_QUEUE_OBJ_TYPE" "msg \<noteq> 0"
    and h: "dyn_holds N (bq_ringbuf (buf_queues k queue)) ms"
    and n: "0 < n" "n \<le> max_msg_size (buf_queues k queue)" "n \<le> RINGBUF_LEN_3BYTES_MAXVALUE"
    and e: "blk_list (blk_objs k queue) = []"
  defines "m \<equiv> load_bytes msg n k" and "r \<equiv> krhino_buf_queue_send queue msg n k"
  shows "enc_len m + sum_list (map enc_len ms) \<le> N \<Longrightarrow>
      fst r = RHINO_SUCCESS \<and> dyn_holds N (bq_ringbuf (buf_queues (snd r) queue)) (ms @ [m])"
    and "\<not> enc_len m + sum_list (map enc_len ms) \<le> N \<Longrightarrow> r = (RHINO_BUF_QUEUE_FULL, k)"
proof -
  let ?r = "bq_ringbuf (buf_queues k queue)" and ?d = "load_bytes msg (max_msg_size (buf_queues k queue)) k"
  have ty: "rb_type ?r = RINGBUF_TYPE_DYN" using h by (simp add: dyn_holds_def)
  have m: "take n ?d = m" "length m = n" "dyn_ok m" using n by (simp_all add: m_def take_load_bytes dyn_ok_def)
  have put: "bufq_put False ?r ?d n = ring_push ?r m"
    using push_prefix(1) [OF ty, of ?d n] m by (simp add: bufq_put_def ring_push_def)
  have r: "r = buf_queue_send queue msg n False k" using q by (simp add: r_def krhino_buf_queue_send_def)
  note send = buf_queue_send_store [OF q(2) n(2,1) e, of False msg, unfolded put]
  {
    assume "enc_len m + sum_list (map enc_len ms) \<le> N"
    then obtain r' where "ring_push ?r m = (RHINO_SUCCESS, r')" "dyn_holds N r' (ms @ [m])"
      using dyn_push_fits [OF h m(3)] dyn_fits_iff [OF h] by blast
    with send show "fst r = RHINO_SUCCESS \<and> dyn_holds N (bq_ringbuf (buf_queues (snd r) queue)) (ms @ [m])"
      by (simp add: r)
  next
    assume "\<not> enc_len m + sum_list (map enc_len ms) \<le> N"
    then have "ring_push ?r m = (RHINO_RINGBUF_FULL, ?r)" using dyn_push_full [OF h m(3)] dyn_fits_iff [OF h] by blast
    with send q(1) show "r = (RHINO_BUF_QUEUE_FULL, k)" by (simp add: r upd_buf_queue_same)
  }
qed

lemma bufq_deliver:
  assumes inv: "kinv k" and q: "queue \<noteq> NULL" "obj_type (blk_objs k queue) = RHINO_BUF_QUEUE_OBJ_TYPE" "msg \<noteq> 0"
    and n: "0 < n" "n \<le> max_msg_size (buf_queues k queue)" "n \<le> 2 ^ 32" and ts: "blk_list (blk_objs k queue) = t # ts"
  defines "r \<equiv> krhino_buf_queue_send queue msg n k"
  shows "fst r = RHINO_SUCCESS" and "load_bytes (task_msg (tasks k t)) n (snd r) = load_bytes msg n k"
    and "bq_msg_size (tasks (snd r) t) = n" and "fst (pend_state_end_proc t (snd r)) = RHINO_SUCCESS"
    and "buf_queues (snd r) = buf_queues k" and "blk_list (blk_objs (snd r) queue) = ts"
    and "bufq_recv_returns t n (snd r)"
    and "task_state (tasks (snd r) t) = (if task_state (tasks k t) = K_PEND then K_RDY else K_SUSPENDED)"
proof -
  have t: "t \<in> pend_on k queue" using blk_list_pend_on [OF inv, of queue] ts by auto
  have nn: "t \<noteq> NULL" using core_okD(11) [OF kinvD(5) [OF inv] pend_on_live [OF t]] .
  have a: "task_msg (tasks k t) \<noteq> 0" using kinvD(3) [OF inv, of queue] q(2) t by (simp add: obj_inv_def)
  let ?s = "store_bytes (task_msg (tasks k t)) (load_bytes msg n k) k"
  let ?k = "upd_task t (\<lambda>x. x\<lparr>bq_msg_size := n\<rparr>) ?s"
  have "winv ?s" using kinvD(1) [OF kinv_store_bytes [OF inv a]] .
  moreover have "state_same ?s ?k" using nn by (intro state_same_upd_task) (simp_all add: task_same_def)
  ultimately have "winv ?k" using state_same_winv(1) by blast
  note wk = wakeup_first [OF this, of queue t ts]
  have r: "r = (RHINO_SUCCESS, core_sched (pend_task_wakeup t ?k))"
    using q n(1,2) ts by (simp add: r_def krhino_buf_queue_send_def buf_queue_send_def Let_def take_load_bytes)
  show "fst r = RHINO_SUCCESS" "bq_msg_size (tasks (snd r) t) = n" "fst (pend_state_end_proc t (snd r)) = RHINO_SUCCESS"
    "buf_queues (snd r) = buf_queues k" "blk_list (blk_objs (snd r) queue) = ts"
    "task_state (tasks (snd r) t) = (if task_state (tasks k t) = K_PEND then K_RDY else K_SUSPENDED)"
    using wk ts by (simp_all add: r pend_state_end_proc_def)
  show "bufq_recv_returns t n (snd r)"
    using wk ts by (simp add: r bufq_recv_returns_def krhino_buf_queue_recv_end_def pend_state_end_proc_def load32_store32)
  have "load_bytes (task_msg (tasks k t)) n (snd r) = load_bytes (task_msg (tasks k t)) n ?s"
    by (simp add: r load_bytes_def)
  then show "load_bytes (task_msg (tasks k t)) n (snd r) = load_bytes msg n k"
    using load_store_bytes [of "load_bytes msg n k" "task_msg (tasks k t)" k] n(3) by simp
qed


lemma bufq_line_empty:
  assumes inv: "kinv k" and q: "obj_type (blk_objs k queue) = RHINO_BUF_QUEUE_OBJ_TYPE"
    and h: "dyn_holds N (bq_ringbuf (buf_queues k queue)) ms" and ts: "blk_list (blk_objs k queue) = t # ts"
  shows "ms = []"
proof -
  have t: "t \<in> pend_on k queue" using blk_list_pend_on [OF inv, of queue] ts by auto
  obtain ms' where "bufq_holds (buf_queues k queue) ms'" "length ms' = bq_cur_num (buf_queues k queue)"
    by (rule bufq_obj [OF inv q])
  moreover have "bq_cur_num (buf_queues k queue) = 0" using kinvD(3) [OF inv, of queue] q t by (auto simp: obj_inv_def)
  ultimately show ?thesis using bufq_empty_iff [of "buf_queues k queue" ms'] dyn_empty_iff [OF h] by simp
qed

lemma bufq_send_spec:
  assumes inv: "kinv k" and q: "queue \<noteq> NULL" "obj_type (blk_objs k queue) = RHINO_BUF_QUEUE_OBJ_TYPE" "msg \<noteq> 0"
    and h: "bufq_shows N queue k (ms, ts)"
    and n: "0 < n" "n \<le> max_msg_size (buf_queues k queue)" "n \<le> RINGBUF_LEN_3BYTES_MAXVALUE"
  defines "r \<equiv> krhino_buf_queue_send queue msg n k" and "s \<equiv> bufq_spec_send N (load_bytes msg n k) (ms, ts)"
  shows "fst r = fst s" and "bufq_shows N queue (snd r) (snd s)" and "fst s \<noteq> RHINO_SUCCESS \<Longrightarrow> snd r = k"
proof -
  have hm: "dyn_holds N (bq_ringbuf (buf_queues k queue)) ms" and ht: "blk_list (blk_objs k queue) = ts"
    using h by (simp_all add: bufq_shows_def)
  have "fst r = fst s \<and> bufq_shows N queue (snd r) (snd s) \<and> (fst s \<noteq> RHINO_SUCCESS \<longrightarrow> snd r = k)"
  proof (cases ts)
    case Nil
    note st = bufq_store [OF q hm n ht [unfolded Nil], folded r_def]
    have bl: "blk_list (blk_objs (snd r) queue) = []"
      using buf_queue_send_store [OF q(2) n(2,1) ht [unfolded Nil], of False msg] q ht Nil
      by (cases "bufq_put False (bq_ringbuf (buf_queues k queue)) (load_bytes msg (max_msg_size (buf_queues k queue)) k) n")
        (simp add: r_def krhino_buf_queue_send_def)
    show ?thesis
      using st bl h Nil
      by (cases "enc_len (load_bytes msg n k) + sum_list (map enc_len ms) \<le> N") (simp_all add: s_def bufq_shows_def)
  next
    case (Cons t ts')
    have m: "n \<le> 2 ^ 32" using n(3) by (simp add: rb_konst)
    show ?thesis
      using bufq_deliver [OF inv q n(1,2) m ht [unfolded Cons]] hm Cons by (simp add: r_def s_def bufq_shows_def)
  qed
  then show "fst r = fst s" and "bufq_shows N queue (snd r) (snd s)" and "fst s \<noteq> RHINO_SUCCESS \<Longrightarrow> snd r = k" by simp_all
qed

text \<open>What a receive leaves in the memory of the caller: the message and its length, the length 0, or, while it
  waits, the pointer to its buffer in the control block.\<close>

definition bufq_received :: "u32 \<Rightarrow> u32 \<Rightarrow> tid \<Rightarrow> u8 list option \<Rightarrow> outcome \<times> kernel \<Rightarrow> bool" where
  "bufq_received msg len a v r \<longleftrightarrow>
     (case v of
        Some m \<Rightarrow> (\<forall>i < length m. 4 \<le> unat (msg + word_of_nat i - len)) \<longrightarrow>
          load_bytes msg (length m) (snd r) = m \<and> load32 len (snd r) = word_of_nat (length m)
      | None \<Rightarrow> if fst r = Blocked then task_msg (tasks (snd r) a) = msg else load32 len (snd r) = 0)"

lemma bufq_recv_spec:
  fixes ticks :: u64
  assumes q: "queue \<noteq> NULL" "obj_type (blk_objs k queue) = RHINO_BUF_QUEUE_OBJ_TYPE" "msg \<noteq> 0" "len \<noteq> 0"
    and h: "bufq_shows N queue k (ms, ts)" and i: "g_intrpt_nested_level k = 0 \<or> ticks = RHINO_NO_WAIT"
  defines "r \<equiv> krhino_buf_queue_recv queue ticks msg len k"
    and "s \<equiv> spec_recv (queue_up k queue (g_active_task k)) ticks (g_sched_lock k > 0) (ms, ts)"
  shows "fst r = fst s \<and> bufq_shows N queue (snd r) (snd (snd s)) \<and> bufq_received msg len (g_active_task k) (fst (snd s)) r"
proof -
  let ?a = "g_active_task k"
  have hm: "dyn_holds N (bq_ringbuf (buf_queues k queue)) ms" and ht: "blk_list (blk_objs k queue) = ts"
    using h by (simp_all add: bufq_shows_def)
  show ?thesis
  proof (cases ms)
    case Nil
    let ?k = "upd_task ?a (\<lambda>x. x\<lparr>task_msg := msg\<rparr>) k"
    have r: "r = (if ticks = RHINO_NO_WAIT then (Ret RHINO_NO_PEND_WAIT, store32 len 0 k)
        else if g_sched_lock k > 0 then (Ret RHINO_SCHED_DISABLE, store32 len 0 k)
        else (Blocked, core_sched (pend_to_blk_obj queue ?a ticks ?k)))"
      using q i dyn_empty_iff [OF hm] Nil by (auto simp: r_def krhino_buf_queue_recv_def Let_def)
    have p: "prio (tasks ?k u) = prio (tasks k u)" for u by simp
    have "queue_up ?k queue ?a ts = queue_up k queue ?a ts" by (simp only: queue_up_def p upd_task_sel(14))
    then show ?thesis
      using hm ht Nil pend_to_blk_obj_queue [of queue ?a ticks ?k]
      by (simp add: r s_def bufq_shows_def bufq_received_def load32_store32 pend_to_blk_obj_info)
  next
    case (Cons v ms')
    obtain rb where rb: "ringbuf_pop (bq_ringbuf (buf_queues k queue)) = (RHINO_SUCCESS, v, length v, rb)" "dyn_holds N rb ms'"
      by (rule dyn_take [OF hm [unfolded Cons]])
    let ?s = "upd_buf_queue queue (\<lambda>x. x\<lparr>bq_ringbuf := rb, bq_cur_num := bq_cur_num x - 1\<rparr>) k"
    have ty: "rb_type rb \<noteq> RINGBUF_TYPE_FIX" using rb(2) by (simp add: dyn_holds_def rb_konst)
    have r: "r = (Ret RHINO_SUCCESS, store_bytes msg v (store32 len (word_of_nat (length v)) ?s))"
      using q i dyn_empty_iff [OF hm] Cons rb(1) ty by (auto simp: r_def krhino_buf_queue_recv_def recv_out_def Let_def)
    have "length v \<le> 2 ^ 32" using hm Cons by (simp add: dyn_holds_def dyn_ok_def rb_konst)
    then have "load_bytes msg (length v) (snd r) = v" by (simp add: r load_store_bytes)
    moreover have "load32 len (snd r) = word_of_nat (length v)" if "\<forall>i < length v. 4 \<le> unat (msg + word_of_nat i - len)"
      using load32_store_bytes_clear [OF that] by (simp add: r load32_store32)
    ultimately have "bufq_received msg len ?a (Some v) r" by (simp add: bufq_received_def)
    then show ?thesis using rb(2) ht Cons by (simp add: r s_def bufq_shows_def)
  qed
qed

text \<open>
  C15. Seen as its messages and the line of waiting receivers, a buffer queue over a dynamic ring behaves as a FIFO queue
  of byte messages, bounded by the bytes its messages and their headers take. A send stores a message that fits,
  refuses one that does not and then changes nothing; with a waiting receiver the bytes are copied to its buffer, it
  leaves the line, becomes ready, and its call returns the length. A receive copies the first message and its
  length out; from an empty queue it returns at once with length 0 when it may not wait or the
  scheduler is locked, and otherwise puts the caller into the line.
\<close>

theorem buf_queue_refines:
  assumes "reachable k" and "queue \<noteq> NULL" and "obj_type (blk_objs k queue) = RHINO_BUF_QUEUE_OBJ_TYPE"
    and "bufq_shows N queue k (ms, ts)" and "msg \<noteq> 0"
    and "0 < n" and "n \<le> max_msg_size (buf_queues k queue)" and "n \<le> RINGBUF_LEN_3BYTES_MAXVALUE"
  shows "(fst (krhino_buf_queue_send queue msg n k) = fst (bufq_spec_send N (load_bytes msg n k) (ms, ts)) \<and>
      bufq_shows N queue (snd (krhino_buf_queue_send queue msg n k)) (snd (bufq_spec_send N (load_bytes msg n k) (ms, ts)))) \<and>
    (fst (krhino_buf_queue_send queue msg n k) \<noteq> RHINO_SUCCESS \<longrightarrow>
      krhino_buf_queue_send queue msg n k = (RHINO_BUF_QUEUE_FULL, k)) \<and>
    (\<forall>t ts'. ts = t # ts' \<longrightarrow> ms = [] \<and>
      load_bytes (task_msg (tasks k t)) n (snd (krhino_buf_queue_send queue msg n k)) = load_bytes msg n k \<and>
      bufq_recv_returns t n (snd (krhino_buf_queue_send queue msg n k)) \<and>
      task_state (tasks (snd (krhino_buf_queue_send queue msg n k)) t) =
        (if task_state (tasks k t) = K_PEND then K_RDY else K_SUSPENDED)) \<and>
    (len \<noteq> 0 \<and> (g_intrpt_nested_level k = 0 \<or> ticks = RHINO_NO_WAIT) \<longrightarrow>
      fst (krhino_buf_queue_recv queue ticks msg len k) =
        fst (spec_recv (queue_up k queue (g_active_task k)) ticks (g_sched_lock k > 0) (ms, ts)) \<and>
      bufq_shows N queue (snd (krhino_buf_queue_recv queue ticks msg len k))
        (snd (snd (spec_recv (queue_up k queue (g_active_task k)) ticks (g_sched_lock k > 0) (ms, ts)))) \<and>
      bufq_received msg len (g_active_task k)
        (fst (snd (spec_recv (queue_up k queue (g_active_task k)) ticks (g_sched_lock k > 0) (ms, ts))))
        (krhino_buf_queue_recv queue ticks msg len k))"
proof (intro conjI allI impI)
  note inv = reachable_kinv [OF assms(1)]
  note sp = bufq_send_spec [OF inv assms(2,3,5,4,6-8)]
  show "fst (krhino_buf_queue_send queue msg n k) = fst (bufq_spec_send N (load_bytes msg n k) (ms, ts))"
    "bufq_shows N queue (snd (krhino_buf_queue_send queue msg n k)) (snd (bufq_spec_send N (load_bytes msg n k) (ms, ts)))"
    by (rule sp)+
  have "fst (bufq_spec_send N (load_bytes msg n k) (ms, ts)) \<in> {RHINO_SUCCESS, RHINO_BUF_QUEUE_FULL}" by (cases ts) simp_all
  then show "krhino_buf_queue_send queue msg n k = (RHINO_BUF_QUEUE_FULL, k)"
    if "fst (krhino_buf_queue_send queue msg n k) \<noteq> RHINO_SUCCESS"
    using that sp(1,3) by (intro prod_eqI) auto
  have m: "n \<le> 2 ^ 32" using assms(8) by (simp add: rb_konst)
  have h: "dyn_holds N (bq_ringbuf (buf_queues k queue)) ms" "blk_list (blk_objs k queue) = ts"
    using assms(4) by (simp_all add: bufq_shows_def)
  fix t ts' assume t: "ts = t # ts'"
  note de = bufq_deliver [OF inv assms(2,3,5,6,7) m h(2) [unfolded t]]
  show "ms = []" by (rule bufq_line_empty [OF inv assms(3) h(1) h(2) [unfolded t]])
  show "load_bytes (task_msg (tasks k t)) n (snd (krhino_buf_queue_send queue msg n k)) = load_bytes msg n k" by (rule de(2))
  show "bufq_recv_returns t n (snd (krhino_buf_queue_send queue msg n k))" by (rule de(7))
  show "task_state (tasks (snd (krhino_buf_queue_send queue msg n k)) t) =
    (if task_state (tasks k t) = K_PEND then K_RDY else K_SUSPENDED)" by (rule de(8))
next
  assume m: "len \<noteq> 0 \<and> (g_intrpt_nested_level k = 0 \<or> ticks = RHINO_NO_WAIT)"
  note r = bufq_recv_spec [OF assms(2,3,5) conjunct1 [OF m] assms(4) conjunct2 [OF m]]
  show "fst (krhino_buf_queue_recv queue ticks msg len k) =
      fst (spec_recv (queue_up k queue (g_active_task k)) ticks (g_sched_lock k > 0) (ms, ts))"
    and "bufq_shows N queue (snd (krhino_buf_queue_recv queue ticks msg len k))
      (snd (snd (spec_recv (queue_up k queue (g_active_task k)) ticks (g_sched_lock k > 0) (ms, ts))))"
    and "bufq_received msg len (g_active_task k)
      (fst (snd (spec_recv (queue_up k queue (g_active_task k)) ticks (g_sched_lock k > 0) (ms, ts))))
      (krhino_buf_queue_recv queue ticks msg len k)"
    by (rule conjunct1 [OF r], rule conjunct1 [OF conjunct2 [OF r]], rule conjunct2 [OF conjunct2 [OF r]])
qed

theorem buf_queue_refines_witness:
  "fst (krhino_buf_queue_send 31 100 3 has_buf_queue) = RHINO_SUCCESS \<and>
   bufq_shows 16 31 (snd (krhino_buf_queue_send 31 100 3 has_buf_queue)) ([load_bytes 100 3 has_buf_queue], []) \<and>
   fst (krhino_buf_queue_recv 31 5 100 200 has_buf_queue) = Blocked \<and>
   bufq_shows 16 31 (snd (krhino_buf_queue_recv 31 5 100 200 has_buf_queue)) ([], [2])"
proof -
  have "(31::oid) \<noteq> NULL" "(100::u32) \<noteq> 0" "3 \<le> RINGBUF_LEN_3BYTES_MAXVALUE" by (simp_all add: rb_konst)
  moreover obtain ms where h: "bufq_holds (buf_queues has_buf_queue 31) ms" "length ms = bq_cur_num (buf_queues has_buf_queue 31)"
    by (rule bufq_obj [OF reachable_kinv [OF has_buf_queue_reachable], of 31]) (use has_buf_queue_facts in simp_all)
  moreover from this have "ms = []" using has_buf_queue_facts by simp
  moreover have "bufq_shows 16 31 has_buf_queue ([], [])"
    using h \<open>ms = []\<close> has_buf_queue_facts by (auto simp: bufq_shows_def bufq_holds_def fix_holds_def rb_konst)
  moreover have "enc_len (load_bytes 100 3 has_buf_queue) \<le> 16"
    by (simp add: enc_len_def dyn_enc_def len_hdr_def ringbuf_headlen_compress_def COMPRESS_LEN_def rb_konst Let_def)
  moreover have "queue_up has_buf_queue 31 2 [] = [2]" "g_active_task has_buf_queue = 2"
    "g_intrpt_nested_level has_buf_queue = 0" "g_sched_lock has_buf_queue = 0" by code_simp+
  ultimately show ?thesis
    using buf_queue_refines [OF has_buf_queue_reachable, of 31 16 "[]" "[]" 100 3 200 5] has_buf_queue_facts
    by (simp add: RHINO_NO_WAIT_def)
qed

end
