(* ===== verification/Rhino_Locks.thy ===== *)
theory Rhino_Locks
  imports Rhino_Services
begin

text \<open>
  What the calls on mutexes, events and tasks do in a running system, and which calls are refused.
\<close>

section \<open>Mutexes\<close>

text \<open>
  C13. Unlocking hands the mutex over: the first waiting task, the one of best priority, becomes the owner
  with one lock, leaves the line, and returns from its call with success; the caller no longer
  holds the mutex.
\<close>

theorem mutex_hand_over:
  assumes "reachable k" and "g_intrpt_nested_level k = 0" and "obj_type (blk_objs k m) = RHINO_MUTEX_OBJ_TYPE"
    and "mutex_task (mutexes k m) = g_active_task k" and "owner_nested (mutexes k m) = 1"
    and "blk_list (blk_objs k m) = w # ws"
  shows "fst (krhino_mutex_unlock m k) = RHINO_SUCCESS \<and>
    mutex_task (mutexes (snd (krhino_mutex_unlock m k)) m) = w \<and>
    owner_nested (mutexes (snd (krhino_mutex_unlock m k)) m) = 1 \<and>
    blk_list (blk_objs (snd (krhino_mutex_unlock m k)) m) = ws \<and>
    (\<forall>u \<in> set ws. prio (tasks k w) \<le> prio (tasks k u)) \<and>
    task_state (tasks (snd (krhino_mutex_unlock m k)) w) = (if task_state (tasks k w) = K_PEND then K_RDY else K_SUSPENDED) \<and>
    fst (pend_state_end_proc w (snd (krhino_mutex_unlock m k))) = RHINO_SUCCESS \<and>
    m \<in> set (mutex_list (tasks (snd (krhino_mutex_unlock m k)) w)) \<and>
    m \<notin> set (mutex_list (tasks (snd (krhino_mutex_unlock m k)) (g_active_task k)))"
proof -
  let ?a = "g_active_task k"
  note inv = reachable_kinv [OF assms(1)]
  note w = kinvD(1) [OF inv] and c = core_okD [OF kinvD(5) [OF inv]]
  have a: "?a \<in> rdy k" using kinv_active_rdy [OF inv assms(2)] .
  have m: "m \<noteq> NULL" "blk_policy (blk_objs k m) = BLK_POLICY_PRI" using own_okD(3) [OF c(3) assms(3)] by auto
  define k2 where "k2 = mutex_release ?a m (upd_mutex m (\<lambda>x. x\<lparr>owner_nested := owner_nested x - 1\<rparr>) k)"
  define k' where "k' = upd_mutex m (\<lambda>x. x\<lparr>owner_nested := 1\<rparr>) (upd_task w (\<lambda>x. x\<lparr>mutex_list := m # mutex_list x\<rparr>)
    (upd_mutex m (\<lambda>x. x\<lparr>mutex_task := w\<rparr>) (pend_task_wakeup w k2)))"
  note p = mutex_pass_winv [OF w assms(3,4) a assms(6), folded k2_def, folded k'_def]
  have run: "g_sys_stat k = RHINO_RUNNING" using kinvD(4) [OF inv] by (simp add: sched_ok_def)
  have e: "krhino_mutex_unlock m k = (RHINO_SUCCESS, core_sched k')"
    using assms(2-6) m(1) run p(4) unfolding k'_def k2_def by (simp add: krhino_mutex_unlock_def Let_def)
  have srt: "\<forall>u \<in> set ws. prio (tasks k w) \<le> prio (tasks k u)"
    using bl_okD(3) [OF c(2) m(2)] assms(6) by simp
  show ?thesis
    using srt p(5-8) by (simp add: e pend_state_end_proc_def)
qed

text \<open>
  C20. Locking a free mutex and unlocking it again, with nobody waiting in between, gives back the
  kernel as it was but for the count of locks in the free mutex.
\<close>

theorem mutex_lock_unlock:
  assumes "reachable k" and "g_intrpt_nested_level k = 0" and "not_idle k"
    and "obj_type (blk_objs k m) = RHINO_MUTEX_OBJ_TYPE" and "mutex_task (mutexes k m) = NULL"
  shows "fst (krhino_mutex_lock m ticks k) = Ret RHINO_SUCCESS \<and>
    krhino_mutex_unlock m (snd (krhino_mutex_lock m ticks k)) =
      (RHINO_SUCCESS, k\<lparr>mutexes := (mutexes k)(m := (mutexes k m)\<lparr>owner_nested := 0\<rparr>)\<rparr>)"
proof -
  let ?a = "g_active_task k"
  note inv = reachable_kinv [OF assms(1)]
  note c = core_okD [OF kinvD(5) [OF inv]]
  have m: "m \<noteq> NULL" using own_okD(3) [OF c(3) assms(4)] by auto
  have a: "?a \<noteq> NULL" "?a \<in> live k" using winvD(7) [OF kinvD(1) [OF inv]] kinvD(4) [OF inv] by (auto simp: sched_ok_def)
  have run: "g_sys_stat k = RHINO_RUNNING" using kinvD(4) [OF inv] by (simp add: sched_ok_def)
  define k1 where "k1 = snd (krhino_mutex_lock m ticks k)"
  have l: "krhino_mutex_lock m ticks k = (Ret RHINO_SUCCESS, k1)"
    "k1 = upd_mutex m (\<lambda>x. x\<lparr>owner_nested := 1\<rparr>) (upd_task ?a (\<lambda>x. x\<lparr>mutex_list := m # mutex_list x\<rparr>)
      (upd_mutex m (\<lambda>x. x\<lparr>mutex_task := ?a\<rparr>) k))"
    using m run assms(2,4,5) a(1) by (simp_all add: k1_def krhino_mutex_lock_def Let_def)
  have inv1: "kinv k1" unfolding k1_def by (rule mutex_lock_kinv [OF inv]) (use assms(3,5) a(1) in \<open>simp_all add: not_idle_def\<close>)
  have f: "g_active_task k1 = ?a" "g_intrpt_nested_level k1 = 0" "g_sys_stat k1 = RHINO_RUNNING"
    "obj_type (blk_objs k1 m) = RHINO_MUTEX_OBJ_TYPE" "mutex_task (mutexes k1 m) = ?a" "owner_nested (mutexes k1 m) = 1"
    "blk_list (blk_objs k1 m) = []"
    using run assms(2,4,5) own_okD(4) [OF c(3) assms(4)] blk_list_empty_iff [OF inv, of m] by (auto simp: l(2))
  have nr: "m \<notin> set (mutex_list (tasks k ?a))" using own_okD(2) [OF c(3) a(2), of m] assms(5) a(1) by auto
  have "?a \<in> rdy k1" using kinv_active_rdy [OF inv1 f(2)] by (simp add: f(1))
  note d = mutex_drop_winv(2) [OF kinvD(1) [OF inv1] f(4,5) this f(7)]
  have "krhino_mutex_unlock m k1 = (RHINO_SUCCESS, upd_mutex m (\<lambda>x. x\<lparr>mutex_task := NULL\<rparr>)
      (upd_task ?a (\<lambda>x. x\<lparr>mutex_list := filter (\<lambda>y. y \<noteq> m) (mutex_list x)\<rparr>)
        (upd_mutex m (\<lambda>x. x\<lparr>owner_nested := owner_nested x - 1\<rparr>) k1)))"
    using m f d by (simp add: krhino_mutex_unlock_def Let_def)
  moreover have "filter (\<lambda>y. y \<noteq> m) (mutex_list (tasks k ?a)) = mutex_list (tasks k ?a)"
    using nr by (metis (mono_tags, lifting) filter_True)
  moreover have "(mutexes k m)\<lparr>owner_nested := 0, mutex_task := NULL\<rparr> = (mutexes k m)\<lparr>owner_nested := 0\<rparr>"
    using assms(5) by (cases "mutexes k m") simp
  ultimately show ?thesis
    using l m a(1) assms(5) by (simp add: upd_mutex_def upd_task_def fun_upd_idem)
qed

theorem mutex_lock_unlock_witness:
  "fst (krhino_mutex_lock 20 RHINO_WAIT_FOREVER has_mutex) = Ret RHINO_SUCCESS \<and>
   krhino_mutex_unlock 20 (snd (krhino_mutex_lock 20 RHINO_WAIT_FOREVER has_mutex)) =
     (RHINO_SUCCESS, has_mutex\<lparr>mutexes := (mutexes has_mutex)(20 := (mutexes has_mutex 20)\<lparr>owner_nested := 0\<rparr>)\<rparr>)"
proof -
  have "g_intrpt_nested_level has_mutex = 0" "not_idle has_mutex" "obj_type (blk_objs has_mutex 20) = RHINO_MUTEX_OBJ_TYPE"
    "mutex_task (mutexes has_mutex 20) = NULL" by code_simp+
  then show ?thesis by (rule mutex_lock_unlock [OF has_mutex_reachable])
qed

theorem mutex_hand_over_witness:
  "mutex_task (mutexes (snd (krhino_mutex_unlock 20 contended)) 20) = 10 \<and>
   task_state (tasks (snd (krhino_mutex_unlock 20 contended)) 10) = K_RDY \<and>
   20 \<in> set (mutex_list (tasks (snd (krhino_mutex_unlock 20 contended)) 10))"
  using mutex_hand_over [OF contended_reachable, of 20 10 "[]"] by (simp add: contended_facts contended_active)

section \<open>Events\<close>

text \<open>The condition of a waiting task, and whether its wait clears the flags it asked for.\<close>

definition wants :: "kernel \<Rightarrow> u32 \<Rightarrow> tid \<Rightarrow> bool" where
  "wants k flags t = flags_met (pend_option (tasks k t)) (pend_flags (tasks k t)) flags"

definition clears :: "kernel \<Rightarrow> tid \<Rightarrow> bool" where
  "clears k t \<longleftrightarrow> pend_option (tasks k t) AND RHINO_FLAGS_CLEAR_MASK \<noteq> 0"

lemma event_wake_split: "event_wake e f (t # ts) k = event_wake e f ts (event_wake e f [t] k)"
  by (simp add: Let_def)

lemma woken_pend [simp]: "pend_option (woken st x) = pend_option x" "pend_flags (woken st x) = pend_flags x"
  by (simp_all add: woken_def)

text \<open>One round of the loop. \<open>load32\<close> sees a word of memory; a word that is not the result word of the task and
  does not overlap it is as before.\<close>

lemma event_wake_one:
  assumes but: "kpre_but event k" and t: "t \<in> pend_on k event" and ev: "obj_type (blk_objs k event) = RHINO_EVENT_OBJ_TYPE"
    and nz: "pend_info (tasks k t) \<noteq> 0"
  shows "tasks (event_wake event f [t] k) = (if wants k f t then (tasks k)(t := woken BLK_FINISH (tasks k t)) else tasks k)"
    and "event_flags (events (event_wake event f [t] k) event) =
      (if wants k f t \<and> clears k t then event_flags (events k event) AND NOT (pend_flags (tasks k t)) else event_flags (events k event))"
    and "mem (event_wake event f [t] k) = (if wants k f t then mem (store32 (pend_info (tasks k t)) f k) else mem k)"
proof -
  let ?k1 = "store32 (pend_info (tasks k t)) f k"
  have same: "tasks ?k1 = tasks k" "pend_on ?k1 = pend_on k" by simp_all
  have "kpre_but event ?k1" by (rule kpre_but_same [OF but]) (use nz in simp_all)
  then have inv: "winv ?k1" by (simp add: kpre_but_def)
  then have tk: "tasks (pend_task_wakeup t ?k1) = (tasks k)(t := woken BLK_FINISH (tasks k t))"
    using wakeup_waiting(1) [of ?k1 t event] t same by simp
  show "tasks (event_wake event f [t] k) = (if wants k f t then (tasks k)(t := woken BLK_FINISH (tasks k t)) else tasks k)"
    by (simp add: wants_def tk Let_def)
  show "event_flags (events (event_wake event f [t] k) event) =
      (if wants k f t \<and> clears k t then event_flags (events k event) AND NOT (pend_flags (tasks k t)) else event_flags (events k event))"
    by (simp add: wants_def clears_def tk Let_def)
  show "mem (event_wake event f [t] k) = (if wants k f t then mem (store32 (pend_info (tasks k t)) f k) else mem k)"
    by (simp add: wants_def Let_def)
qed

lemma load32_same_mem: "mem k' = mem k \<Longrightarrow> load32 a k' = load32 a k"
  by (simp add: load32_def load_bytes_def)

lemma event_wake_ok:
  assumes "kpre_but event k" and "event \<noteq> NULL" and "obj_type (blk_objs k event) = RHINO_EVENT_OBJ_TYPE"
    and "set ts \<subseteq> pend_on k event" and "distinct ts" and "\<forall>t \<in> set ts. pend_info (tasks k t) \<noteq> 0"
  shows "(\<forall>t. tasks (event_wake event f ts k) t =
      (if t \<in> set ts \<and> wants k f t then woken BLK_FINISH (tasks k t) else tasks k t)) \<and>
    (\<forall>i. bit (event_flags (events (event_wake event f ts k) event)) i \<longleftrightarrow> bit (event_flags (events k event)) i \<and>
      \<not> (\<exists>t \<in> set ts. wants k f t \<and> clears k t \<and> bit (pend_flags (tasks k t)) i)) \<and>
    (\<forall>a. (\<forall>t \<in> set ts. wants k f t \<longrightarrow> a = pend_info (tasks k t) \<or> apart a 4 (pend_info (tasks k t)) 4) \<longrightarrow>
      load32 a (event_wake event f ts k) =
        (if \<exists>t \<in> set ts. wants k f t \<and> a = pend_info (tasks k t) then f else load32 a k))"
  using assms
proof (induction ts arbitrary: k)
  case (Cons t ts)
  define s where "s = event_wake event f [t] k"
  have t: "t \<in> pend_on k event" "t \<notin> set ts" "pend_info (tasks k t) \<noteq> 0" using Cons.prems by auto
  note one = event_wake_one [OF Cons.prems(1) t(1) Cons.prems(3) t(3), of f, folded s_def]
  have k: "kpre_but event s" "obj_type (blk_objs s event) = RHINO_EVENT_OBJ_TYPE"
    using event_wake_but [OF Cons.prems(1-3), of "[t]" f] t by (simp_all add: s_def del: event_wake.simps)
  have tk: "tasks s u = tasks k u" if "u \<noteq> t" for u using that by (simp add: one(1))
  then have same: "wants s f u = wants k f u" "clears s u = clears k u" if "u \<noteq> t" for u
    using that by (simp_all add: wants_def clears_def)
  have tk': "tasks s u = tasks k u \<and> wants s f u = wants k f u \<and> clears s u = clears k u" if "u \<in> set ts" for u
    using that t(2) tk same by metis
  have sub: "set ts \<subseteq> pend_on s event"
  proof
    fix u assume "u \<in> set ts"
    then show "u \<in> pend_on s event" using tk' [of u] Cons.prems(4) by (auto simp: pend_on_def)
  qed
  have info: "\<forall>u \<in> set ts. pend_info (tasks s u) \<noteq> 0" using tk' Cons.prems(6) by simp
  have d: "distinct ts" using Cons.prems(5) by simp
  note IH = Cons.IH [OF k(1) Cons.prems(2) k(2) sub d info]
  have ex: "(\<exists>u \<in> set ts. wants s f u \<and> Q s u) \<longleftrightarrow> (\<exists>u \<in> set ts. wants k f u \<and> Q k u)"
    if "\<And>u. u \<in> set ts \<Longrightarrow> Q s u = Q k u" for Q :: "kernel \<Rightarrow> tid \<Rightarrow> bool" using tk' that by blast
  have "tasks (event_wake event f ts s) u =
      (if u \<in> set (t # ts) \<and> wants k f u then woken BLK_FINISH (tasks k u) else tasks k u)" for u
    using conjunct1 [OF IH] t(2) same tk by (cases "u = t") (simp_all add: one(1))
  moreover have "bit (event_flags (events (event_wake event f ts s) event)) i \<longleftrightarrow> bit (event_flags (events k event)) i \<and>
      \<not> (\<exists>u \<in> set (t # ts). wants k f u \<and> clears k u \<and> bit (pend_flags (tasks k u)) i)" for i
  proof -
    have "bit (event_flags (events s event)) i \<longleftrightarrow> bit (event_flags (events k event)) i \<and>
      \<not> (wants k f t \<and> clears k t \<and> bit (pend_flags (tasks k t)) i)"
      by (auto simp: one(2) bit_and_iff bit_not_iff dest: bit_imp_le_length)
    moreover have "(\<exists>u \<in> set ts. wants s f u \<and> clears s u \<and> bit (pend_flags (tasks s u)) i) \<longleftrightarrow>
      (\<exists>u \<in> set ts. wants k f u \<and> clears k u \<and> bit (pend_flags (tasks k u)) i)"
      by (rule ex [of "\<lambda>k u. clears k u \<and> bit (pend_flags (tasks k u)) i"]) (use tk' in simp)
    ultimately show ?thesis using conjunct1 [OF conjunct2 [OF IH]] by auto
  qed
  moreover have "load32 a (event_wake event f ts s) =
      (if \<exists>u \<in> set (t # ts). wants k f u \<and> a = pend_info (tasks k u) then f else load32 a k)"
    if a: "\<forall>u \<in> set (t # ts). wants k f u \<longrightarrow> a = pend_info (tasks k u) \<or> apart a 4 (pend_info (tasks k u)) 4" for a
  proof -
    have "load32 a s = (if wants k f t \<and> a = pend_info (tasks k t) then f else load32 a k)"
    proof (cases "wants k f t")
      case True
      then have "load32 a s = load32 a (store32 (pend_info (tasks k t)) f k)" by (intro load32_same_mem) (simp add: one(3))
      then show ?thesis using True a by (cases "a = pend_info (tasks k t)") (simp_all add: load32_store32 load32_store32_apart)
    next
      case False
      then show ?thesis using load32_same_mem [of s k a] by (simp add: one(3))
    qed
    moreover have "(\<exists>u \<in> set ts. wants s f u \<and> a = pend_info (tasks s u)) \<longleftrightarrow>
      (\<exists>u \<in> set ts. wants k f u \<and> a = pend_info (tasks k u))"
      by (rule ex [of "\<lambda>k u. a = pend_info (tasks k u)"]) (use tk' in simp)
    moreover have "\<forall>u \<in> set ts. wants s f u \<longrightarrow> a = pend_info (tasks s u) \<or> apart a 4 (pend_info (tasks s u)) 4"
      using a tk' by simp
    ultimately show ?thesis using conjunct2 [OF conjunct2 [OF IH]] by auto
  qed
  ultimately show ?case unfolding event_wake_split [of event f t ts k] s_def [symmetric] by blast
qed simp

text \<open>
  C16. Setting event flags wakes exactly the waiting tasks whose condition the new flags meet, each of
  them with success, and leaves the others waiting; what remains set is what none of the woken
  tasks asked to clear. The conditions are compared with the flags before anything is cleared, and these flags are
  what each woken task finds in the word its call named, as far as these words are the same or apart; no
  other word of memory changes. With \<^verbatim>\<open>RHINO_AND\<close> flags are only removed, and any other option is refused.
\<close>

theorem event_set_wakes:
  assumes "reachable k" and "event \<noteq> NULL" and "obj_type (blk_objs k event) = RHINO_EVENT_OBJ_TYPE"
    and "f = event_flags (events k event) OR flags"
  shows "fst (krhino_event_set event flags RHINO_OR k) = RHINO_SUCCESS \<and>
    set (blk_list (blk_objs (snd (krhino_event_set event flags RHINO_OR k)) event)) =
      {t \<in> set (blk_list (blk_objs k event)). \<not> wants k f t} \<and>
    (\<forall>t \<in> set (blk_list (blk_objs k event)). wants k f t \<longrightarrow>
      task_state (tasks (snd (krhino_event_set event flags RHINO_OR k)) t) = (if task_state (tasks k t) = K_PEND then K_RDY else K_SUSPENDED) \<and>
      fst (pend_state_end_proc t (snd (krhino_event_set event flags RHINO_OR k))) = RHINO_SUCCESS) \<and>
    (\<forall>i. bit (event_flags (events (snd (krhino_event_set event flags RHINO_OR k)) event)) i \<longleftrightarrow> bit f i \<and>
      \<not> (\<exists>t \<in> set (blk_list (blk_objs k event)). wants k f t \<and> clears k t \<and> bit (pend_flags (tasks k t)) i)) \<and>
    (\<forall>a. (\<forall>t \<in> set (blk_list (blk_objs k event)). wants k f t \<longrightarrow>
        a = pend_info (tasks k t) \<or> apart a 4 (pend_info (tasks k t)) 4) \<longrightarrow>
      load32 a (snd (krhino_event_set event flags RHINO_OR k)) =
        (if \<exists>t \<in> set (blk_list (blk_objs k event)). wants k f t \<and> a = pend_info (tasks k t) then f else load32 a k)) \<and>
    krhino_event_set event flags RHINO_AND k =
      (RHINO_SUCCESS, upd_event event (\<lambda>x. x\<lparr>event_flags := event_flags x AND flags\<rparr>) k) \<and>
    (\<forall>opt. opt \<noteq> RHINO_AND \<and> opt \<noteq> RHINO_OR \<longrightarrow> krhino_event_set event flags opt k = (RHINO_NO_THIS_EVENT_OPT, k))"
proof -
  note inv = reachable_kinv [OF assms(1)]
  let ?ts = "blk_list (blk_objs k event)"
  define k1 where "k1 = upd_event event (\<lambda>x. x\<lparr>event_flags := event_flags x OR flags\<rparr>) k"
  define k2 where "k2 = event_wake event f ?ts k1"
  have e: "krhino_event_set event flags RHINO_OR k = (RHINO_SUCCESS, core_sched k2)"
    using assms(2-4) by (simp add: krhino_event_set_def event_set_def Let_def k1_def k2_def event_konst)
  have but: "kpre_but event k1" unfolding k1_def
    by (rule kpre_but_same) (use kinv_kpre [OF inv] assms(2) in \<open>simp_all add: kpre_but_iff [of _ event]\<close>)
  have same: "tasks k1 = tasks k" "pend_on k1 = pend_on k" "wants k1 = wants k" "clears k1 = clears k"
    "event_flags (events k1 event) = f" "blk_objs k1 = blk_objs k" "load32 a k1 = load32 a k" for a
    by (simp_all add: k1_def pend_on_def wants_def clears_def fun_eq_iff assms(4) load32_def load_bytes_def)
  have ts: "set ?ts = pend_on k event" "distinct ?ts"
    using blk_list_pend_on [OF inv] bl_okD(1) [OF core_okD(2) [OF kinvD(5) [OF inv]]] by auto
  have info: "\<forall>t \<in> set ?ts. pend_info (tasks k t) \<noteq> 0"
    using kinvD(3) [OF inv, of event] assms(3) ts(1) by (simp add: obj_inv_def)
  note ok = event_wake_ok [OF but assms(2), of ?ts f, unfolded same, folded k2_def]
  have w: "tasks k2 t = (if t \<in> set ?ts \<and> wants k f t then woken BLK_FINISH (tasks k t) else tasks k t)"
    "bit (event_flags (events k2 event)) i \<longleftrightarrow> bit f i \<and>
      \<not> (\<exists>t \<in> set ?ts. wants k f t \<and> clears k t \<and> bit (pend_flags (tasks k t)) i)" for t i
    using ok ts assms(3) info by simp_all
  have mem: "load32 a (core_sched k2) = (if \<exists>t \<in> set ?ts. wants k f t \<and> a = pend_info (tasks k t) then f else load32 a k)"
    if "\<forall>t \<in> set ?ts. wants k f t \<longrightarrow> a = pend_info (tasks k t) \<or> apart a 4 (pend_info (tasks k t)) 4" for a
    using ok ts assms(3) info that load32_same_mem [of "core_sched k2" k2 a] by simp
  have "kpre_but event k2"
    using event_wake_but [OF but assms(2), of ?ts f] ts assms(3) info by (simp add: same k2_def)
  then have "set (blk_list (blk_objs k2 event)) = pend_on k2 event"
    by (intro bl_okD(2) [OF core_okD(2) [OF winvD(1)]]) (simp add: kpre_but_def)
  also have "\<dots> = {t \<in> set ?ts. \<not> wants k f t}"
    unfolding ts(1) by (auto simp: pend_on_def w(1) ts(1) pended_def)
  finally have bl: "set (blk_list (blk_objs k2 event)) = {t \<in> set ?ts. \<not> wants k f t}" .
  have a: "krhino_event_set event flags RHINO_AND k =
      (RHINO_SUCCESS, upd_event event (\<lambda>x. x\<lparr>event_flags := event_flags x AND flags\<rparr>) k)"
    "opt \<noteq> RHINO_AND \<and> opt \<noteq> RHINO_OR \<Longrightarrow> krhino_event_set event flags opt k = (RHINO_NO_THIS_EVENT_OPT, k)" for opt
    using assms(2,3) by (simp_all add: krhino_event_set_def event_set_def event_konst)
  show ?thesis unfolding e fst_conv snd_conv
  proof (intro conjI allI ballI impI)
    show "set (blk_list (blk_objs (core_sched k2) event)) = {t \<in> set ?ts. \<not> wants k f t}" using bl by simp
    show "load32 x (core_sched k2) = (if \<exists>t \<in> set ?ts. wants k f t \<and> x = pend_info (tasks k t) then f else load32 x k)"
      if "\<forall>t \<in> set ?ts. wants k f t \<longrightarrow> x = pend_info (tasks k t) \<or> apart x 4 (pend_info (tasks k t)) 4" for x
      by (rule mem [OF that])
    show "(bit (event_flags (events (core_sched k2) event)) i) = (bit f i \<and>
      \<not> (\<exists>t \<in> set ?ts. wants k f t \<and> clears k t \<and> bit (pend_flags (tasks k t)) i))" for i using w(2) by simp
  qed (use w(1) a in \<open>simp_all add: pend_state_end_proc_def\<close>)
qed

theorem event_set_wakes_witness:
  "blk_list (blk_objs (snd (krhino_event_set 40 3 RHINO_OR awaits_event)) 40) = [] \<and>
   task_state (tasks (snd (krhino_event_set 40 3 RHINO_OR awaits_event)) 2) = K_RDY \<and>
   bit (event_flags (events (snd (krhino_event_set 40 3 RHINO_OR awaits_event)) 40)) 1 \<and>
   \<not> bit (event_flags (events (snd (krhino_event_set 40 3 RHINO_OR awaits_event)) 40)) 0 \<and>
   load32 100 (snd (krhino_event_set 40 3 RHINO_OR awaits_event)) = 3"
proof -
  have w: "wants awaits_event 3 2" "clears awaits_event 2"
    by (simp_all add: wants_def clears_def awaits_event_facts flags_met_def event_konst)
  have b: "bit (3::u32) 1" "bit (3::u32) 0" by code_simp+
  have "{t. t = 2 \<and> \<not> wants awaits_event 3 t} = {}" using w by auto
  with event_set_wakes [OF awaits_event_reachable, of 40 3 3] w b show ?thesis
    by (simp add: awaits_event_facts)
qed

end
