(* ===== verification/Rhino_Nonpreempt.thy ===== *)
theory Rhino_Nonpreempt
  imports Rhino_Locks
begin

text \<open>
  While the scheduler is locked (\<^verbatim>\<open>krhino_sched_disable\<close>) or an interrupt is served, the processor
  stays with the running task: \<open>core_sched\<close> does nothing, and the calls that would block are refused.
  What matters of the state here is \<open>cpu_state\<close>, and nothing but the scheduler writes it.
\<close>

section \<open>What does not touch the processor\<close>

definition cpu_state :: "kernel \<Rightarrow> tid \<times> u8 \<times> u8" where
  "cpu_state k = (g_active_task k, g_sched_lock k, g_intrpt_nested_level k)"

definition no_switch :: "kernel \<Rightarrow> bool" where
  "no_switch k \<longleftrightarrow> snd (cpu_state k) \<noteq> (0, 0)"

lemma no_switch_iff: "no_switch k \<longleftrightarrow> 0 < g_intrpt_nested_level k \<or> 0 < g_sched_lock k"
  by (auto simp: no_switch_def cpu_state_def word_greater_zero_iff)

lemma cpu_core_sched: "snd (cpu_state k) \<noteq> (0, 0) \<Longrightarrow> cpu_state (core_sched k) = cpu_state k"
  by (auto simp: cpu_state_def core_sched_def word_greater_zero_iff)

lemma cpu_state_frames [simp]:
  "cpu_state (fault k) = cpu_state k"
  "cpu_state (upd_task t f k) = cpu_state k" "cpu_state (upd_blk b g k) = cpu_state k"
  "cpu_state (upd_sem s h k) = cpu_state k" "cpu_state (upd_mutex s h' k) = cpu_state k"
  "cpu_state (upd_event s h1 k) = cpu_state k" "cpu_state (upd_queue s h2 k) = cpu_state k"
  "cpu_state (upd_buf_queue s h3 k) = cpu_state k"
  "cpu_state (k_err_proc e k) = cpu_state k" "cpu_state (store32 a v k) = cpu_state k" "cpu_state (store_bytes a bs k) =
      cpu_state k"
  "cpu_state (pend_task_wakeup t k) = cpu_state k" "cpu_state (pend_task_rm t k) = cpu_state k"
  "cpu_state (pend_to_blk_obj b t n k) = cpu_state k"
  "cpu_state (ready_list_rm t k) = cpu_state k" "cpu_state (ready_list_add t k) = cpu_state k"
  "cpu_state (ready_list_add_tail t k) = cpu_state k" "cpu_state (ready_list_add_head t k) = cpu_state k"
  "cpu_state (ready_list_head_to_tail t k) = cpu_state k"
  "cpu_state (tick_list_insert t n k) = cpu_state k" "cpu_state (tick_list_rm t k) = cpu_state k"
  "cpu_state (pend_list_rm t k) = cpu_state k" "cpu_state (pend_list_reorder t k) = cpu_state k"
  "cpu_state (queue_ring_reset q k) = cpu_state k" "cpu_state (bufq_ring_reset q k) = cpu_state k"
  "cpu_state (k\<lparr>g_idle_task_spawned := n8\<rparr>) = cpu_state k" "cpu_state (k\<lparr>g_res_list := rs\<rparr>)
      = cpu_state k"
  by (simp_all add: cpu_state_def pend_list_reorder_def queue_ring_reset_def bufq_ring_reset_def Let_def)

lemma cpu_wake_loop:
  assumes "\<And>t k. cpu_state (w t k) = cpu_state k"
  shows "cpu_state (wake_loop w b n k) = cpu_state k"
proof (induction n arbitrary: k)
  case 0 then show ?case by (subst wake_loop.simps) (simp split: list.split)
next
  case (Suc n) then show ?case using assms by (subst wake_loop.simps) (simp split: list.split)
qed

lemma cpu_wake_all [simp]:
  "cpu_state (wake_all pend_task_wakeup b k) = cpu_state k" "cpu_state (wake_all pend_task_rm b k) = cpu_state k"
  by (simp_all add: wake_all_def cpu_wake_loop)

lemma cpu_look [simp]: "cpu_state (snd (mutex_pri_look t m k)) = cpu_state k"
  by (simp add: mutex_pri_look_def Let_def)

lemma cpu_pri_loop:
  assumes "pri_loop t p k = Some r" shows "cpu_state (snd r) = cpu_state k"
proof (rule pri_loop.raw_induct [OF _ assms, where P = "\<lambda>t p k r. cpu_state (snd r) = cpu_state k"], goal_cases)
  case (1 loop t p k r)
  from 1(2) show ?case by (auto simp: Let_def dest!: 1(1) split: if_splits)
qed

lemma cpu_pri_change [simp]: "cpu_state (snd (task_pri_change t p k)) = cpu_state k"
  by (auto simp: task_pri_change_def cpu_pri_loop split: option.split)

lemma cpu_release [simp]: "cpu_state (mutex_release t m k) = cpu_state k"
  using cpu_look [of t m k] by (cases "mutex_pri_look t m k") (simp add: mutex_release_def)

lemma cpu_reset [simp]: "cpu_state (mutex_task_pri_reset t k) = cpu_state k"
  by (simp add: mutex_task_pri_reset_def Let_def)

lemma cpu_mutex_free [simp]: "cpu_state (task_mutex_free t k) = cpu_state k"
proof -
  have "cpu_state (task_mutex_free_loop ms k) = cpu_state k" for ms
    by (induction ms k rule: task_mutex_free_loop.induct) (simp_all add: Let_def split: list.split)
  then show ?thesis by (simp add: task_mutex_free_def)
qed

lemma cpu_del_switch: "task_del_switch t k = Some k' \<Longrightarrow> cpu_state k' = cpu_state k"
  by (auto simp: task_del_switch_def Let_def split: task_stat.splits)

lemma cpu_event_wake [simp]: "cpu_state (event_wake e f ts k) = cpu_state k"
  by (induction e f ts k rule: event_wake.induct) (simp_all add: Let_def)


lemma cpu_msg_recv [simp]: "cpu_state (task_msg_recv m t k) = cpu_state k"
  by (simp add: task_msg_recv_def)

lemma cpu_msg_all [simp]: "cpu_state (wake_all (task_msg_recv m) b k) = cpu_state k"
  by (simp add: wake_all_def cpu_wake_loop)

lemma cpu_tick [simp]: "cpu_state (tick_expire t k) = cpu_state k" "cpu_state (time_slice_update p k) = cpu_state k"
  by (simp_all add: tick_expire_def time_slice_update_def Let_def split: task_stat.split list.split)

lemma cpu_tick_scan [simp]: "cpu_state (tick_scan ts k) = cpu_state k"
  by (induction ts k rule: tick_scan.induct) (simp_all add: Let_def)

lemma cpu_tick_proc [simp]: "cpu_state (krhino_tick_proc k) = cpu_state k"
proof -
  have "cpu_state (k\<lparr>g_tick_count := a, g_sys_time_tick := b\<rparr>) = cpu_state k" for a b by (simp add: cpu_state_def)
  then show ?thesis by (simp add: krhino_tick_proc_def tick_list_update_def Let_def)
qed

section \<open>Calls\<close>

lemma cpu_sem_calls: "no_switch k \<Longrightarrow> cpu_state (snd (do_sem c k)) = cpu_state k"
  by (cases c) (auto simp: no_switch_def cpu_core_sched krhino_sem_create_def sem_create_def krhino_sem_del_def
      krhino_sem_dyn_create_def
     krhino_sem_dyn_del_def krhino_sem_give_def krhino_sem_give_all_def sem_give_def krhino_sem_take_def
         krhino_sem_count_set_def krhino_sem_count_get_def
    krhino_task_sem_create_def krhino_task_sem_del_def krhino_task_sem_give_def krhino_task_sem_take_def
        krhino_task_sem_count_set_def krhino_task_sem_count_get_def
    Let_def split: list.split prod.split)

lemma cpu_mutex_calls: "no_switch k \<Longrightarrow> cpu_state (snd (do_mutex c k)) = cpu_state k"
  by (cases c) (auto simp: no_switch_def cpu_core_sched krhino_mutex_create_def mutex_create_def krhino_mutex_del_def
      krhino_mutex_dyn_create_def krhino_mutex_dyn_del_def krhino_mutex_lock_def krhino_mutex_unlock_def Let_def split:
      list.split prod.split option.split)

lemma cpu_event_calls: "no_switch k \<Longrightarrow> cpu_state (snd (do_event c k)) = cpu_state k"
  by (cases c) (auto simp: no_switch_def cpu_core_sched krhino_event_create_def event_create_def krhino_event_del_def
      krhino_event_dyn_create_def krhino_event_dyn_del_def krhino_event_get_def krhino_event_set_def event_set_def Let_def
      split: list.split prod.split option.split)

lemma cpu_queue_calls: "no_switch k \<Longrightarrow> cpu_state (snd (do_queue c k)) = cpu_state k"
  by (cases c) (auto simp: no_switch_def cpu_core_sched krhino_queue_create_def queue_create_def krhino_queue_del_def
      krhino_queue_dyn_create_def krhino_queue_dyn_del_def krhino_queue_front_send_def krhino_queue_back_send_def
      krhino_queue_all_send_def msg_send_def krhino_queue_recv_def krhino_queue_flush_def Let_def split: list.split
      prod.split option.split)

lemma cpu_buf_queue_calls: "no_switch k \<Longrightarrow> cpu_state (snd (do_buf_queue c k)) = cpu_state k"
  by (cases c) (auto simp: no_switch_def cpu_core_sched krhino_buf_queue_create_def krhino_fix_buf_queue_create_def
      buf_queue_create_def krhino_buf_queue_del_def krhino_buf_queue_dyn_create_def krhino_buf_queue_dyn_del_def
      krhino_buf_queue_send_def krhino_buf_queue_send_front_def buf_queue_send_def krhino_buf_queue_recv_def recv_out_def
      krhino_buf_queue_flush_def Let_def split: list.split prod.split option.split)

lemma cpu_task_calls: "no_switch k \<Longrightarrow> \<forall>t. c \<noteq> Task_dyn_del t \<Longrightarrow> cpu_state
    (snd (do_task c k)) = cpu_state k"
proof (cases c)
  case (Task_pri_change t p a)
  assume n: "no_switch k"
  define k1 where "k1 = store_bytes a [word_of_nat (prio (tasks k t))] (upd_task t (\<lambda>x. x\<lparr>b_prio := p\<rparr>) k)"
  obtain r k2 where e: "task_pri_change t (mutex_pri_limit t p k) k1 = (r, k2)" by (metis surj_pair)
  then have "cpu_state k2 = cpu_state k" using cpu_pri_change [of t "mutex_pri_limit t p k" k1] by (simp add: k1_def)
  then show ?thesis
    using n e unfolding k1_def by (simp add: Task_pri_change krhino_task_pri_change_def no_switch_def Let_def cpu_core_sched)
qed (auto simp: no_switch_def cpu_core_sched cpu_del_switch krhino_task_create_def task_create_def
    krhino_task_dyn_create_def task_dyn_create_def krhino_task_sleep_def krhino_task_yield_def krhino_task_suspend_def
    task_suspend_def krhino_task_resume_def task_resume_def krhino_task_wait_abort_def krhino_task_del_def
    krhino_task_time_slice_set_def krhino_sched_policy_set_def krhino_sched_policy_get_def krhino_task_info_set_def
    krhino_task_info_get_def Let_def split: list.split prod.split option.split task_stat.split)

lemma cpu_task_dyn_del:
  assumes "no_switch k" and "g_sched_lock k \<noteq> - 1"
  shows "cpu_state (snd (krhino_task_dyn_del t k)) = cpu_state k"
proof -
  define t' where "t' = (if t = NULL then g_active_task k else t)"
  define k1 where "k1 = k\<lparr>g_sched_lock := g_sched_lock k + 1, g_res_list := g_res_list k @ [t']\<rparr>"
  obtain r k2 where g: "krhino_sem_give g_res_sem k1 = (r, k2)" by (cases "krhino_sem_give g_res_sem k1")
  have "g_sched_lock k + 1 \<noteq> 0" using assms(2) by (metis add_eq_0_iff2)
  then have n: "no_switch k1" by (simp add: k1_def no_switch_def cpu_state_def)
  have "cpu_state k2 = cpu_state k1" using cpu_sem_calls [OF n, of "Sem_give g_res_sem"] g by simp
  then have c: "cpu_state (k2\<lparr>g_sched_lock := g_sched_lock k2 - 1\<rparr>) = cpu_state k"
    by (simp add: k1_def cpu_state_def)
  show ?thesis
    using assms(1) g c cpu_del_switch
    by (auto simp: krhino_task_dyn_del_def Let_def no_switch_def cpu_core_sched t'_def k1_def split: option.split)
qed

lemma over_one: "1 < (w :: 'a::len word) \<Longrightarrow> 0 < w - 1"
  by (metis eq_iff_diff_eq_0 less_irrefl word_greater_zero_iff)

lemma stays_sys:
  assumes "no_switch k" and "c = Sched_enable \<Longrightarrow> 1 < g_sched_lock k \<or> 0 < g_intrpt_nested_level k"
    and "c = Intrpt_exit \<Longrightarrow> 1 < g_intrpt_nested_level k"
  shows "g_active_task (snd (do_sys c k)) = g_active_task k"
proof (cases c)
  case Intrpt_exit
  then show ?thesis using assms(3) over_one by (auto simp: krhino_intrpt_exit_def Let_def)
next
  case Sched_enable
  then show ?thesis using assms(2) over_one by (auto simp: krhino_sched_enable_def Let_def)
qed (use cpu_tick_proc [of k] in \<open>simp_all add: cpu_state_def krhino_sched_disable_def krhino_intrpt_enter_def
    dyn_mem_drain_eq\<close>)

lemma stays_task: "no_switch k \<Longrightarrow> ok_task c k \<Longrightarrow> cpu_state (snd (do_task c k)) = cpu_state k"
  using cpu_task_calls [of k c] cpu_task_dyn_del [of k] by (cases c) simp_all

lemma sched_stays:
  assumes "no_switch k" and "ok_call c k"
    and "c = Sys Sched_enable \<Longrightarrow> 1 < g_sched_lock k \<or> 0 < g_intrpt_nested_level k"
    and "c = Sys Intrpt_exit \<Longrightarrow> 1 < g_intrpt_nested_level k"
  shows "g_active_task (snd (do_call c k)) = g_active_task k"
proof (cases c)
  case (Sys x)
  then show ?thesis using stays_sys [OF assms(1), of x] assms(3,4) by simp
qed (use assms(2) cpu_sem_calls [OF assms(1)] cpu_mutex_calls [OF assms(1)] cpu_event_calls [OF assms(1)]
    cpu_queue_calls [OF assms(1)]
    cpu_buf_queue_calls [OF assms(1)] stays_task [OF assms(1)] in \<open>simp_all add: cpu_state_def\<close>)

lemma never_blocks:
  assumes "no_switch k" shows "fst (do_call c k) \<noteq> Blocked"
proof (cases c)
  case (Sem x) then show ?thesis using assms
    by (cases x) (auto simp: no_switch_iff krhino_sem_take_def krhino_task_sem_take_def Let_def)
next
  case (Mutex x) then show ?thesis using assms
    by (cases x) (auto simp: no_switch_iff krhino_mutex_lock_def Let_def)
next
  case (Event x) then show ?thesis using assms
    by (cases x) (auto simp: no_switch_iff krhino_event_get_def Let_def)
next
  case (Queue x) then show ?thesis using assms
    by (cases x) (auto simp: no_switch_iff krhino_queue_recv_def Let_def split: prod.splits)
next
  case (Buf_queue x) then show ?thesis using assms
    by (cases x) (auto simp: no_switch_iff krhino_buf_queue_recv_def Let_def split: prod.splits)
next
  case (Task x) then show ?thesis using assms
    by (cases x) (auto simp: no_switch_iff krhino_task_sleep_def Let_def)
next
  case (Sys x) then show ?thesis by (cases x) simp_all
qed

text \<open>
  C17. While the scheduler is locked or an interrupt is served, no call blocks and no call changes
  the running task, except the one that takes back the last lock or leaves the last interrupt.
\<close>

theorem no_switch_while_locked:
  assumes "0 < g_intrpt_nested_level k \<or> 0 < g_sched_lock k" and "ok_call c k"
    and "c = Sys Sched_enable \<longrightarrow> 1 < g_sched_lock k \<or> 0 < g_intrpt_nested_level k"
    and "c = Sys Intrpt_exit \<longrightarrow> 1 < g_intrpt_nested_level k"
  shows "fst (do_call c k) \<noteq> Blocked \<and> g_active_task (snd (do_call c k)) = g_active_task k"
  using assms sched_stays never_blocks by (simp add: no_switch_iff)

text \<open>With the scheduler locked, a task of better priority is created and does not run.\<close>

definition locked :: kernel where
  "locked = snd (do_call (Sys Sched_disable) started)"

theorem no_switch_while_locked_witness:
  "fst (do_call (Task (Task_create 10 1 30 0 1 64 1 1)) locked) \<noteq> Blocked \<and>
   g_active_task (snd (do_call (Task (Task_create 10 1 30 0 1 64 1 1)) locked)) = g_active_task locked"
proof -
  have "0 < g_sched_lock locked" "ok_call (Task (Task_create 10 1 30 0 1 64 1 1)) locked" by code_simp+
  then show ?thesis by (intro no_switch_while_locked) simp_all
qed

end
