(* ===== verification/Rhino_Lifecycle.thy ===== *)
theory Rhino_Lifecycle
  imports Rhino_Locks
begin

text \<open>
  Tasks and objects over their life: what deletion releases, what the calls answer afterwards,
  suspension and resumption, nested locks, and the time slices of tasks of equal priority.
\<close>

section \<open>Deletion of a task\<close>

lemma not_idle_pri:
  assumes "kinv k" and "prio (tasks k t) \<noteq> RHINO_IDLE_PRI" shows "t \<noteq> g_idle_task"
  using idle_prio [OF assms(1)] assms(2) by auto

text \<open>
  C18. Deletion of a task with static memory succeeds and removes every trace of the task: it is no longer alive,
  every other task lives on, it is on no ready list, no wait list and not on the tick list, it owns no
  mutex, and it does not run.
\<close>

theorem task_del_releases:
  assumes "reachable k" and "g_intrpt_nested_level k = 0" and "live_task t k"
    and "prio (tasks k t) \<noteq> RHINO_IDLE_PRI" and "task_mm_alloc_flag (tasks k t) = K_OBJ_STATIC_ALLOC"
    and "t = g_active_task k \<longrightarrow> g_sched_lock k = 0"
  shows "fst (krhino_task_del t k) = RHINO_SUCCESS \<and>
    (\<forall>u. live_task u (snd (krhino_task_del t k)) \<longleftrightarrow> live_task u k \<and> u \<noteq> t) \<and>
    (\<forall>p. t \<notin> set (cur_list_item (snd (krhino_task_del t k)) p)) \<and>
    (\<forall>b. t \<notin> set (blk_list (blk_objs (snd (krhino_task_del t k)) b))) \<and>
    t \<notin> set (g_tick_head (snd (krhino_task_del t k))) \<and>
    (\<forall>m. obj_type (blk_objs (snd (krhino_task_del t k)) m) = RHINO_MUTEX_OBJ_TYPE \<longrightarrow>
       mutex_task (mutexes (snd (krhino_task_del t k)) m) \<noteq> t) \<and>
    g_active_task (snd (krhino_task_del t k)) \<noteq> t"
proof -
  note inv = reachable_kinv [OF assms(1)]
  have t: "t \<in> live k" using assms(3) by simp
  then have n: "t \<noteq> NULL" by (rule core_okD(11) [OF kinvD(5) [OF inv]])
  obtain k' where k': "task_del_switch t (task_mutex_free t k) = Some k'" "kinv (core_sched k')" "live k' = live k - {t}"
    using task_del_core [OF kinv_kpre [OF inv] t not_idle_pri [OF inv assms(4)] assms(2,6)] by auto
  define r where "r = core_sched k'"
  have e: "krhino_task_del t k = (RHINO_SUCCESS, r)"
    using assms(2,4-6) n k'(1) by (simp add: krhino_task_del_def r_def)
  have l: "live r = live k - {t}" using k'(3) by (simp add: r_def)
  then have dead: "t \<notin> live r" by simp
  have ir: "kinv r" using k'(2) by (simp add: r_def)
  note c = core_okD [OF kinvD(5) [OF ir]]
  have "t \<notin> set (cur_list_item r p)" for p using rq_okD(2) [OF c(1), of p] dead rdy_live by auto
  moreover have "t \<notin> set (blk_list (blk_objs r b))" for b using bl_okD(2) [OF c(2), of b] dead pend_on_live by auto
  moreover have "t \<notin> set (g_tick_head r)"
    using winvD(3) [OF kinvD(1) [OF ir]] dead by (auto simp: tick_ok_def tq_ok_def live_def pended_def sleeping_def)
  moreover have "mutex_task (mutexes r m) \<noteq> t" if "obj_type (blk_objs r m) = RHINO_MUTEX_OBJ_TYPE" for m
    using own_okD(5) [OF c(3) that] dead n by auto
  moreover have "g_active_task r \<noteq> t" using kinvD(4) [OF ir] dead by (auto simp: sched_ok_def)
  ultimately show ?thesis using l by (simp add: e)
qed


text \<open>A task that has locked a mutex.\<close>

definition owns :: kernel where
  "owns = snd (do_call (Mutex (Mutex_lock 20 RHINO_WAIT_FOREVER)) (snd (do_call (Task (Task_create 10 1 30 0 1 64 1 1)) has_mutex)))"

lemma owns_reachable: "reachable owns"
proof -
  have "ok_call (Task (Task_create 10 1 30 0 1 64 1 1)) has_mutex"
    "ok_call (Mutex (Mutex_lock 20 RHINO_WAIT_FOREVER)) (snd (do_call (Task (Task_create 10 1 30 0 1 64 1 1)) has_mutex))"
    by code_simp+
  then show ?thesis unfolding owns_def by (intro reachable.call has_mutex_reachable)
qed

lemma owns_facts: 
  "g_intrpt_nested_level owns = 0 \<and> g_sched_lock owns = 0 \<and> g_active_task owns = 10 \<and> task_state (tasks owns 10) = K_RDY \<and>
   prio (tasks owns 10) = 30 \<and> task_mm_alloc_flag (tasks owns 10) = K_OBJ_STATIC_ALLOC \<and>
   mutex_list (tasks owns 10) = [20] \<and> mutex_task (mutexes owns 20) = 10 \<and> blk_list (blk_objs owns 20) = [] \<and>
   obj_type (blk_objs owns 20) = RHINO_MUTEX_OBJ_TYPE"
  by code_simp

theorem task_del_releases_witness:
  "fst (krhino_task_del 10 owns) = RHINO_SUCCESS \<and> \<not> live_task 10 (snd (krhino_task_del 10 owns)) \<and>
   g_active_task (snd (krhino_task_del 10 owns)) \<noteq> 10"
  using task_del_releases [OF owns_reachable, of 10] owns_facts
  by (simp add: konst live_task_def del: live_task_iff)


section \<open>Deletion of an object\<close>

lemma wake_all_tasks:
  assumes "winv k" and "obj_type (blk_objs k b) \<noteq> RHINO_MUTEX_OBJ_TYPE"
  shows "tasks (wake_all pend_task_rm b k) t = (if t \<in> pend_on k b then woken BLK_DEL (tasks k t) else tasks k t)"
proof -
  have "tasks (wake_loop pend_task_rm b n k) t = (if t \<in> pend_on k b then woken BLK_DEL (tasks k t) else tasks k t)"
    if "n = length (blk_list (blk_objs k b))" for n
    using assms that
  proof (induction n arbitrary: k)
    case 0
    then have "pend_on k b = {}" using rm.blk_list_waiters [of k b] by simp
    with 0 show ?case by (simp add: wake_loop.simps)
  next
    case (Suc n)
    then obtain u us where us: "blk_list (blk_objs k b) = u # us" by (metis length_Suc_conv)
    note w = rm.wake_first_ok [OF Suc.prems(1,2) us]
    have u: "u \<in> pend_on k b" using rm.blk_list_waiters [OF Suc.prems(1), of b] us by auto
    note r = removed_waiting [OF Suc.prems(1) u]
    have "n = length (blk_list (blk_objs (pend_task_rm u k) b))" using Suc.prems(3) us by (simp add: r(2))
    from Suc.IH [OF w(1) _ this] show ?case
      using Suc.prems(2) us u by (simp add: wake_loop.simps [of _ _ "Suc n"] quietD(11) [OF w(3)] r(1) w(2))
  qed
  then show ?thesis by (simp add: wake_all_def)
qed

text \<open>
  C19. Deletion of a semaphore wakes everybody who waits for it, a suspended task up to its suspension,
  with the status \<^verbatim>\<open>RHINO_BLK_DEL\<close>, and leaves every other task alone; afterwards the calls on
  the semaphore answer \<^verbatim>\<open>RHINO_KOBJ_TYPE_ERR\<close> and change nothing.
\<close>

theorem sem_del_wakes:
  assumes "reachable k" and "g_intrpt_nested_level k = 0" and "obj_type (blk_objs k s) = RHINO_SEM_OBJ_TYPE"
    and "s \<noteq> NULL" and "sem_mm_alloc_flag (sems k s) = K_OBJ_STATIC_ALLOC"
  shows "fst (krhino_sem_del s k) = RHINO_SUCCESS \<and>
    (\<forall>t \<in> set (blk_list (blk_objs k s)). 
      task_state (tasks (snd (krhino_sem_del s k)) t) = (if task_state (tasks k t) = K_PEND then K_RDY else K_SUSPENDED) \<and>
      fst (pend_state_end_proc t (snd (krhino_sem_del s k))) = RHINO_BLK_DEL) \<and>
    (\<forall>t. t \<notin> set (blk_list (blk_objs k s)) \<longrightarrow> tasks (snd (krhino_sem_del s k)) t = tasks k t) \<and>
    blk_list (blk_objs (snd (krhino_sem_del s k)) s) = [] \<and>
    krhino_sem_give s (snd (krhino_sem_del s k)) = (RHINO_KOBJ_TYPE_ERR, snd (krhino_sem_del s k)) \<and>
    krhino_sem_take s ticks (snd (krhino_sem_del s k)) = (Ret RHINO_KOBJ_TYPE_ERR, snd (krhino_sem_del s k)) \<and>
    krhino_sem_del s (snd (krhino_sem_del s k)) = (RHINO_KOBJ_TYPE_ERR, snd (krhino_sem_del s k))"
proof -
  note inv = reachable_kinv [OF assms(1)]
  have ty: "obj_type (blk_objs k s) \<noteq> RHINO_MUTEX_OBJ_TYPE" using assms(3) by simp
  let ?k = "upd_blk s (\<lambda>x. x\<lparr>obj_type := RHINO_OBJ_TYPE_NONE\<rparr>) k"
  note d = del_waiters_ok [OF inv assms(4) ty]
  have w: "winv ?k" "pend_on ?k = pend_on k" using winv_upd_blk [OF kinvD(1) [OF inv] assms(4) ty] by simp_all
  have tk: "tasks (del_waiters s k) t = (if t \<in> pend_on k s then woken BLK_DEL (tasks k t) else tasks k t)" for t
    using wake_all_tasks [OF w(1), of s t] w(2) by (simp add: del_waiters_def)
  have wt: "set (blk_list (blk_objs k s)) = pend_on k s" by (rule rm.blk_list_waiters [OF kinvD(1) [OF inv]])
  have e: "krhino_sem_del s k = (RHINO_SUCCESS, core_sched (del_waiters s k))"
    using assms(2-5) by (simp add: krhino_sem_del_def del_waiters_def)
  have l: "blk_list (blk_objs (del_waiters s k) s) = []" using rm.blk_list_waiters [OF d(1), of s] d(4) by simp
  have n: "g_intrpt_nested_level (del_waiters s k) = 0" "obj_type (blk_objs (del_waiters s k) s) = RHINO_OBJ_TYPE_NONE"
    using quietD(4,11) [OF d(5)] assms(2) by simp_all
  define k' where "k' = core_sched (del_waiters s k)"
  have t: "tasks k' t = (if t \<in> set (blk_list (blk_objs k s)) then woken BLK_DEL (tasks k t) else tasks k t)" for t
    by (simp add: k'_def tk wt)
  have r: "blk_list (blk_objs k' s) = []" "g_intrpt_nested_level k' = 0" "obj_type (blk_objs k' s) = RHINO_OBJ_TYPE_NONE"
    by (simp_all add: k'_def l n)
  have "krhino_sem_give s k' = (RHINO_KOBJ_TYPE_ERR, k')" "krhino_sem_take s ticks k' = (Ret RHINO_KOBJ_TYPE_ERR, k')"
    "krhino_sem_del s k' = (RHINO_KOBJ_TYPE_ERR, k')"
    using r assms(4) by (simp_all add: krhino_sem_give_def sem_give_def krhino_sem_take_def krhino_sem_del_def)
  then show ?thesis using r t by (simp add: e pend_state_end_proc_def flip: k'_def)
qed


text \<open>The first task of the system waits for the semaphore it serves.\<close>

definition awaits_sem :: kernel where
  "awaits_sem = snd (do_call (Sem (Sem_take 1 RHINO_WAIT_FOREVER)) started)"

lemma awaits_sem_reachable: "reachable awaits_sem"
proof -
  have "ok_call (Sem (Sem_take 1 RHINO_WAIT_FOREVER)) started" by code_simp
  then show ?thesis unfolding awaits_sem_def by (intro reachable.call started_reachable)
qed

theorem sem_del_wakes_witness:
  "task_state (tasks awaits_sem 2) = K_PEND \<and> task_state (tasks (snd (krhino_sem_del 1 awaits_sem)) 2) = K_RDY \<and>
   fst (pend_state_end_proc 2 (snd (krhino_sem_del 1 awaits_sem))) = RHINO_BLK_DEL \<and>
   krhino_sem_give 1 (snd (krhino_sem_del 1 awaits_sem)) = (RHINO_KOBJ_TYPE_ERR, snd (krhino_sem_del 1 awaits_sem))"
proof -
  have f: "g_intrpt_nested_level awaits_sem = 0" "obj_type (blk_objs awaits_sem 1) = RHINO_SEM_OBJ_TYPE"
    "sem_mm_alloc_flag (sems awaits_sem 1) = K_OBJ_STATIC_ALLOC" "blk_list (blk_objs awaits_sem 1) = [2]"
    "task_state (tasks awaits_sem 2) = K_PEND" by code_simp+
  show ?thesis using sem_del_wakes [OF awaits_sem_reachable f(1,2) _ f(3)] f(4,5) by simp
qed

section \<open>Suspension\<close>

lemma core_sched_same:
  assumes "kinv k" and "cur_list_item k' = cur_list_item k" and "highest_pri k' = highest_pri k"
    and "g_active_task k' = g_active_task k" and "g_sched_lock k' = g_sched_lock k"
    and "g_intrpt_nested_level k' = g_intrpt_nested_level k"
  shows "g_active_task (core_sched k') = g_active_task k" and "g_fault (core_sched k') = g_fault k'"
proof -
  have ne: "cur_list_item k (highest_pri k) \<noteq> []"
    using rq_okD(6) [OF core_okD(1)] core_okD(6) kinvD(5) [OF assms(1)] by blast
  have "g_intrpt_nested_level k = 0 \<and> g_sched_lock k = 0 \<longrightarrow> g_active_task k = hd (cur_list_item k (highest_pri k))"
    using kinvD(4) [OF assms(1)] by (simp add: sched_ok_def top_task_def)
  moreover obtain u us where "cur_list_item k (highest_pri k) = u # us" using ne by (cases "cur_list_item k (highest_pri k)") auto
  ultimately show "g_active_task (core_sched k') = g_active_task k" "g_fault (core_sched k') = g_fault k'"
    using assms(2-) by (simp_all add: core_sched_def preferred_cpu_ready_task_get_def word_greater_zero_iff)
qed

text \<open>
  C22. A task that waits or sleeps can be suspended and resumed: both calls succeed, in between it waits
  as a suspended task, and afterwards everything is as before but for its count of suspensions, 0.
\<close>

theorem suspend_resume:
  assumes "reachable k" and "task_state (tasks k t) \<in> {K_PEND, K_SLEEP}" and "prio (tasks k t) \<noteq> RHINO_IDLE_PRI"
    and "t = g_active_task k \<longrightarrow> g_sched_lock k = 0"
  defines "k1 \<equiv> snd (krhino_task_suspend t k)" 
  defines "k2 \<equiv> snd (krhino_task_resume t k1)"
  shows "fst (krhino_task_suspend t k) = RHINO_SUCCESS \<and>
    task_state (tasks k1 t) = (if task_state (tasks k t) = K_PEND then K_PEND_SUSPENDED else K_SLEEP_SUSPENDED) \<and>
    fst (krhino_task_resume t k1) = RHINO_SUCCESS \<and>
    tasks k2 = (tasks k)(t := (tasks k t)\<lparr>suspend_count := 0\<rparr>) \<and>
    blk_objs k2 = blk_objs k \<and> g_tick_head k2 = g_tick_head k \<and> cur_list_item k2 = cur_list_item k \<and>
    g_active_task k2 = g_active_task k"
proof -
  note inv = reachable_kinv [OF assms(1)]
  have n: "t \<noteq> NULL" using core_okD(11) [OF kinvD(5) [OF inv], of t] assms(2) by (auto simp: live_def)
  define s where "s = (if task_state (tasks k t) = K_PEND then K_PEND_SUSPENDED else K_SLEEP_SUSPENDED)"
  define k0 where "k0 = upd_task t (\<lambda>x. x\<lparr>suspend_count := 1, task_state := s\<rparr>) k"
  have k1: "krhino_task_suspend t k = (RHINO_SUCCESS, core_sched k0)"
    using assms(2-4) n by (auto simp: krhino_task_suspend_def task_suspend_def k0_def s_def)
  have a1: "g_active_task (core_sched k0) = g_active_task k"
    by (rule core_sched_same [OF inv]) (simp_all add: k0_def)
  define k3 where "k3 = upd_task t (\<lambda>x. x\<lparr>task_state := task_state (tasks k t)\<rparr>)
    (upd_task t (\<lambda>x. x\<lparr>suspend_count := suspend_count x - 1\<rparr>) k1)"
  have ts: "tasks k1 = (tasks k)(t := (tasks k t)\<lparr>suspend_count := 1, task_state := s\<rparr>)"
    by (simp add: k1_def k1 k0_def)
  have k2: "krhino_task_resume t k1 = (RHINO_SUCCESS, core_sched k3)"
    using n assms(2) by (auto simp: krhino_task_resume_def task_resume_def ts s_def k3_def Let_def)
  have a2: "g_active_task (core_sched k3) = g_active_task k"
    by (rule core_sched_same [OF inv]) (simp_all add: k3_def k1_def k1 a1, simp_all add: k0_def)
  have "tasks k3 = (tasks k)(t := (tasks k t)\<lparr>suspend_count := 0\<rparr>)"
    by (simp add: k3_def ts)
  moreover have "blk_objs k3 = blk_objs k" "g_tick_head k3 = g_tick_head k" "cur_list_item k3 = cur_list_item k"
    by (simp_all add: k3_def k1_def k1) (simp_all add: k0_def)
  ultimately show ?thesis using a2 by (simp add: k2_def k2 ts s_def) (simp add: k1)
qed

theorem suspend_resume_witness:
  "fst (krhino_task_suspend 10 contended) = RHINO_SUCCESS \<and>
   task_state (tasks (snd (krhino_task_suspend 10 contended)) 10) = K_PEND_SUSPENDED \<and>
   task_state (tasks (snd (krhino_task_resume 10 (snd (krhino_task_suspend 10 contended)))) 10) = K_PEND"
  using suspend_resume [OF contended_reachable, of 10] by (simp add: contended_facts konst)

section \<open>Nested locks\<close>

lemma mutex_lock_again:
  assumes "g_sys_stat k = RHINO_RUNNING" and "g_intrpt_nested_level k = 0"  and "m \<noteq> NULL"
    and "obj_type (blk_objs k m) = RHINO_MUTEX_OBJ_TYPE" and "mutex_task (mutexes k m) = g_active_task k"
    and "owner_nested (mutexes k m) \<noteq> 0" and "owner_nested (mutexes k m) \<noteq> - 1"
  shows "krhino_mutex_lock m ticks k =
      (Ret RHINO_MUTEX_OWNER_NESTED, upd_mutex m (\<lambda>x. x\<lparr>owner_nested := owner_nested x + 1\<rparr>) k)"
    and "krhino_mutex_unlock m (snd (krhino_mutex_lock m ticks k)) = (RHINO_MUTEX_OWNER_NESTED, k)"
  using assms by (simp_all add: krhino_mutex_lock_def krhino_mutex_unlock_def Let_def word_greater_zero_iff upd_mutex_def)

text \<open>
  C21. The owner of a mutex can lock it \<open>n\<close> more times, up to the limit of the counter, and then unlock it
  \<open>n\<close> times: the kernel is as it was, the mutex is still owned.
\<close>

theorem mutex_nesting:
  assumes "g_sys_stat k = RHINO_RUNNING" and "g_intrpt_nested_level k = 0" and "m \<noteq> NULL"
    and "obj_type (blk_objs k m) = RHINO_MUTEX_OBJ_TYPE" and "mutex_task (mutexes k m) = g_active_task k"
    and "owner_nested (mutexes k m) \<noteq> 0" and "unat (owner_nested (mutexes k m)) + n < 2 ^ 32"
  shows "((\<lambda>k. snd (krhino_mutex_unlock m k)) ^^ n) (((\<lambda>k. snd (krhino_mutex_lock m ticks k)) ^^ n) k) = k"
proof -
  let ?lock = "\<lambda>k. snd (krhino_mutex_lock m ticks k)" and ?unlock = "\<lambda>k. snd (krhino_mutex_unlock m k)"
  let ?c = "owner_nested (mutexes k m)"
  have room: "?c + of_nat i \<noteq> 0 \<and> (i < n \<longrightarrow> ?c + of_nat i \<noteq> - 1)" if "i \<le> n" for i
  proof -
    have b: "unat ?c + i < 2 ^ 32" "i < n \<Longrightarrow> unat ?c + i < 2 ^ 32 - 1" "0 < unat ?c"
      using that assms(6,7) by (auto simp: unat_gt_0)
    then have u: "unat (?c + of_nat i) = unat ?c + i" by (simp add: unat_word_ariths unat_of_nat)
    have "unat (- 1 :: u32) = 2 ^ 32 - 1" by (simp add: unsigned_minus_1_eq_mask mask_eq_exp_minus_1)
    then show ?thesis using u b by (metis add_gr_0 less_irrefl unat_0)
  qed
  have lock: "(?lock ^^ i) k = upd_mutex m (\<lambda>x. x\<lparr>owner_nested := owner_nested x + of_nat i\<rparr>) k" if "i \<le> n" for i
    using that
  proof (induction i)
    case 0 then show ?case using assms(3) by (simp add: upd_mutex_def)
  next
    case (Suc i)
    define k' where "k' = (?lock ^^ i) k"
    have k': "k' = upd_mutex m (\<lambda>x. x\<lparr>owner_nested := owner_nested x + of_nat i\<rparr>) k"
      unfolding k'_def using Suc by simp
    have "?lock k' = upd_mutex m (\<lambda>x. x\<lparr>owner_nested := owner_nested x + 1\<rparr>) k'"
      by (subst mutex_lock_again(1)) (use assms(1-6) room [of i] Suc.prems in \<open>simp_all add: k'\<close>)
    then show ?case by (simp flip: k'_def) (simp add: k' upd_mutex_def add.assoc add.commute)
  qed
  have "(?unlock ^^ i) ((?lock ^^ i) k) = k" if "i \<le> n" for i
    using that
  proof (induction i)
    case (Suc i)
    have "?unlock (?lock ((?lock ^^ i) k)) = (?lock ^^ i) k"
      by (subst mutex_lock_again(2)) (use assms(1-6) room [of i] lock [of i] Suc.prems in simp_all)
    then show ?case using Suc by (simp add: funpow_swap1 [of ?unlock])
  qed simp
  then show ?thesis by simp
qed

theorem mutex_nesting_witness:
  "((\<lambda>k. snd (krhino_mutex_unlock 20 k)) ^^ 1000) (((\<lambda>k. snd (krhino_mutex_lock 20 0 k)) ^^ 1000) owns) = owns"
proof -
  have "g_sys_stat owns = RHINO_RUNNING" "owner_nested (mutexes owns 20) = 1" by code_simp+
  then show ?thesis using owns_facts by (intro mutex_nesting) simp_all
qed

section \<open>Time slices\<close>

lemma slice_step:
  assumes "cur_list_item k p = a # r" and "r \<noteq> []" and "sched_policy (tasks k a) \<noteq> KSCHED_FIFO" and "a \<noteq> NULL"
    and "prio (tasks k a) = p"
  shows "1 < task_time_slice (tasks k a) \<Longrightarrow>
      time_slice_update p k = upd_task a (\<lambda>x. x\<lparr>task_time_slice := task_time_slice x - 1\<rparr>) k"
    and "task_time_slice (tasks k a) \<le> 1 \<Longrightarrow> cur_list_item (time_slice_update p k) = (cur_list_item k)(p := r @ [a])"
    and "task_time_slice (tasks k a) \<le> 1 \<Longrightarrow> task_time_slice (tasks (time_slice_update p k) a) = time_total (tasks k a)"
proof -
  let ?s = "task_time_slice (tasks k a)"
  show "time_slice_update p k = upd_task a (\<lambda>x. x\<lparr>task_time_slice := task_time_slice x - 1\<rparr>) k" if "1 < ?s"
  proof -
    have "0 < ?s - 1" "0 < ?s" using that by unat_arith+
    then show ?thesis using assms by (simp add: time_slice_update_def Let_def)
  qed
  have z: "?s = 0 \<or> ?s = 1" if "?s \<le> 1" using that by unat_arith
  show "cur_list_item (time_slice_update p k) = (cur_list_item k)(p := r @ [a])" if "?s \<le> 1"
    using assms z [OF that] by (auto simp: time_slice_update_def ready_list_head_to_tail_def Let_def)
  show "task_time_slice (tasks (time_slice_update p k) a) = time_total (tasks k a)" if "?s \<le> 1"
    using assms z [OF that] by (auto simp: time_slice_update_def Let_def)
qed

lemma slice_run:
  assumes "cur_list_item k p = a # r" and "r \<noteq> []" and "sched_policy (tasks k a) \<noteq> KSCHED_FIFO" and "a \<noteq> NULL"
    and "prio (tasks k a) = p" and "n < max 1 (unat (task_time_slice (tasks k a)))"
  shows "(time_slice_update p ^^ n) k = upd_task a (\<lambda>x. x\<lparr>task_time_slice := task_time_slice x - of_nat n\<rparr>) k"
  using assms(6)
proof (induction n)
  case 0
  show ?case using assms(4) by (simp add: upd_task_def)
next
  case (Suc n)
  let ?s = "task_time_slice (tasks k a)"
  define k' where "k' = (time_slice_update p ^^ n) k"
  have n: "Suc n < unat ?s" "n < unat ?s" using Suc.prems by (simp_all add: max_def split: if_splits)
  have k': "k' = upd_task a (\<lambda>x. x\<lparr>task_time_slice := task_time_slice x - of_nat n\<rparr>) k"
    unfolding k'_def by (rule Suc.IH) (use Suc.prems in simp)
  have "unat (of_nat n :: u32) = n" using n(2) unsigned_less [of ?s, where ?'a = nat] by (simp add: unat_of_nat)
  then have "1 < ?s - of_nat n" using n by (simp add: word_less_nat_alt unat_sub_if')
  then have "time_slice_update p k' = upd_task a (\<lambda>x. x\<lparr>task_time_slice := task_time_slice x - 1\<rparr>) k'"
    by (intro slice_step) (use assms(1-5) in \<open>simp_all add: k'\<close>)
  then show ?case using assms(4) by (simp add: k' flip: k'_def) (simp add: upd_task_def diff_diff_eq add.commute)
qed

text \<open>
  C23. Round robin: the first of several ready tasks of one priority stays first while its time slice
  lasts; the tick that uses it up moves the task to the end of the list, with a new time slice.
\<close>

theorem round_robin:
  assumes "reachable k" and "cur_list_item k p = a # r" and "r \<noteq> []" and "sched_policy (tasks k a) \<noteq> KSCHED_FIFO"
  defines "n \<equiv> max 1 (unat (task_time_slice (tasks k a)))"
  shows "(\<forall>i < n. cur_list_item ((time_slice_update p ^^ i) k) = cur_list_item k) \<and>
    cur_list_item ((time_slice_update p ^^ n) k) = (cur_list_item k)(p := r @ [a]) \<and>
    task_time_slice (tasks ((time_slice_update p ^^ n) k) a) = time_total (tasks k a)"
proof -
  note c = core_okD [OF kinvD(5) [OF reachable_kinv [OF assms(1)]]]
  have "a \<in> rdy k" "prio (tasks k a) = p" using rq_okD(2) [OF c(1), of p] assms(2) by auto
  then have a: "prio (tasks k a) = p" "a \<noteq> NULL" using c(11) rdy_live by auto
  note run = slice_run [OF assms(2-4) a(2,1), folded n_def]
  obtain m where m: "n = Suc m" using n_def by (metis Suc_pred max.strict_coboundedI1 zero_less_one One_nat_def)
  define k' where "k' = (time_slice_update p ^^ m) k"
  have k': "k' = upd_task a (\<lambda>x. x\<lparr>task_time_slice := task_time_slice x - of_nat m\<rparr>) k"
    unfolding k'_def by (rule run) (simp add: m)
  have "task_time_slice (tasks k' a) \<le> 1"
  proof (cases "task_time_slice (tasks k a) = 0")
    case True then have "m = 0" using m by (simp add: n_def)
    then show ?thesis using a True by (simp add: k')
  next
    case False
    then have "unat (task_time_slice (tasks k a)) \<noteq> 0" by (simp add: unat_eq_zero)
    then have "unat (task_time_slice (tasks k a)) = Suc m" using m by (simp add: n_def)
    then have "task_time_slice (tasks k a) = of_nat (Suc m)" by (metis of_nat_unat ucast_id)
    then show ?thesis using a by (simp add: k')
  qed
  note st = slice_step(2,3) [OF _ assms(3) _ a(2) _ this, of p]
  show ?thesis using run assms(2,4) a st by (simp add: m k' flip: k'_def)
qed


text \<open>Two tasks of one priority.\<close>

definition two_ready :: kernel where
  "two_ready = snd (do_call (Task (Task_create 10 1 60 0 1 64 1 1)) started)"

theorem round_robin_witness:
  "cur_list_item two_ready 60 = [2, 10] \<and>
   cur_list_item ((time_slice_update 60 ^^ max 1 (unat (task_time_slice (tasks two_ready 2)))) two_ready) 60 = [10, 2]"
proof -
  have "ok_call (Task (Task_create 10 1 60 0 1 64 1 1)) started" by code_simp
  then have r: "reachable two_ready" unfolding two_ready_def by (intro reachable.call started_reachable)
  have f: "cur_list_item two_ready 60 = [2, 10]" "sched_policy (tasks two_ready 2) \<noteq> KSCHED_FIFO" by code_simp+
  show ?thesis using round_robin [OF r f(1) _ f(2)] f(1) by simp
qed

end
