(* ===== verification/Rhino_Refine.thy ===== *)
theory Rhino_Refine
  imports Rhino_Prelude
begin

text \<open>
  Refinement of a component that answers a sequence of operations: if every allowed operation gives the
  answer of the specification and keeps the relation between the states, so do all sequences.
\<close>

primrec run_ops :: "('o \<Rightarrow> 's \<Rightarrow> 'r \<times> 's) \<Rightarrow> 'o list \<Rightarrow> 's \<Rightarrow> 'r list \<times> 's" where
  "run_ops f [] s = ([], s)"
| "run_ops f (op # ops) s =
     (let (r, s) = f op s; (rs, s) = run_ops f ops s in (r # rs, s))"

primrec allowed :: "('o \<Rightarrow> 's \<Rightarrow> 'r \<times> 's) \<Rightarrow> ('o \<Rightarrow> 's \<Rightarrow> bool) \<Rightarrow> 'o list \<Rightarrow> 's \<Rightarrow> bool" where
  "allowed f ok [] s = True"
| "allowed f ok (op # ops) s \<longleftrightarrow> ok op s \<and> allowed f ok ops (snd (f op s))"

lemma run_ops_sel:
  "fst (run_ops f (op # ops) s) = fst (f op s) # fst (run_ops f ops (snd (f op s)))"
  "snd (run_ops f (op # ops) s) = snd (run_ops f ops (snd (f op s)))"
  by (simp_all add: Let_def split: prod.split)

locale simulates =
  fixes conc :: "'o \<Rightarrow> 'c \<Rightarrow> 'r \<times> 'c"
    and spec :: "'o \<Rightarrow> 's \<Rightarrow> 'r \<times> 's"
    and ok :: "'o \<Rightarrow> 's \<Rightarrow> bool"
    and rel :: "'s \<Rightarrow> 'c \<Rightarrow> bool"
  assumes answers: "rel s c \<Longrightarrow> ok op s \<Longrightarrow> fst (conc op c) = fst (spec op s)"
    and keeps_rel: "rel s c \<Longrightarrow> ok op s \<Longrightarrow> rel (snd (spec op s)) (snd (conc op c))"
begin

lemma run_simulates:
  assumes "rel s c" and "allowed spec ok ops s"
  shows "fst (run_ops conc ops c) = fst (run_ops spec ops s) \<and> rel (snd (run_ops spec ops s)) (snd (run_ops conc ops c))"
  using assms
proof (induction ops arbitrary: s c)
  case (Cons op ops)
  then have "ok op s" "allowed spec ok ops (snd (spec op s))" by simp_all
  with Cons.IH [OF keeps_rel [OF Cons.prems(1)]] answers [OF Cons.prems(1)] show ?case
    by (simp add: run_ops_sel del: run_ops.simps)
qed simp

end

end
