(* ===== verification/Rhino_MmBlk.thy ===== *)
theory Rhino_MmBlk
  imports Rhino_State Rhino_Refine
begin

text \<open>
  Pools of memory blocks of one size (\<^verbatim>\<open>k_mm_blk.c\<close>). The free blocks are chained through their first four
  bytes, in the memory the callers use as well. The specification is a list of free and a set
  of used blocks.
\<close>

section \<open>Operations\<close>

record mblk_pool =
  pool_obj_type :: kobj_type
  pool_blk_size :: u32
  blk_avail :: u32
  blk_whole :: u32
  avail_list :: u32

text \<open>The loop that chains the blocks; it does not return when the size of a block is 0.\<close>

partial_function (option) mblk_link :: "u32 \<Rightarrow> u32 \<Rightarrow> u32 \<Rightarrow> u32 \<Rightarrow> kernel \<Rightarrow> (u32 \<times> kernel) option" where
  "mblk_link bsize pool_end blks blk_cur k =
     (let blk_next = blk_cur + bsize
      in if blk_next < pool_end
         then mblk_link bsize pool_end (blks + 1) blk_next (store32 blk_cur blk_next k)
         else Some (if blk_next = pool_end then blks + 1 else blks, store32 blk_cur 0 k))"

definition krhino_mblk_pool_init ::
  "oid \<Rightarrow> addr \<Rightarrow> u32 \<Rightarrow> u32 \<Rightarrow> u32 \<Rightarrow> (oid \<Rightarrow> mblk_pool) \<Rightarrow> kernel \<Rightarrow> (kstat \<times> (oid \<Rightarrow> mblk_pool) \<times> kernel) option" where
  "krhino_mblk_pool_init pool name pool_start bsize pool_size ps k =
     (if pool = NULL then Some (RHINO_NULL_PTR, ps, k)
      else if name = NULL then Some (RHINO_NULL_PTR, ps, k)
      else if pool_start = 0 then Some (RHINO_NULL_PTR, ps, k)
      else if pool_size < push_bit 1 bsize then Some (RHINO_BLK_POOL_SIZE_ERR, ps, k)
      else if pool_start AND 3 > 0 then Some (RHINO_INV_ALIGN, ps, k)
      else if bsize AND 3 > 0 then Some (RHINO_INV_ALIGN, ps, k)
      else if pool_size AND 3 > 0 then Some (RHINO_INV_ALIGN, ps, k)
      else
        case mblk_link bsize (pool_start + pool_size) 0 pool_start k of
          None \<Rightarrow> None
        | Some (blks, k) \<Rightarrow>
            Some (RHINO_SUCCESS,
              ps(pool := \<lparr>pool_obj_type = RHINO_MM_BLK_OBJ_TYPE, pool_blk_size = bsize,
                blk_avail = blks, blk_whole = blks, avail_list = pool_start\<rparr>), k))"

definition krhino_mblk_alloc ::
  "oid \<Rightarrow> u32 \<Rightarrow> (oid \<Rightarrow> mblk_pool) \<Rightarrow> kernel \<Rightarrow> kstat \<times> (oid \<Rightarrow> mblk_pool) \<times> kernel" where
  "krhino_mblk_alloc pool blk ps k =
     (if pool = NULL then (RHINO_NULL_PTR, ps, k)
      else if blk = 0 then (RHINO_NULL_PTR, ps, k)
      else if pool_obj_type (ps pool) \<noteq> RHINO_MM_BLK_OBJ_TYPE then (RHINO_KOBJ_TYPE_ERR, ps, k)
      else if blk_avail (ps pool) > 0 then
        let avail_blk = avail_list (ps pool);
            k = store32 blk avail_blk k
        in (RHINO_SUCCESS, ps(pool := (ps pool)\<lparr>avail_list := load32 avail_blk k, blk_avail := blk_avail (ps pool) - 1\<rparr>), k)
      else (RHINO_NO_MEM, ps, store32 blk 0 k))"

definition krhino_mblk_free ::
  "oid \<Rightarrow> u32 \<Rightarrow> (oid \<Rightarrow> mblk_pool) \<Rightarrow> kernel \<Rightarrow> kstat \<times> (oid \<Rightarrow> mblk_pool) \<times> kernel" where
  "krhino_mblk_free pool blk ps k =
     (if pool = NULL then (RHINO_NULL_PTR, ps, k)
      else if blk = 0 then (RHINO_NULL_PTR, ps, k)
      else if pool_obj_type (ps pool) \<noteq> RHINO_MM_BLK_OBJ_TYPE then (RHINO_KOBJ_TYPE_ERR, ps, k)
      else
        let k = store32 blk (avail_list (ps pool)) k
        in (RHINO_SUCCESS, ps(pool := (ps pool)\<lparr>avail_list := blk, blk_avail := blk_avail (ps pool) + 1\<rparr>), k))"

section \<open>The chain of free blocks\<close>

fun chain :: "kernel \<Rightarrow> u32 \<Rightarrow> u32 list \<Rightarrow> bool" where
  "chain k a [] = True"
| "chain k a (b # bs) \<longleftrightarrow> a = b \<and> chain k (load32 b k) bs"

lemma chain_cong: "(\<And>b. b \<in> set bs \<Longrightarrow> load32 b k' = load32 b k) \<Longrightarrow> chain k' a bs = chain k a bs"
  by (induction bs arbitrary: a) auto

definition pool_holds :: "mblk_pool \<Rightarrow> u32 list \<Rightarrow> kernel \<Rightarrow> bool" where
  "pool_holds p bs k \<longleftrightarrow> pool_obj_type p = RHINO_MM_BLK_OBJ_TYPE \<and> chain k (avail_list p) bs \<and> length bs = unat (blk_avail p)"

lemma pool_holds_store:
  assumes "pool_holds p bs k" and "\<And>b. b \<in> set bs \<Longrightarrow> apart b 4 a (length d)"
  shows "pool_holds p bs (store_bytes a d k)"
  using assms chain_cong [of bs "store_bytes a d k" k] by (simp add: pool_holds_def load32_apart)

lemma mblk_alloc_ok:
  assumes "pool_holds (ps pool) (b # bs) k" and "pool \<noteq> NULL" and "blk \<noteq> 0"
    and "\<And>c. c \<in> set (b # bs) \<Longrightarrow> apart c 4 blk 4"
  shows "\<exists>ps' k'. krhino_mblk_alloc pool blk ps k = (RHINO_SUCCESS, ps', k') \<and> load32 blk k' = b \<and> pool_holds (ps' pool) bs k' \<and> k' = store32 blk b k"
proof -
  have a: "avail_list (ps pool) = b" "0 < blk_avail (ps pool)" "unat (blk_avail (ps pool)) = Suc (length bs)"
    "chain k (load32 b k) bs" "pool_obj_type (ps pool) = RHINO_MM_BLK_OBJ_TYPE"
    using assms(1) by (auto simp: pool_holds_def word_less_nat_alt)
  have "unat (blk_avail (ps pool) - 1) = length bs" using a(2,3) by (simp add: unat_one_less)
  moreover have "chain (store32 blk b k) (load32 b (store32 blk b k)) bs"
    using a(4) assms(4) chain_cong [of bs "store32 blk b k" k] by (simp add: load32_store32_apart)
  ultimately show ?thesis
    using a assms(2,3) by (simp add: krhino_mblk_alloc_def Let_def pool_holds_def load32_store32)
qed

lemma mblk_free_ok:
  assumes "pool_holds (ps pool) bs k" and "pool \<noteq> NULL" and "b \<noteq> 0"
    and "\<And>c. c \<in> set bs \<Longrightarrow> apart c 4 b 4" and "Suc (length bs) < 2 ^ 32"
  shows "\<exists>ps' k'. krhino_mblk_free pool b ps k = (RHINO_SUCCESS, ps', k') \<and> pool_holds (ps' pool) (b # bs) k' \<and> k' = store32 b (avail_list (ps pool)) k"
proof -
  have a: "length bs = unat (blk_avail (ps pool))" "chain k (avail_list (ps pool)) bs" "pool_obj_type (ps pool) = RHINO_MM_BLK_OBJ_TYPE"
    using assms(1) by (auto simp: pool_holds_def)
  have "unat (blk_avail (ps pool) + 1) = Suc (length bs)" using a(1) assms(5) by (simp add: unat_word_ariths)
  moreover have "chain (store32 b v k) (avail_list (ps pool)) bs" for v
    using a(2) assms(4) chain_cong [of bs "store32 b v k" k] by (simp add: load32_store32_apart)
  ultimately show ?thesis
    using a assms(2,3) by (simp add: krhino_mblk_free_def Let_def pool_holds_def load32_store32)
qed


definition pool_blocks :: "u32 \<Rightarrow> u32 \<Rightarrow> nat \<Rightarrow> u32 list" where
  "pool_blocks start bsize n = map (\<lambda>i. start + word_of_nat i * bsize) [0..<n]"

lemma pool_blocks_Suc: "pool_blocks start bsize (Suc n) = start # pool_blocks (start + bsize) bsize n"
  unfolding pool_blocks_def
  by (subst upt_conv_Cons) (simp_all add: map_Suc_upt [symmetric] o_def algebra_simps del: upt_Suc)

lemma pool_blocks_0 [simp]: "pool_blocks start bsize 0 = []"
  by (simp add: pool_blocks_def)

lemma mblk_link_ok:
  assumes "unat cur < unat e" and "unat e + unat bsize \<le> 2 ^ 32" and "0 < unat bsize"
    and "4 dvd unat cur" and "4 dvd unat e" and "4 dvd unat bsize"
  shows "\<exists>k'. mblk_link bsize e blks cur k = Some (blks + word_of_nat ((unat e - unat cur) div unat bsize), k') \<and>
    chain k' cur (pool_blocks cur bsize ((unat e - unat cur) div unat bsize)) \<and>
    (\<forall>x. unat x < unat cur \<or> unat e \<le> unat x \<longrightarrow> mem k' x = mem k x)"
  using assms
proof (induction "unat e - unat cur" arbitrary: blks cur k rule: less_induct)
  case less
  let ?next = "cur + bsize"
  have nx: "unat ?next = unat cur + unat bsize" using less.prems by (simp add: unat_word_ariths)
  have c4: "unat cur + 4 \<le> unat e" using less.prems by presburger
  have out: "mem (store32 cur v k) x = mem k x" if "unat x < unat cur \<or> unat e \<le> unat x" for v x
    using that c4 less.prems(2) by (auto simp: store32_def store_bytes_def unat_sub_if')
  show ?case
  proof (cases "unat ?next < unat e")
    case True
    let ?n = "(unat e - unat ?next) div unat bsize"
    have n: "(unat e - unat cur) div unat bsize = Suc ?n"
      using le_div_geq [of "unat bsize" "unat e - unat cur"] True nx less.prems(3) by (simp add: diff_diff_add)
    obtain k' where k': "mblk_link bsize e (blks + 1) ?next (store32 cur ?next k) = Some (blks + 1 + word_of_nat ?n, k')"
      "chain k' ?next (pool_blocks ?next bsize ?n)"
      "\<And>x. unat x < unat ?next \<or> unat e \<le> unat x \<Longrightarrow> mem k' x = mem (store32 cur ?next k) x"
    proof -
      have "unat e - unat ?next < unat e - unat cur" "4 dvd unat ?next" using less.prems nx True by simp_all
      from less.hyps [OF this(1) True less.prems(2,3) this(2) less.prems(5,6), of "blks + 1" "store32 cur ?next k"]
      show ?thesis using that by blast
    qed
    have "load32 cur k' = load32 cur (store32 cur ?next k)"
    proof -
      have "mem k' (cur + word_of_nat i) = mem (store32 cur ?next k) (cur + word_of_nat i)" if "i < 4" for i
      proof (rule k'(3))
        have "unat (cur + word_of_nat i) = unat cur + i" using that c4 less.prems(2) by (simp add: unat_word_ariths unat_of_nat)
        moreover have "4 \<le> unat bsize" using less.prems(3,6) by presburger
        ultimately show "unat (cur + word_of_nat i) < unat ?next \<or> unat e \<le> unat (cur + word_of_nat i)" using nx that by simp
      qed
      then show ?thesis unfolding load32_def load_bytes_def by (intro arg_cong [of _ _ of_le_bytes]) simp
    qed
    then have ld: "load32 cur k' = ?next" by (simp add: load32_store32)
    have "mblk_link bsize e blks cur k = Some (blks + word_of_nat (Suc ?n), k')"
      using True k'(1) by (subst mblk_link.simps) (simp add: word_less_nat_alt add.assoc)
    moreover have "chain k' cur (pool_blocks cur bsize (Suc ?n))" using k'(2) ld by (simp add: pool_blocks_Suc)
    moreover have "mem k' x = mem k x" if "unat x < unat cur \<or> unat e \<le> unat x" for x
      using that k'(3) [of x] out nx by auto
    ultimately show ?thesis unfolding n by blast
  next
    case False
    have n: "(unat e - unat cur) div unat bsize = (if ?next = e then 1 else 0)"
    proof (cases "?next = e")
      case True
      then have "unat e - unat cur = unat bsize" using nx by simp
      then show ?thesis using True less.prems(3) by simp
    next
      case ne: False
      then have "unat ?next \<noteq> unat e" by (simp add: word_unat_eq_iff)
      then have "unat e - unat cur < unat bsize" using False nx less.prems(1) by linarith
      then show ?thesis using ne by simp
    qed
    have "mblk_link bsize e blks cur k = Some (blks + word_of_nat (if ?next = e then 1 else 0), store32 cur 0 k)"
      using False by (subst mblk_link.simps) (simp add: word_less_nat_alt)
    then show ?thesis unfolding n using out by (auto simp: pool_blocks_def)
  qed
qed

lemma aligned_word:
  fixes w :: u32
  assumes "w AND 3 = 0"
  shows "4 dvd unat w"
proof -
  have "w AND 3 = take_bit 2 w" by (simp add: take_bit_eq_mask mask_eq_exp_minus_1)
  then have "take_bit 2 (unat w) = 0" using assms by (simp flip: unsigned_take_bit_eq)
  then show ?thesis by (simp add: take_bit_eq_mod dvd_eq_mod_eq_0)
qed

lemma pool_init_ok:
  assumes "pool \<noteq> NULL" and "name \<noteq> NULL" and "start \<noteq> 0" and "0 < bsize" and "2 * unat bsize \<le> unat psize"
    and "start AND 3 = 0" and "bsize AND 3 = 0" and "psize AND 3 = 0"
    and "unat start + unat psize + unat bsize \<le> 2 ^ 32"
  shows "\<exists>ps' k'. krhino_mblk_pool_init pool name start bsize psize ps k = Some (RHINO_SUCCESS, ps', k') \<and>
    pool_holds (ps' pool) (pool_blocks start bsize (unat psize div unat bsize)) k' \<and>
    (\<forall>x. unat x < unat start \<or> unat start + unat psize \<le> unat x \<longrightarrow> mem k' x = mem k x)"
proof -
  have e: "unat (start + psize) = unat start + unat psize"
    using assms(4,9) by (simp add: unat_word_ariths word_less_nat_alt)
  have b: "0 < unat bsize" using assms(4) by (simp add: word_less_nat_alt)
  have d: "\<not> psize < push_bit 1 bsize"
    using assms(5,9) by (simp add: word_less_nat_alt push_bit_eq_mult unat_word_ariths)
  have n: "unat psize div unat bsize < 2 ^ 32" using unsigned_less [of psize, where ?'a = nat] div_le_dividend le_less_trans by (simp, blast)
  obtain k' where k': "mblk_link bsize (start + psize) 0 start k = Some (word_of_nat (unat psize div unat bsize), k')"
    "chain k' start (pool_blocks start bsize (unat psize div unat bsize))"
    "\<forall>x. unat x < unat start \<or> unat start + unat psize \<le> unat x \<longrightarrow> mem k' x = mem k x"
    using mblk_link_ok [of start "start + psize" bsize 0 k] aligned_word [OF assms(6)] aligned_word [OF assms(7)] aligned_word [OF assms(8)] e b assms(5,9) by auto
  have "unat (word_of_nat (unat psize div unat bsize) :: u32) = unat psize div unat bsize" using n by (simp add: unat_of_nat)
  then show ?thesis
    using assms(1-3,6-8) d k' by (simp add: krhino_mblk_pool_init_def pool_holds_def pool_blocks_def)
qed


lemma mblk_link_stuck: "cur < e \<Longrightarrow> mblk_link 0 e blks cur k = None"
proof (rule ccontr)
  assume c: "cur < e" and "mblk_link 0 e blks cur k \<noteq> None"
  then obtain r where r: "mblk_link 0 e blks cur k = Some r" by blast
  have "(0 :: u32) = 0 \<and> cur < e \<longrightarrow> False"
  proof (rule mblk_link.raw_induct [OF _ r, where P = "\<lambda>b e blks cur k r. b = 0 \<and> cur < e \<longrightarrow> False"], goal_cases)
    case (1 loop b e blks cur k r)
    show ?case
    proof
      assume "b = 0 \<and> cur < e"
      with 1(2) have "loop 0 e (blks + 1) cur (store32 cur cur k) = Some r" "cur < e" by (simp_all add: Let_def)
      with 1(1) show False by blast
    qed
  qed
  with c show False by simp
qed


section \<open>The blocks of a pool\<close>

lemma pool_block_unat:
  fixes start bsize :: u32
  assumes "unat start + n * unat bsize \<le> 2 ^ 32" and "i < n" and "0 < unat bsize"
  shows "unat (start + word_of_nat i * bsize) = unat start + i * unat bsize"
proof -
  have "i * unat bsize + unat bsize \<le> n * unat bsize" using assms(2) by (metis Suc_leI add.commute mult_Suc mult_le_mono1)
  then have l: "unat start + i * unat bsize < 2 ^ 32" using assms(1,3) by linarith
  moreover have "i \<le> i * unat bsize" using assms(3) by simp
  ultimately have "i < 2 ^ 32" by linarith
  then show ?thesis using l by (simp add: unat_word_ariths unat_of_nat)
qed

lemma pool_block_apart:
  assumes p: "unat start + n * unat bsize \<le> 2 ^ 32" "0 < unat bsize"
    and b: "b \<in> set (pool_blocks start bsize n)" "c \<in> set (pool_blocks start bsize n)" "b \<noteq> c"
    and m: "m \<le> unat bsize" "m' \<le> unat bsize"
  shows "apart b m c m'"
proof -
  obtain i j where ij: "i < n" "j < n" "b = start + word_of_nat i * bsize" "c = start + word_of_nat j * bsize"
    using b(1,2) by (auto simp: pool_blocks_def)
  have u: "unat b = unat start + i * unat bsize" "unat c = unat start + j * unat bsize"
    using pool_block_unat [OF p(1) ij(1) p(2)] pool_block_unat [OF p(1) ij(2) p(2)] ij(3,4) by simp_all
  have "i \<noteq> j" using b(3) ij by auto
  have le: "x * unat bsize + unat bsize \<le> y * unat bsize" if "x < y" for x y
    using that by (metis Suc_leI add.commute mult_Suc mult_le_mono1)
  have "i * unat bsize + unat bsize \<le> j * unat bsize \<or> j * unat bsize + unat bsize \<le> i * unat bsize"
    using \<open>i \<noteq> j\<close> le by (metis linorder_neqE_nat)
  then show ?thesis using u m le [OF ij(1)] le [OF ij(2)] p(1) by (auto simp: apart_def)
qed

lemma pool_blocks_distinct:
  assumes "unat start + n * unat bsize \<le> 2 ^ 32" "0 < unat bsize"
  shows "distinct (pool_blocks start bsize n)"
proof -
  have "inj_on (\<lambda>i. start + word_of_nat i * bsize) {0..<n}"
  proof (rule inj_onI)
    fix i j assume "i \<in> {0..<n}" "j \<in> {0..<n}" "start + word_of_nat i * bsize = start + word_of_nat j * bsize"
    then have "unat start + i * unat bsize = unat start + j * unat bsize"
      using pool_block_unat [OF assms(1) _ assms(2)] by (metis atLeastLessThan_iff)
    then show "i = j" using assms(2) by simp
  qed
  then show ?thesis by (simp add: pool_blocks_def distinct_map)
qed

lemma apart_sub: "apart a n b m \<Longrightarrow> i + l \<le> m \<Longrightarrow> apart a n (b + word_of_nat i) l"
proof -
  assume a: "apart a n b m" and i: "i + l \<le> m"
  show ?thesis
  proof (cases "unat b + i < 2 ^ 32")
    case True
    then have "unat (b + word_of_nat i) = unat b + i" by (simp add: unat_word_ariths unat_of_nat)
    then show ?thesis using a i by (auto simp: apart_def)
  next
    case False
    then have "l = 0" "unat b + i = 2 ^ 32" using a i by (auto simp: apart_def)
    then have "unat (b + word_of_nat i) = 0" by (simp add: unat_word_ariths unat_of_nat mod_add_right_eq)
    then show ?thesis using a \<open>l = 0\<close> by (auto simp: apart_def)
  qed
qed

text \<open>A pool of \<open>n\<close> blocks in memory, and a pointer for the results outside of it.\<close>

definition pool_place :: "oid \<Rightarrow> u32 \<Rightarrow> u32 \<Rightarrow> u32 \<Rightarrow> nat \<Rightarrow> bool" where
  "pool_place pool start bsize out n \<longleftrightarrow> pool \<noteq> NULL \<and> 0 < start \<and> 4 \<le> unat bsize \<and>
     unat start + n * unat bsize \<le> 2 ^ 32 \<and> out \<noteq> 0 \<and> unat out + 4 \<le> 2 ^ 32 \<and>
     (unat out + 4 \<le> unat start \<or> unat start + n * unat bsize \<le> unat out)"

lemma block_range:
  assumes place: "pool_place pool start bsize out n" and b: "b \<in> set (pool_blocks start bsize n)"
  shows "b \<noteq> 0" and "apart b 4 out 4" and "unat start \<le> unat b" and "unat b + unat bsize \<le> unat start + n * unat bsize"
proof -
  have start: "0 < start" and size: "4 \<le> unat bsize" and room: "unat start + n * unat bsize \<le> 2 ^ 32"
    and out: "out \<noteq> 0" "unat out + 4 \<le> unat start \<or> unat start + n * unat bsize \<le> unat out" "unat out + 4 \<le> 2 ^ 32"
    using place by (simp_all add: pool_place_def)
  obtain i where i: "i < n" "b = start + word_of_nat i * bsize" using b by (auto simp: pool_blocks_def)
  have u: "unat b = unat start + i * unat bsize" using pool_block_unat [OF room i(1)] size i(2) by simp
  have "i * unat bsize + unat bsize \<le> n * unat bsize" using i(1) by (metis Suc_leI add.commute mult_Suc mult_le_mono1)
  then show "unat b + unat bsize \<le> unat start + n * unat bsize" and "unat start \<le> unat b" using u by simp_all
  then show "b \<noteq> 0" and "apart b 4 out 4" using out start size room by (auto simp: apart_def word_less_nat_alt)
qed

lemma length_blocks:
  assumes place: "pool_place pool start bsize out n"
  shows "length (pool_blocks start bsize n) < 2 ^ 32"
proof -
  have start: "0 < start" and size: "4 \<le> unat bsize" and room: "unat start + n * unat bsize \<le> 2 ^ 32"
    and out: "out \<noteq> 0" "unat out + 4 \<le> unat start \<or> unat start + n * unat bsize \<le> unat out" "unat out + 4 \<le> 2 ^ 32"
    using place by (simp_all add: pool_place_def)
  have "n * 4 \<le> n * unat bsize" using size by (rule mult_le_mono2)
  moreover have "0 < unat start" using start by (simp add: word_less_nat_alt)
  ultimately have "n < 2 ^ 32" using room by linarith
  then show ?thesis by (simp add: pool_blocks_def)
qed

section \<open>Refinement\<close>

text \<open>
  Clients allocate, free, and write into blocks they have been given. The answer to an allocation is
  the status and what is left at the pointer for the result.
\<close>

datatype mblk_op = Alloc | Free u32 | Write u32 nat "u8 list"

fun mblk_do :: "oid \<Rightarrow> u32 \<Rightarrow> mblk_op \<Rightarrow> (oid \<Rightarrow> mblk_pool) \<times> kernel \<Rightarrow> (kstat \<times> u32) \<times> (oid \<Rightarrow> mblk_pool) \<times> kernel" where
  "mblk_do pool out Alloc (ps, k) =
     (let (r, ps, k) = krhino_mblk_alloc pool out ps k in ((r, load32 out k), ps, k))"
| "mblk_do pool out (Free b) (ps, k) = (let (r, ps, k) = krhino_mblk_free pool b ps k in ((r, b), ps, k))"
| "mblk_do pool out (Write b i d) (ps, k) = ((RHINO_SUCCESS, b), ps, store_bytes (b + word_of_nat i) d k)"

type_synonym blocks = "u32 list \<times> u32 set"

fun mblk_spec :: "mblk_op \<Rightarrow> blocks \<Rightarrow> (kstat \<times> u32) \<times> blocks" where
  "mblk_spec Alloc ([], used) = ((RHINO_NO_MEM, 0), ([], used))"
| "mblk_spec Alloc (b # free, used) = ((RHINO_SUCCESS, b), (free, insert b used))"
| "mblk_spec (Free b) (free, used) = ((RHINO_SUCCESS, b), (b # free, used - {b}))"
| "mblk_spec (Write b i d) (free, used) = ((RHINO_SUCCESS, b), (free, used))"

fun mblk_spec_ok :: "u32 \<Rightarrow> mblk_op \<Rightarrow> blocks \<Rightarrow> bool" where
  "mblk_spec_ok bsize Alloc s = True"
| "mblk_spec_ok bsize (Free b) s \<longleftrightarrow> b \<in> snd s"
| "mblk_spec_ok bsize (Write b i d) s \<longleftrightarrow> b \<in> snd s \<and> i + length d \<le> unat bsize"

text \<open>The free blocks of the specification are the chain of the pool; free and used blocks are all blocks.\<close>

definition pool_rel :: "oid \<Rightarrow> u32 \<Rightarrow> u32 \<Rightarrow> u32 \<Rightarrow> nat \<Rightarrow> blocks \<Rightarrow> (oid \<Rightarrow> mblk_pool) \<times> kernel \<Rightarrow> bool" where
  "pool_rel pool start bsize out n s c \<longleftrightarrow> pool_place pool start bsize out n \<and>
     pool_holds (fst c pool) (fst s) (snd c) \<and> distinct (fst s) \<and>
     set (fst s) \<inter> snd s = {} \<and> set (fst s) \<union> snd s = set (pool_blocks start bsize n)"

lemma mblk_step:
  assumes r: "pool_rel pool start bsize out n s c" and ok: "mblk_spec_ok bsize op s"
  shows "fst (mblk_do pool out op c) = fst (mblk_spec op s)" and "pool_rel pool start bsize out n (snd (mblk_spec op s)) (snd (mblk_do pool out op c))"
proof -
  have place: "pool_place pool start bsize out n" using r by (simp add: pool_rel_def)
  then have pool: "pool \<noteq> NULL" and size: "4 \<le> unat bsize" and room: "unat start + n * unat bsize \<le> 2 ^ 32" and out: "out \<noteq> 0"
    by (simp_all add: pool_place_def)
  note block_range = block_range [OF place] and length_blocks = length_blocks [OF place]
  obtain free used where s: "s = (free, used)" by fastforce
  obtain ps k where c: "c = (ps, k)" by fastforce
  have h: "pool_holds (ps pool) free k" "distinct free" "set free \<inter> used = {}" "set free \<union> used = set (pool_blocks start bsize n)"
    using r by (simp_all add: pool_rel_def s c)
  have len: "length free < 2 ^ 32" using h(2,4) length_blocks
    by (metis (no_types, lifting) Un_upper1 card_length card_mono distinct_card finite_set le_less_trans)
  have "fst (mblk_do pool out op c) = fst (mblk_spec op s) \<and> pool_rel pool start bsize out n (snd (mblk_spec op s)) (snd (mblk_do pool out op c))"
  proof (cases op)
    case Alloc
    show ?thesis
    proof (cases free)
      case Nil
      then have "blk_avail (ps pool) = 0" "pool_obj_type (ps pool) = RHINO_MM_BLK_OBJ_TYPE"
        using h(1) by (auto simp: pool_holds_def unat_eq_zero)
      then show ?thesis using Alloc Nil h pool out place by (simp add: s c krhino_mblk_alloc_def pool_rel_def pool_holds_def load32_store32)
    next
      case (Cons b bs)
      obtain ps' k' where a: "krhino_mblk_alloc pool out ps k = (RHINO_SUCCESS, ps', k')" "load32 out k' = b" "pool_holds (ps' pool) bs k'"
        using mblk_alloc_ok [of ps pool b bs k out] h(1,4) pool out block_range(2) by (auto simp: Cons)
      show ?thesis using a h Alloc place by (auto simp: s c Cons pool_rel_def)
    qed
  next
    case (Free b)
    then have b: "b \<in> used" using ok by (simp add: s)
    then have nb: "b \<notin> set free" "b \<in> set (pool_blocks start bsize n)" using h by auto
    have ap: "apart x 4 b 4" if "x \<in> set free" for x
      using pool_block_apart [OF room _ _ nb(2)] that h(4) nb size by auto
    have l: "Suc (length free) < 2 ^ 32"
    proof -
      have "card (insert b (set free)) \<le> length (pool_blocks start bsize n)" using nb(2) h(4) by (metis Un_upper1 card_length card_mono finite_set insert_subset le_trans)
      then show ?thesis using nb(1) h(2) length_blocks by (simp add: distinct_card)
    qed
    obtain ps' k' where f: "krhino_mblk_free pool b ps k = (RHINO_SUCCESS, ps', k')" "pool_holds (ps' pool) (b # free) k'"
      using mblk_free_ok [where ps = ps, OF h(1) pool block_range(1) [OF nb(2)] ap l] by auto
    show ?thesis using f h nb b Free place by (auto simp: s c pool_rel_def)
  next
    case (Write b i d)
    then have b: "b \<in> used" "i + length d \<le> unat bsize" using ok by (simp_all add: s)
    then have nb: "b \<notin> set free" "b \<in> set (pool_blocks start bsize n)" using h by auto
    have "apart x 4 (b + word_of_nat i) (length d)" if "x \<in> set free" for x
      by (rule apart_sub [OF pool_block_apart [OF room _ _ nb(2) _ _ order.refl]]) (use that h(4) nb size b in auto)
    then show ?thesis using pool_holds_store [OF h(1)] h Write place by (simp add: s c pool_rel_def)
  qed
  then show "fst (mblk_do pool out op c) = fst (mblk_spec op s)" and "pool_rel pool start bsize out n (snd (mblk_spec op s)) (snd (mblk_do pool out op c))"
    by auto
qed


interpretation mblk: simulates "mblk_do pool out" mblk_spec "mblk_spec_ok bsize" "pool_rel pool start bsize out n"
  for pool out bsize start n
  by unfold_locales (rule mblk_step, assumption+)+

text \<open>
  C31. A block pool that has been initialised without overlap gives out its blocks: for any sequence of
  allocations, releases of blocks that were given out, and writes of the clients into their blocks,
  the answers are those of a list of free blocks, the block released last first, and
  \<^verbatim>\<open>RHINO_NO_MEM\<close> when it is empty. A block is never given to two clients.
\<close>

theorem mblk_refines:
  assumes "pool \<noteq> NULL" and "name \<noteq> NULL" and "start \<noteq> 0" and "0 < bsize" and "2 * unat bsize \<le> unat psize"
    and "start AND 3 = 0" and "bsize AND 3 = 0" and "psize AND 3 = 0"
    and "unat start + unat psize + unat bsize \<le> 2 ^ 32"
    and "out \<noteq> 0" and "unat out + 4 \<le> unat start"
    and "allowed mblk_spec (mblk_spec_ok bsize) ops (pool_blocks start bsize (unat psize div unat bsize), {})"
  shows "\<exists>c. krhino_mblk_pool_init pool name start bsize psize ps k = Some (RHINO_SUCCESS, c) \<and>
    fst (run_ops (mblk_do pool out) ops c) =
      fst (run_ops mblk_spec ops (pool_blocks start bsize (unat psize div unat bsize), {})) \<and>
    pool_rel pool start bsize out (unat psize div unat bsize)
      (snd (run_ops mblk_spec ops (pool_blocks start bsize (unat psize div unat bsize), {}))) (snd (run_ops (mblk_do pool out) ops c))"
proof -
  let ?n = "unat psize div unat bsize" and ?s = "(pool_blocks start bsize (unat psize div unat bsize), {} :: u32 set)"
  obtain ps' k' where i: "krhino_mblk_pool_init pool name start bsize psize ps k = Some (RHINO_SUCCESS, ps', k')"
    "pool_holds (ps' pool) (pool_blocks start bsize ?n) k'"
    using pool_init_ok [OF assms(1-9)] by blast
  have "?n * unat bsize \<le> unat psize" by simp
  then have room: "unat start + ?n * unat bsize \<le> 2 ^ 32" using assms(9) by linarith
  have b: "4 \<le> unat bsize" using dvd_imp_le [OF aligned_word [OF assms(7)]] assms(4) by (simp add: word_less_nat_alt)
  have "0 < start" using assms(3) by (simp add: word_greater_zero_iff)
  then have "pool_place pool start bsize out ?n" using assms(1,10,11) room b unsigned_less [of start, where ?'a = nat] by (simp add: pool_place_def)
  then have "pool_rel pool start bsize out ?n ?s (ps', k')"
    using i(2) pool_blocks_distinct [OF room] b by (simp add: pool_rel_def)
  from mblk.run_simulates [OF this assms(12)] i(1) show ?thesis by blast
qed

theorem mblk_refines_witness:
  "\<forall>ps k. \<exists>c. krhino_mblk_pool_init 1 1 0x1000 16 64 ps k = Some (RHINO_SUCCESS, c) \<and>
    fst (run_ops (mblk_do 1 0x100) [Alloc, Alloc, Write 0x1000 0 [1, 2, 3, 4, 5], Free 0x1000, Alloc, Alloc, Alloc, Alloc] c) =
      [(RHINO_SUCCESS, 0x1000), (RHINO_SUCCESS, 0x1010), (RHINO_SUCCESS, 0x1000), (RHINO_SUCCESS, 0x1000),
       (RHINO_SUCCESS, 0x1000), (RHINO_SUCCESS, 0x1020), (RHINO_SUCCESS, 0x1030), (RHINO_NO_MEM, 0)]"
proof -
  have b: "pool_blocks 0x1000 16 (unat (64 :: u32) div unat (16 :: u32)) = [0x1000, 0x1010, 0x1020, 0x1030]"
    by (simp add: pool_blocks_def upt_rec)
  define ops where "ops = [Alloc, Alloc, Write 0x1000 0 [1, 2, 3, 4, 5], Free 0x1000, Alloc, Alloc, Alloc, Alloc]"
  have ok: "allowed mblk_spec (mblk_spec_ok 16) ops ([0x1000, 0x1010, 0x1020, 0x1030], {})" by (simp add: ops_def)
  have spec: "fst (run_ops mblk_spec ops ([0x1000, 0x1010, 0x1020, 0x1030], {})) =
      [(RHINO_SUCCESS, 0x1000), (RHINO_SUCCESS, 0x1010), (RHINO_SUCCESS, 0x1000), (RHINO_SUCCESS, 0x1000),
       (RHINO_SUCCESS, 0x1000), (RHINO_SUCCESS, 0x1020), (RHINO_SUCCESS, 0x1030), (RHINO_NO_MEM, 0)]"
    by (simp add: ops_def)
  note r = mblk_refines [of 1 1 "0x1000" 16 64 "0x100" ops, unfolded b, OF _ _ _ _ _ _ _ _ _ _ _ ok, unfolded spec]
  show ?thesis unfolding ops_def [symmetric]
  proof (intro allI)
    fix ps k
    have "\<exists>c. krhino_mblk_pool_init 1 1 0x1000 16 64 ps k = Some (RHINO_SUCCESS, c) \<and>
      fst (run_ops (mblk_do 1 0x100) ops c) = 
      [(RHINO_SUCCESS, 0x1000), (RHINO_SUCCESS, 0x1010), (RHINO_SUCCESS, 0x1000), (RHINO_SUCCESS, 0x1000),
       (RHINO_SUCCESS, 0x1000), (RHINO_SUCCESS, 0x1020), (RHINO_SUCCESS, 0x1030), (RHINO_NO_MEM, 0)] \<and>
      pool_rel 1 0x1000 16 0x100 (unat (64 :: u32) div unat (16 :: u32))
       (snd (run_ops mblk_spec ops ([0x1000, 0x1010, 0x1020, 0x1030], {}))) (snd (run_ops (mblk_do 1 0x100) ops c))"
      by (rule r) simp_all
    then show "\<exists>c. krhino_mblk_pool_init 1 1 0x1000 16 64 ps k = Some (RHINO_SUCCESS, c) \<and>
      fst (run_ops (mblk_do 1 0x100) ops c) = 
      [(RHINO_SUCCESS, 0x1000), (RHINO_SUCCESS, 0x1010), (RHINO_SUCCESS, 0x1000), (RHINO_SUCCESS, 0x1000),
       (RHINO_SUCCESS, 0x1000), (RHINO_SUCCESS, 0x1020), (RHINO_SUCCESS, 0x1030), (RHINO_NO_MEM, 0)]"
      by blast
  qed
qed

text \<open>
  C37. Blocks of size 0 pass the checks of \<^verbatim>\<open>krhino_mblk_pool_init\<close>, which then does not return: the loop
  chains the first block to itself forever.
\<close>

theorem mblk_zero_size_hangs:
  assumes "pool \<noteq> NULL" and "name \<noteq> NULL" and "start \<noteq> 0" and "start AND 3 = 0" and "psize AND 3 = 0"
    and "start < start + psize"
  shows "krhino_mblk_pool_init pool name start 0 psize ps k = None"
  using assms mblk_link_stuck [OF assms(6)] by (simp add: krhino_mblk_pool_init_def)

theorem mblk_zero_size_hangs_witness: "\<forall>ps k. krhino_mblk_pool_init 1 1 0x1000 0 64 ps k = None"
  by (intro allI mblk_zero_size_hangs) simp_all

end
