(* ===== verification/Rhino_Timer.thy ===== *)
theory Rhino_Timer
  imports Rhino_Services
begin

text \<open>
  Software timers (\<^verbatim>\<open>k_timer.c\<close>). The calls of the clients write a command \<^verbatim>\<open>k_timer_queue_cb\<close> and send
  it to the buffer queue of the timer task; the timer task executes commands, keeps the list of
  active timers ordered by the time that is left, and calls the callbacks of the timers that are
  due. The callbacks are recorded in \<open>cb_calls\<close> with the
  function that is called and its argument; they change timers only through further commands.
\<close>

section \<open>Data\<close>

datatype k_timer_state = TIMER_DEACTIVE | TIMER_ACTIVE

record ktimer =
  to_head :: bool
  timer_cb :: addr
  timer_cb_arg :: u32
  timer_match :: u64
  timer_remain :: u64
  init_count :: u64
  round_ticks :: u64
  timer_obj_type :: kobj_type
  timer_state :: k_timer_state
  timer_mm_alloc_flag :: u8

text \<open>The globals of the timer task, the callbacks called, and the memory given back.\<close>

record timer_sys =
  timers :: "oid \<Rightarrow> ktimer"
  g_timer_head :: "oid list"
  g_timer_count :: u64
  cb_calls :: "(oid \<times> addr \<times> u32) list"
  timer_freed :: "oid list"
  timer_errs :: "kstat list"
  timer_fault :: bool

record k_timer_queue_cb =
  cb_timer :: oid
  cb_first :: u64
  cb_round :: u64
  cb_arg :: u32
  cb_num :: u8

definition TIMER_CMD_START :: u8 where "TIMER_CMD_START = 1"
definition TIMER_CMD_STOP :: u8 where "TIMER_CMD_STOP = 2"
definition TIMER_CMD_CHG :: u8 where "TIMER_CMD_CHG = 3"
definition TIMER_ARG_CHG :: u8 where "TIMER_ARG_CHG = 4"
definition TIMER_ARG_CHG_AUTO :: u8 where "TIMER_ARG_CHG_AUTO = 5"
definition TIMER_CMD_DEL :: u8 where "TIMER_CMD_DEL = 6"
definition TIMER_CMD_DYN_DEL :: u8 where "TIMER_CMD_DYN_DEL = 7"

lemmas timer_cmds =
  TIMER_CMD_START_def TIMER_CMD_STOP_def TIMER_CMD_CHG_def TIMER_ARG_CHG_def TIMER_ARG_CHG_AUTO_def
  TIMER_CMD_DEL_def TIMER_CMD_DYN_DEL_def

definition MAX_TIMER_TICKS :: u64 where
  "MAX_TIMER_TICKS = drop_bit 1 (- 1)"

definition upd_timer :: "oid \<Rightarrow> (ktimer \<Rightarrow> ktimer) \<Rightarrow> timer_sys \<Rightarrow> timer_sys" where
  "upd_timer t f s = s\<lparr>timers := (timers s)(t := f (timers s t)), timer_fault := timer_fault s \<or> t = NULL\<rparr>"

section \<open>The list of active timers\<close>

definition timer_left :: "timer_sys \<Rightarrow> oid \<Rightarrow> u64" where
  "timer_left s t = timer_match (timers s t) - g_timer_count s"

definition timer_list_pri_insert :: "oid \<Rightarrow> timer_sys \<Rightarrow> timer_sys" where
  "timer_list_pri_insert timer s =
     (let val = timer_remain (timers s timer)
      in s\<lparr>g_timer_head := insert_before (\<lambda>u. timer_left s u > val) timer (g_timer_head s)\<rparr>)"

definition timer_list_rm :: "oid \<Rightarrow> timer_sys \<Rightarrow> timer_sys" where
  "timer_list_rm timer s =
     (if to_head (timers s timer) then
        if timer \<in> set (g_timer_head s)
        then upd_timer timer (\<lambda>x. x\<lparr>to_head := False\<rparr>) (s\<lparr>g_timer_head := remove1 timer (g_timer_head s)\<rparr>)
        else s\<lparr>timer_fault := True\<rparr>
      else s)"

text \<open>
  The pointer a node has to its successor, \<open>None\<close> for the head of the list. A node that has been taken
  off the list still has the pointer to its last successor.
\<close>

fun next_of :: "oid list \<Rightarrow> oid \<Rightarrow> oid option" where
  "next_of [] t = None"
| "next_of (x # xs) t = (if x = t then (case xs of [] \<Rightarrow> None | y # _ \<Rightarrow> Some y) else next_of xs t)"

definition first_of :: "oid list \<Rightarrow> oid option" where
  "first_of xs = (case xs of [] \<Rightarrow> None | x # _ \<Rightarrow> Some x)"

definition timer_due :: "timer_sys \<Rightarrow> oid \<Rightarrow> bool" where
  "timer_due s t \<longleftrightarrow> sint (timer_match (timers s t) - g_timer_count s) \<le> 0"

text \<open>What the loop of \<^verbatim>\<open>timer_cb_proc\<close> does to a timer that is due.\<close>

definition timer_fire :: "oid \<Rightarrow> timer_sys \<Rightarrow> timer_sys" where
  "timer_fire timer s =
     (let s = s\<lparr>cb_calls := cb_calls s @ [(timer, timer_cb (timers s timer), timer_cb_arg (timers s timer))]\<rparr>;
          s = timer_list_rm timer s
      in if round_ticks (timers s timer) > 0 then
           let s = upd_timer timer (\<lambda>x. x\<lparr>timer_remain := round_ticks x\<rparr>) s;
               s = upd_timer timer (\<lambda>x. x\<lparr>timer_match := g_timer_count s + timer_remain x, to_head := True\<rparr>) s
           in timer_list_pri_insert timer s
         else upd_timer timer (\<lambda>x. x\<lparr>timer_state := TIMER_DEACTIVE\<rparr>) s)"

partial_function (option) timer_cb_loop :: "oid option \<Rightarrow> timer_sys \<Rightarrow> timer_sys option" where
  "timer_cb_loop q s =
     (case q of
        None \<Rightarrow> Some s
      | Some timer \<Rightarrow>
          if timer_due s timer then
            timer_cb_loop
              (if round_ticks (timers s timer) > 0 then next_of (g_timer_head (timer_fire timer s)) timer
               else next_of (g_timer_head s) timer)
              (timer_fire timer s)
          else Some s)"

definition timer_cb_proc :: "timer_sys \<Rightarrow> timer_sys option" where
  "timer_cb_proc s = timer_cb_loop (first_of (g_timer_head s)) s"

section \<open>Commands\<close>

text \<open>A member of the timer is read through the pointer of the command.\<close>

definition timer_deref :: "oid \<Rightarrow> timer_sys \<Rightarrow> timer_sys" where
  "timer_deref timer s = s\<lparr>timer_fault := timer_fault s \<or> timer = NULL\<rparr>"

definition cmd_proc :: "k_timer_queue_cb \<Rightarrow> u8 \<Rightarrow> timer_sys \<Rightarrow> timer_sys" where
  "cmd_proc cb cmd s =
     (let timer = cb_timer cb
      in if cmd = TIMER_CMD_START then
           let s = timer_deref timer s
           in if timer_obj_type (timers s timer) \<noteq> RHINO_TIMER_OBJ_TYPE then s
              else if timer_state (timers s timer) = TIMER_ACTIVE then s
              else
                let s = upd_timer timer (\<lambda>x. x\<lparr>timer_match := g_timer_count s + init_count x,
                      timer_remain := init_count x, to_head := True\<rparr>) s;
                    s = timer_list_pri_insert timer s
                in upd_timer timer (\<lambda>x. x\<lparr>timer_state := TIMER_ACTIVE\<rparr>) s
         else if cmd = TIMER_CMD_STOP then
           let s = timer_deref timer s
           in if timer_obj_type (timers s timer) \<noteq> RHINO_TIMER_OBJ_TYPE then s
              else if timer_state (timers s timer) = TIMER_DEACTIVE then s
              else upd_timer timer (\<lambda>x. x\<lparr>timer_state := TIMER_DEACTIVE\<rparr>) (timer_list_rm timer s)
         else if cmd = TIMER_CMD_CHG then
           if cb_first cb = 0 then s
           else
             let s = timer_deref timer s
             in if timer_obj_type (timers s timer) \<noteq> RHINO_TIMER_OBJ_TYPE then s
              else if timer_state (timers s timer) \<noteq> TIMER_DEACTIVE then s
              else upd_timer timer (\<lambda>x. x\<lparr>init_count := cb_first cb, round_ticks := cb_round cb\<rparr>) s
         else if cmd = TIMER_ARG_CHG then
           let s = timer_deref timer s
           in if timer_obj_type (timers s timer) \<noteq> RHINO_TIMER_OBJ_TYPE then s
              else if timer_state (timers s timer) \<noteq> TIMER_DEACTIVE then s
              else upd_timer timer (\<lambda>x. x\<lparr>timer_cb_arg := cb_arg cb\<rparr>) s
         else if cmd = TIMER_CMD_DEL then
           let s = timer_deref timer s
           in if timer_obj_type (timers s timer) \<noteq> RHINO_TIMER_OBJ_TYPE then s
              else if timer_state (timers s timer) \<noteq> TIMER_DEACTIVE then s
              else if timer_mm_alloc_flag (timers s timer) \<noteq> K_OBJ_STATIC_ALLOC then s
              else upd_timer timer (\<lambda>x. x\<lparr>timer_obj_type := RHINO_OBJ_TYPE_NONE\<rparr>) s
         else if cmd = TIMER_CMD_DYN_DEL then
           let s = timer_deref timer s
           in if timer_obj_type (timers s timer) \<noteq> RHINO_TIMER_OBJ_TYPE then s
              else if timer_state (timers s timer) \<noteq> TIMER_DEACTIVE then s
              else if timer_mm_alloc_flag (timers s timer) \<noteq> K_OBJ_DYN_ALLOC then s
              else
                let s = upd_timer timer (\<lambda>x. x\<lparr>timer_obj_type := RHINO_OBJ_TYPE_NONE\<rparr>) s
                in s\<lparr>timer_freed := timer_freed s @ [timer]\<rparr>
         else s\<lparr>timer_errs := timer_errs s @ [RHINO_SYS_FATAL_ERR]\<rparr>)"

definition timer_cmd_proc :: "k_timer_queue_cb \<Rightarrow> timer_sys \<Rightarrow> timer_sys" where
  "timer_cmd_proc cb s =
     (if cb_num cb = TIMER_ARG_CHG_AUTO then
        cmd_proc cb TIMER_CMD_START (cmd_proc cb TIMER_ARG_CHG (cmd_proc cb TIMER_CMD_STOP s))
      else cmd_proc cb (cb_num cb) s)"

section \<open>The timer task\<close>

text \<open>
  What \<^verbatim>\<open>krhino_buf_queue_recv\<close> gives the timer task. After a failure the loop goes on with what the
  message buffer holds, in the outer loop; the inner loop leaves the message alone.
\<close>

datatype recv = Got k_timer_queue_cb | Timed_out | Failed k_timer_queue_cb

text \<open>One round of the outer loop of \<^verbatim>\<open>timer_task\<close>, up to the inner loop.\<close>

definition timer_task_outer :: "recv \<Rightarrow> u64 \<Rightarrow> timer_sys \<Rightarrow> timer_sys" where
  "timer_task_outer r tick_end s =
     (case r of
        Timed_out \<Rightarrow> s\<lparr>g_timer_count := tick_end\<rparr>
      | Got cb \<Rightarrow> timer_cmd_proc cb (s\<lparr>g_timer_count := tick_end\<rparr>)
      | Failed cb \<Rightarrow> timer_cmd_proc cb (s\<lparr>timer_errs := timer_errs s @ [RHINO_SYS_FATAL_ERR]\<rparr>))"

text \<open>One round of the inner loop, with at least one active timer.\<close>

definition timer_task_inner :: "u64 \<Rightarrow> recv \<Rightarrow> u64 \<Rightarrow> timer_sys \<Rightarrow> timer_sys option" where
  "timer_task_inner tick_start r tick_end s =
     (case g_timer_head s of
        [] \<Rightarrow> Some s
      | timer # _ \<Rightarrow>
          timer_cb_proc
            (if sint (timer_match (timers s timer) - tick_start) > 0 then
               (case r of
                  Timed_out \<Rightarrow> s\<lparr>g_timer_count := tick_end\<rparr>
                | Got cb \<Rightarrow> timer_cmd_proc cb (s\<lparr>g_timer_count := tick_end\<rparr>)
                | Failed _ \<Rightarrow> s\<lparr>timer_errs := timer_errs s @ [RHINO_SYS_FATAL_ERR]\<rparr>)
             else s\<lparr>g_timer_count := tick_start\<rparr>))"

section \<open>Calls of the clients\<close>

text \<open>
  A command is a local variable of the call; \<open>cb\<close> is its address. The structure has the pointer at offset
  0, the two times at 8 and 16, the argument at 16 as well, the number at 24, and takes 32 bytes.
\<close>

definition g_timer_queue :: oid where
  "g_timer_queue = 3"

definition sizeof_queue_cb :: nat where
  "sizeof_queue_cb = 32"

definition store64 :: "u32 \<Rightarrow> u64 \<Rightarrow> kernel \<Rightarrow> kernel" where
  "store64 a v k = store32 (a + 4) (ucast (drop_bit 32 v)) (store32 a (ucast v) k)"

definition load64 :: "u32 \<Rightarrow> kernel \<Rightarrow> u64" where
  "load64 a k = ucast (load32 a k) OR push_bit 32 (ucast (load32 (a + 4) k))"

definition read_cb :: "u32 \<Rightarrow> kernel \<Rightarrow> k_timer_queue_cb" where
  "read_cb a k = \<lparr>cb_timer = unat (load32 a k), cb_first = load64 (a + 8) k, cb_round = load64 (a + 16) k,
     cb_arg = load32 (a + 16) k, cb_num = mem k (a + 24)\<rparr>"

definition krhino_timer_del :: "u32 \<Rightarrow> oid \<Rightarrow> kernel \<Rightarrow> kstat \<times> kernel" where
  "krhino_timer_del cb timer k =
     (if timer = NULL then (RHINO_NULL_PTR, k)
      else
        let k = store32 cb (word_of_nat timer) k;
            k = store_bytes (cb + 24) [TIMER_CMD_DEL] k
        in krhino_buf_queue_send g_timer_queue cb sizeof_queue_cb k)"

definition krhino_timer_dyn_del :: "u32 \<Rightarrow> oid \<Rightarrow> kernel \<Rightarrow> kstat \<times> kernel" where
  "krhino_timer_dyn_del cb timer k =
     (if timer = NULL then (RHINO_NULL_PTR, k)
      else
        let k = store32 cb (word_of_nat timer) k;
            k = store_bytes (cb + 24) [TIMER_CMD_DYN_DEL] k
        in krhino_buf_queue_send g_timer_queue cb sizeof_queue_cb k)"

definition krhino_timer_start :: "u32 \<Rightarrow> oid \<Rightarrow> kernel \<Rightarrow> kstat \<times> kernel" where
  "krhino_timer_start cb timer k =
     (if timer = NULL then (RHINO_NULL_PTR, k)
      else
        let k = store32 cb (word_of_nat timer) k;
            k = store_bytes (cb + 24) [TIMER_CMD_START] k
        in krhino_buf_queue_send g_timer_queue cb sizeof_queue_cb k)"

definition krhino_timer_stop :: "u32 \<Rightarrow> oid \<Rightarrow> kernel \<Rightarrow> kstat \<times> kernel" where
  "krhino_timer_stop cb timer k =
     (if timer = NULL then (RHINO_NULL_PTR, k)
      else
        let k = store32 cb (word_of_nat timer) k;
            k = store_bytes (cb + 24) [TIMER_CMD_STOP] k
        in krhino_buf_queue_send g_timer_queue cb sizeof_queue_cb k)"

definition krhino_timer_change :: "u32 \<Rightarrow> oid \<Rightarrow> u64 \<Rightarrow> u64 \<Rightarrow> kernel \<Rightarrow> kstat \<times> kernel" where
  "krhino_timer_change cb timer first round k =
     (if timer = NULL then (RHINO_NULL_PTR, k)
      else if first \<ge> - 1 then (RHINO_INV_PARAM, k)
      else if round \<ge> - 1 then (RHINO_INV_PARAM, k)
      else
        let k = store32 cb (word_of_nat timer) k;
            k = store64 (cb + 8) first k;
            k = store64 (cb + 16) round k;
            k = store_bytes (cb + 24) [TIMER_CMD_CHG] k
        in krhino_buf_queue_send g_timer_queue cb sizeof_queue_cb k)"

definition krhino_timer_arg_change :: "u32 \<Rightarrow> oid \<Rightarrow> u32 \<Rightarrow> kernel \<Rightarrow> kstat \<times> kernel" where
  "krhino_timer_arg_change cb timer arg k =
     (if timer = NULL then (RHINO_NULL_PTR, k)
      else
        let k = store32 cb (word_of_nat timer) k;
            k = store32 (cb + 16) arg k;
            k = store_bytes (cb + 24) [TIMER_ARG_CHG] k
        in krhino_buf_queue_send g_timer_queue cb sizeof_queue_cb k)"

definition krhino_timer_arg_change_auto :: "u32 \<Rightarrow> oid \<Rightarrow> u32 \<Rightarrow> kernel \<Rightarrow> kstat \<times> kernel" where
  "krhino_timer_arg_change_auto cb timer arg k =
     (if timer = NULL then (RHINO_NULL_PTR, k)
      else
        let k = store32 cb (word_of_nat timer) k;
            k = store32 (cb + 16) arg k;
            k = store_bytes (cb + 24) [TIMER_ARG_CHG_AUTO] k
        in krhino_buf_queue_send g_timer_queue cb sizeof_queue_cb k)"

definition timer_create ::
  "u32 \<Rightarrow> oid \<Rightarrow> addr \<Rightarrow> addr \<Rightarrow> u64 \<Rightarrow> u64 \<Rightarrow> u32 \<Rightarrow> u8 \<Rightarrow> u8 \<Rightarrow> timer_sys \<Rightarrow> kernel \<Rightarrow> kstat \<times> timer_sys \<times> kernel" where
  "timer_create cb_msg timer name cb first round arg auto_run mm_alloc_flag s k =
     (if timer = NULL then (RHINO_NULL_PTR, s, k)
      else if name = NULL then (RHINO_NULL_PTR, s, k)
      else if cb = NULL then (RHINO_NULL_PTR, s, k)
      else if first = 0 then (RHINO_INV_PARAM, s, k)
      else if first \<ge> MAX_TIMER_TICKS then (RHINO_INV_PARAM, s, k)
      else if round \<ge> MAX_TIMER_TICKS then (RHINO_INV_PARAM, s, k)
      else if g_intrpt_nested_level k > 0 then (RHINO_NOT_CALLED_BY_INTRPT, s, k)
      else
        let s = upd_timer timer (\<lambda>_. \<lparr>to_head = False, timer_cb = cb, timer_cb_arg = arg, timer_match = 0,
              timer_remain = 0, init_count = first, round_ticks = round,
              timer_obj_type = RHINO_TIMER_OBJ_TYPE, timer_state = TIMER_DEACTIVE,
              timer_mm_alloc_flag = mm_alloc_flag\<rparr>) s
        in (RHINO_SUCCESS, s, if auto_run > 0 then snd (krhino_timer_start cb_msg timer k) else k))"

definition krhino_timer_create ::
  "u32 \<Rightarrow> oid \<Rightarrow> addr \<Rightarrow> addr \<Rightarrow> u64 \<Rightarrow> u64 \<Rightarrow> u32 \<Rightarrow> u8 \<Rightarrow> timer_sys \<Rightarrow> kernel \<Rightarrow> kstat \<times> timer_sys \<times> kernel" where
  "krhino_timer_create cb_msg timer name cb first round arg auto_run s k =
     timer_create cb_msg timer name cb first round arg auto_run K_OBJ_STATIC_ALLOC s k"

definition krhino_timer_dyn_create ::
  "u32 \<Rightarrow> oid \<Rightarrow> u32 \<Rightarrow> addr \<Rightarrow> addr \<Rightarrow> u64 \<Rightarrow> u64 \<Rightarrow> u32 \<Rightarrow> u8 \<Rightarrow> timer_sys \<Rightarrow> kernel \<Rightarrow> kstat \<times> timer_sys \<times> kernel" where
  "krhino_timer_dyn_create cb_msg timer_obj timer name cb first round arg auto_run s k =
     (if timer = 0 then (RHINO_NULL_PTR, s, k)
      else if first \<ge> MAX_TIMER_TICKS then (RHINO_INV_PARAM, s, k)
      else if round \<ge> MAX_TIMER_TICKS then (RHINO_INV_PARAM, s, k)
      else if timer_obj = NULL then (RHINO_NO_MEM, s, k)
      else
        let (ret, s, k) = timer_create cb_msg timer_obj name cb first round arg auto_run K_OBJ_DYN_ALLOC s k
        in if ret \<noteq> RHINO_SUCCESS then (ret, s\<lparr>timer_freed := timer_freed s @ [timer_obj]\<rparr>, k)
           else (ret, s, store32 timer (word_of_nat timer_obj) k))"

definition RHINO_CONFIG_TIMER_TASK_PRI :: nat where
  "RHINO_CONFIG_TIMER_TASK_PRI = 5"

definition RHINO_CONFIG_TIMER_MSG_NUM :: nat where
  "RHINO_CONFIG_TIMER_MSG_NUM = 20"

definition RHINO_CONFIG_TIMER_TASK_STACK_SIZE :: nat where
  "RHINO_CONFIG_TIMER_TASK_STACK_SIZE = 200"

definition g_timer_task :: tid where
  "g_timer_task = 3"

definition ktimer_init :: "timer_sys \<Rightarrow> kernel \<Rightarrow> timer_sys \<times> kernel" where
  "ktimer_init s k =
     (let s = s\<lparr>g_timer_head := []\<rparr>;
          k = snd (krhino_fix_buf_queue_create g_timer_queue const_addr
                (Some (replicate (sizeof_queue_cb * RHINO_CONFIG_TIMER_MSG_NUM) 0)) sizeof_queue_cb
                RHINO_CONFIG_TIMER_MSG_NUM k);
          k = snd (krhino_task_create g_timer_task const_addr RHINO_CONFIG_TIMER_TASK_PRI 0 const_addr
                RHINO_CONFIG_TIMER_TASK_STACK_SIZE const_addr 1 k)
      in (s, k))"

text \<open>The globals of the timers, with all memory zero.\<close>

definition zeroed_timers :: timer_sys where
  "zeroed_timers = \<lparr>timers = (\<lambda>_. \<lparr>to_head = False, timer_cb = 0, timer_cb_arg = 0, timer_match = 0,
       timer_remain = 0, init_count = 0, round_ticks = 0, timer_obj_type = RHINO_OBJ_TYPE_NONE,
       timer_state = TIMER_DEACTIVE, timer_mm_alloc_flag = 0\<rparr>),
     g_timer_head = [], g_timer_count = 0, cb_calls = [], timer_freed = [], timer_errs = [], timer_fault = False\<rparr>"

section \<open>The invariant\<close>

text \<open>A timer is on the list exactly when it is active; the list has every timer once.\<close>

definition timer_ok :: "timer_sys \<Rightarrow> bool" where
  "timer_ok s \<longleftrightarrow> distinct (g_timer_head s) \<and> \<not> timer_fault s \<and>
     (\<forall>t. (to_head (timers s t) \<longleftrightarrow> t \<in> set (g_timer_head s)) \<and>
        (timer_state (timers s t) = TIMER_ACTIVE \<longleftrightarrow> t \<in> set (g_timer_head s))) \<and>
     (\<forall>t \<in> set (g_timer_head s). timer_obj_type (timers s t) = RHINO_TIMER_OBJ_TYPE) \<and>
     timer_obj_type (timers s NULL) \<noteq> RHINO_TIMER_OBJ_TYPE"

lemma timer_okD:
  assumes "timer_ok s"
  shows "distinct (g_timer_head s)" and "\<not> timer_fault s" and "to_head (timers s t) \<longleftrightarrow> t \<in> set (g_timer_head s)"
    and "timer_state (timers s t) = TIMER_ACTIVE \<longleftrightarrow> t \<in> set (g_timer_head s)"
    and "t \<in> set (g_timer_head s) \<Longrightarrow> timer_obj_type (timers s t) = RHINO_TIMER_OBJ_TYPE"
    and "timer_obj_type (timers s t) = RHINO_TIMER_OBJ_TYPE \<Longrightarrow> t \<noteq> NULL"
    and "timer_obj_type (timers s NULL) \<noteq> RHINO_TIMER_OBJ_TYPE"
  using assms unfolding timer_ok_def by (auto, (metis gr0I)+)

lemma insert_before_cong: "(\<And>u. u \<in> set xs \<Longrightarrow> P u = Q u) \<Longrightarrow> insert_before P e xs = insert_before Q e xs"
  by (induction xs) auto

lemma upd_timer_sel [simp]:
  "timers (upd_timer t f s) = (timers s)(t := f (timers s t))" "g_timer_head (upd_timer t f s) = g_timer_head s"
  "g_timer_count (upd_timer t f s) = g_timer_count s" "cb_calls (upd_timer t f s) = cb_calls s"
  "timer_fault (upd_timer t f s) = (timer_fault s \<or> t = NULL)"
  by (simp_all add: upd_timer_def)

lemma timer_insert_sel [simp]:
  "timers (timer_list_pri_insert t s) = timers s" "g_timer_count (timer_list_pri_insert t s) = g_timer_count s"
  "cb_calls (timer_list_pri_insert t s) = cb_calls s" "timer_fault (timer_list_pri_insert t s) = timer_fault s"
  "g_timer_head (timer_list_pri_insert t s) =
    insert_before (\<lambda>u. timer_left s u > timer_remain (timers s t)) t (g_timer_head s)"
  by (simp_all add: timer_list_pri_insert_def Let_def)

lemma timer_rm_sel:
  assumes "timer_ok s" and "t \<in> set (g_timer_head s)"
  shows "timers (timer_list_rm t s) = (timers s)(t := (timers s t)\<lparr>to_head := False\<rparr>)"
    and "g_timer_head (timer_list_rm t s) = remove1 t (g_timer_head s)"
    and "g_timer_count (timer_list_rm t s) = g_timer_count s" and "cb_calls (timer_list_rm t s) = cb_calls s"
    and "timer_fault (timer_list_rm t s) = timer_fault s" and "t \<noteq> NULL"
proof -
  have h: "to_head (timers s t)" using timer_okD(3) [OF assms(1)] assms(2) by simp
  show "t \<noteq> NULL" using timer_okD(5,6) [OF assms(1)] assms(2) by blast
  then show "timers (timer_list_rm t s) = (timers s)(t := (timers s t)\<lparr>to_head := False\<rparr>)"
    "g_timer_head (timer_list_rm t s) = remove1 t (g_timer_head s)" "g_timer_count (timer_list_rm t s) = g_timer_count s"
    "cb_calls (timer_list_rm t s) = cb_calls s" "timer_fault (timer_list_rm t s) = timer_fault s"
    using h assms(2) by (simp_all add: timer_list_rm_def)
qed

text \<open>A timer that fires: its callback is called, then it is put back or deactivated.\<close>

definition rearmed :: "timer_sys \<Rightarrow> oid \<Rightarrow> ktimer" where
  "rearmed s t =
     (if round_ticks (timers s t) > 0
      then (timers s t)\<lparr>timer_remain := round_ticks (timers s t), timer_match := g_timer_count s + round_ticks (timers s t), to_head := True\<rparr>
      else (timers s t)\<lparr>to_head := False, timer_state := TIMER_DEACTIVE\<rparr>)"

lemma timer_fire_sel:
  assumes "timer_ok s" and "t \<in> set (g_timer_head s)"
  shows "timers (timer_fire t s) = (timers s)(t := rearmed s t)"
    and "g_timer_head (timer_fire t s) = (if round_ticks (timers s t) > 0
      then insert_before (\<lambda>u. timer_left s u > round_ticks (timers s t)) t (remove1 t (g_timer_head s))
      else remove1 t (g_timer_head s))"
    and "g_timer_count (timer_fire t s) = g_timer_count s"
    and "cb_calls (timer_fire t s) = cb_calls s @ [(t, timer_cb (timers s t), timer_cb_arg (timers s t))]"
    and "timer_fault (timer_fire t s) = timer_fault s"
proof -
  let ?s = "s\<lparr>cb_calls := cb_calls s @ [(t, timer_cb (timers s t), timer_cb_arg (timers s t))]\<rparr>"
  have "timer_ok ?s" "t \<in> set (g_timer_head ?s)" using assms by (simp_all add: timer_ok_def)
  note r = timer_rm_sel [OF this]
  have d: "t \<notin> set (remove1 t (g_timer_head s))" using timer_okD(1) [OF assms(1)] by simp
  show "timers (timer_fire t s) = (timers s)(t := rearmed s t)" "g_timer_count (timer_fire t s) = g_timer_count s"
    "cb_calls (timer_fire t s) = cb_calls s @ [(t, timer_cb (timers s t), timer_cb_arg (timers s t))]" "timer_fault (timer_fire t s) = timer_fault s"
    using r by (simp_all add: timer_fire_def rearmed_def Let_def)
  show "g_timer_head (timer_fire t s) = (if round_ticks (timers s t) > 0
      then insert_before (\<lambda>u. timer_left s u > round_ticks (timers s t)) t (remove1 t (g_timer_head s))
      else remove1 t (g_timer_head s))"
    using r d by (auto simp: timer_fire_def Let_def timer_left_def intro!: insert_before_cong)
qed

lemma timer_fire_ok:
  assumes "timer_ok s" and "t \<in> set (g_timer_head s)"
  shows "timer_ok (timer_fire t s)"
proof -
  note o = timer_okD [OF assms(1)] and f = timer_fire_sel [OF assms]
  have hd: "set (g_timer_head (timer_fire t s)) = (if round_ticks (timers s t) > 0 then set (g_timer_head s) else set (g_timer_head s) - {t})"
    "distinct (g_timer_head (timer_fire t s))"
    using o(1) assms(2) by (auto simp: f)
  have st: "timer_state (timers s t) = TIMER_ACTIVE" "timer_obj_type (timers s t) = RHINO_TIMER_OBJ_TYPE"
    using o(4,5) assms(2) by simp_all
  have "0 < t" using o(6) [OF st(2)] by simp
  then show ?thesis
    unfolding timer_ok_def using hd(2) o(1-5,7) st assms(2) by (simp add: f(1,5) hd(1) rearmed_def)
qed

lemma timer_ok_upd:
  assumes "timer_ok s" and "t \<noteq> NULL" and "to_head (f (timers s t)) = to_head (timers s t)"
    and "timer_state (f (timers s t)) = timer_state (timers s t)"
    and "t \<in> set (g_timer_head s) \<Longrightarrow> timer_obj_type (f (timers s t)) = RHINO_TIMER_OBJ_TYPE"
  shows "timer_ok (upd_timer t f s)"
  using assms(2-) timer_okD [OF assms(1)] unfolding timer_ok_def by auto

lemma timer_ok_fields [simp]:
  "timer_ok (s\<lparr>g_timer_count := n\<rparr>) = timer_ok s" "timer_ok (s\<lparr>timer_errs := es\<rparr>) = timer_ok s"
  "timer_ok (s\<lparr>timer_freed := fs\<rparr>) = timer_ok s"
  by (simp_all add: timer_ok_def)

lemma timer_start_ok:
  assumes "timer_ok s" and "timer_obj_type (timers s t) = RHINO_TIMER_OBJ_TYPE" and "timer_state (timers s t) \<noteq> TIMER_ACTIVE"
    and "\<And>x. timer_obj_type (f x) = timer_obj_type x" and "\<And>x. to_head (f x)"
  shows "timer_ok (upd_timer t (\<lambda>x. x\<lparr>timer_state := TIMER_ACTIVE\<rparr>) (timer_list_pri_insert t (upd_timer t f s)))"
proof -
  note o = timer_okD [OF assms(1)]
  have "t \<notin> set (g_timer_head s)" "t \<noteq> NULL" using o(4,6) assms(2,3) by blast+
  then show ?thesis unfolding timer_ok_def using o assms(2,4,5) by auto
qed

lemma timer_stop_ok:
  assumes "timer_ok s" and "timer_obj_type (timers s t) = RHINO_TIMER_OBJ_TYPE" and "timer_state (timers s t) = TIMER_ACTIVE"
  shows "timer_ok (upd_timer t (\<lambda>x. x\<lparr>timer_state := TIMER_DEACTIVE\<rparr>) (timer_list_rm t s))"
proof -
  note o = timer_okD [OF assms(1)]
  have t: "t \<in> set (g_timer_head s)" using o(4) assms(3) by blast
  note r = timer_rm_sel [OF assms(1) t]
  show ?thesis unfolding timer_ok_def using o r(6) assms(2) by (auto simp: r)
qed

lemma timer_ok_if: "(b \<Longrightarrow> timer_ok s) \<Longrightarrow> (\<not> b \<Longrightarrow> timer_ok s') \<Longrightarrow> timer_ok (if b then s else s')"
  by simp

lemma timer_deref_id [simp]: "timer \<noteq> NULL \<Longrightarrow> timer_deref timer s = s"
  by (simp add: timer_deref_def)

lemma cmd_proc_ok:
  assumes "timer_ok s" and nn: "cb_timer cb \<noteq> NULL"
  shows "timer_ok (cmd_proc cb cmd s)"
proof -
  let ?t = "cb_timer cb"
  have upd: "timer_ok (upd_timer ?t f s)"
    if "\<not> timer_obj_type (timers s ?t) \<noteq> RHINO_TIMER_OBJ_TYPE" "\<not> timer_state (timers s ?t) \<noteq> TIMER_DEACTIVE"
      "\<And>x. to_head (f x) = to_head x" "\<And>x. timer_state (f x) = timer_state x" for f
  proof (rule timer_ok_upd [OF assms(1)])
    show "?t \<noteq> NULL" using timer_okD(6) [OF assms(1)] that(1) by blast
    show "timer_obj_type (f (timers s ?t)) = RHINO_TIMER_OBJ_TYPE" if "?t \<in> set (g_timer_head s)"
      using timer_okD(4) [OF assms(1), of ?t] that \<open>\<not> timer_state (timers s ?t) \<noteq> TIMER_DEACTIVE\<close> by simp
  qed (simp_all add: that)
  have "timer_state (timers s ?t) = TIMER_ACTIVE" if "timer_state (timers s ?t) \<noteq> TIMER_DEACTIVE"
    using that by (cases "timer_state (timers s ?t)") simp_all
  then show ?thesis
    unfolding cmd_proc_def Let_def timer_deref_id [OF nn]
    by (intro timer_ok_if) (simp_all add: assms(1) upd timer_start_ok [OF assms(1)] timer_stop_ok [OF assms(1)])
qed

lemma timer_cmd_proc_ok: "timer_ok s \<Longrightarrow> cb_timer cb \<noteq> NULL \<Longrightarrow> timer_ok (timer_cmd_proc cb s)"
  by (simp add: timer_cmd_proc_def cmd_proc_ok)

section \<open>The loop over the timers that are due\<close>

lemma next_of_in: "next_of xs t = Some u \<Longrightarrow> u \<in> set xs"
  by (induction xs t rule: next_of.induct) (auto split: if_splits list.splits)

lemma next_of_other: "distinct xs \<Longrightarrow> next_of xs t = Some u \<Longrightarrow> u \<noteq> t"
  by (induction xs t rule: next_of.induct) (auto split: if_splits list.splits dest: next_of_in)

lemma first_of_in: "first_of xs = Some u \<Longrightarrow> u \<in> set xs"
  by (auto simp: first_of_def split: list.splits)

text \<open>The node the loop goes to next is on the list.\<close>

definition cb_next :: "oid \<Rightarrow> timer_sys \<Rightarrow> oid option" where
  "cb_next t s = (if round_ticks (timers s t) > 0 then next_of (g_timer_head (timer_fire t s)) t else next_of (g_timer_head s) t)"

lemma timer_cb_loop_None [simp]: "timer_cb_loop None s = Some s"
  by (subst timer_cb_loop.simps) simp

lemma timer_cb_loop_Some:
  "timer_cb_loop (Some t) s = (if timer_due s t then timer_cb_loop (cb_next t s) (timer_fire t s) else Some s)"
  by (subst timer_cb_loop.simps) (simp add: cb_next_def)

lemma cb_next_in:
  assumes "timer_ok s" and "t \<in> set (g_timer_head s)" and "cb_next t s = Some u"
  shows "u \<in> set (g_timer_head (timer_fire t s))"
proof (cases "round_ticks (timers s t) > 0")
  case True
  then show ?thesis using assms(3) by (simp add: cb_next_def next_of_in)
next
  case False
  then have n: "next_of (g_timer_head s) t = Some u" using assms(3) by (simp add: cb_next_def)
  have d: "distinct (g_timer_head s)" by (rule timer_okD(1) [OF assms(1)])
  show ?thesis
    using False next_of_in [OF n] next_of_other [OF d n] d by (simp add: timer_fire_sel(2) [OF assms(1,2)])
qed

lemma timer_cb_loop_ok:
  assumes "timer_cb_loop q s = Some s'" and "timer_ok s" and "\<And>t. q = Some t \<Longrightarrow> t \<in> set (g_timer_head s)"
  shows "timer_ok s'"
proof -
  have "timer_ok s \<and> (\<forall>t. q = Some t \<longrightarrow> t \<in> set (g_timer_head s)) \<longrightarrow> timer_ok s'"
  proof (rule timer_cb_loop.raw_induct [OF _ assms(1), where P =
      "\<lambda>q s s'. timer_ok s \<and> (\<forall>t. q = Some t \<longrightarrow> t \<in> set (g_timer_head s)) \<longrightarrow> timer_ok s'"], goal_cases)
    case (1 loop q s s')
    show ?case
    proof (cases q)
      case None
      then show ?thesis using 1(2) by simp
    next
      case (Some t)
      with 1(2) have c: "(if timer_due s t then loop (cb_next t s) (timer_fire t s) else Some s) = Some s'" unfolding cb_next_def by (simp split: if_splits)
      show ?thesis
      proof (intro impI, elim conjE)
        assume ok: "timer_ok s" and t: "\<forall>t. q = Some t \<longrightarrow> t \<in> set (g_timer_head s)"
        with Some have t: "t \<in> set (g_timer_head s)" by simp
        show "timer_ok s'"
          using c ok 1(1) [of "cb_next t s" "timer_fire t s" s'] timer_fire_ok [OF ok t] cb_next_in [OF ok t]
          by (auto split: if_splits)
      qed
    qed
  qed
  then show ?thesis using assms(2,3) by blast
qed

text \<open>With rounds shorter than half of the range of the clock a timer that has fired is no longer due,
  so the loop ends.\<close>

definition rounds_ok :: "timer_sys \<Rightarrow> bool" where
  "rounds_ok s \<longleftrightarrow> (\<forall>t \<in> set (g_timer_head s). round_ticks (timers s t) < 2 ^ 63)"

lemma sint_pos:
  fixes w :: u64
  assumes "0 < w" and "w < 2 ^ 63"
  shows "0 < sint w"
proof -
  have "0 < unat w" "unat w < 2 ^ 63" using assms by (simp_all add: word_less_nat_alt)
  then show ?thesis by (simp only: sint_unat of_nat_0_less_iff)
qed

lemma timer_fire_due:
  assumes "timer_ok s" and "t \<in> set (g_timer_head s)" and "round_ticks (timers s t) < 2 ^ 63"
  shows "{u \<in> set (g_timer_head (timer_fire t s)). timer_due (timer_fire t s) u} = {u \<in> set (g_timer_head s). timer_due s u} - {t}"
proof -
  note f = timer_fire_sel [OF assms(1,2)]
  have other: "timer_due (timer_fire t s) u = timer_due s u" if "u \<noteq> t" for u using that by (simp add: timer_due_def f)
  have "\<not> timer_due (timer_fire t s) t" if "round_ticks (timers s t) > 0"
    using sint_pos [OF that assms(3)] that by (simp add: timer_due_def f rearmed_def)
  with other show ?thesis using timer_okD(1) [OF assms(1)] assms(2) by (cases "round_ticks (timers s t) > 0") (auto simp: f(2), (metis)+)
qed

lemma rounds_ok_fire: "timer_ok s \<Longrightarrow> t \<in> set (g_timer_head s) \<Longrightarrow> rounds_ok s \<Longrightarrow> rounds_ok (timer_fire t s)"
  by (auto simp: rounds_ok_def timer_fire_sel rearmed_def split: if_splits dest: set_remove1_subset [THEN subsetD])

lemma timer_cb_loop_returns:
  assumes "timer_ok s" and "rounds_ok s" and "\<And>t. q = Some t \<Longrightarrow> t \<in> set (g_timer_head s)"
  shows "\<exists>s'. timer_cb_loop q s = Some s'"
  using assms
proof (induction "card {u \<in> set (g_timer_head s). timer_due s u}" arbitrary: q s rule: less_induct)
  case less
  show ?case
  proof (cases q)
    case (Some t)
    then have t: "t \<in> set (g_timer_head s)" using less.prems(3) by simp
    show ?thesis
    proof (cases "timer_due s t")
      case True
      have "round_ticks (timers s t) < 2 ^ 63" using less.prems(2) t by (simp add: rounds_ok_def)
      note d = timer_fire_due [OF less.prems(1) t this]
      have "card ({u \<in> set (g_timer_head s). timer_due s u} - {t}) < card {u \<in> set (g_timer_head s). timer_due s u}"
        using t True by (intro card_Diff1_less) auto
      then have "\<exists>s'. timer_cb_loop (cb_next t s) (timer_fire t s) = Some s'"
        by (intro less.hyps timer_fire_ok rounds_ok_fire cb_next_in) (use less.prems t d in simp_all)
      then show ?thesis using True Some by (simp add: timer_cb_loop_Some)
    qed (simp add: Some timer_cb_loop_Some)
  qed simp
qed

lemma timer_cb_proc_ok: "timer_cb_proc s = Some s' \<Longrightarrow> timer_ok s \<Longrightarrow> timer_ok s'"
  unfolding timer_cb_proc_def by (erule timer_cb_loop_ok) (auto intro: first_of_in)

lemma timer_cb_proc_returns: "timer_ok s \<Longrightarrow> rounds_ok s \<Longrightarrow> \<exists>s'. timer_cb_proc s = Some s'"
  unfolding timer_cb_proc_def by (rule timer_cb_loop_returns) (auto intro: first_of_in)

section \<open>On time\<close>

text \<open>
  When the timer task runs in time, no active timer is overdue: a timer is due when no time is left,
  and the list is ordered by the time that is left.
\<close>

definition on_time :: "timer_sys \<Rightarrow> bool" where
  "on_time s \<longleftrightarrow> timer_ok s \<and> rounds_ok s \<and> sorted (map (timer_left s) (g_timer_head s)) \<and>
     (\<forall>t \<in> set (g_timer_head s). timer_left s t < 2 ^ 63)"

lemma on_time_due:
  assumes "on_time s" and "t \<in> set (g_timer_head s)"
  shows "timer_due s t \<longleftrightarrow> timer_left s t = 0"
proof (cases "timer_left s t = 0")
  case False
  then have "0 < sint (timer_left s t)" using assms by (intro sint_pos) (simp_all add: on_time_def word_greater_zero_iff)
  then show ?thesis using False by (simp add: timer_due_def timer_left_def)
qed (simp add: timer_due_def timer_left_def)

lemma fire_first:
  assumes "on_time s" and "g_timer_head s = t # ts" and "timer_left s t = 0"
  shows "on_time (timer_fire t s)"
    and "g_timer_head (timer_fire t s) = (if round_ticks (timers s t) > 0
      then insert_before (\<lambda>u. timer_left s u > round_ticks (timers s t)) t ts else ts)"
    and "u \<noteq> t \<Longrightarrow> timer_left (timer_fire t s) u = timer_left s u"
    and "round_ticks (timers s t) > 0 \<Longrightarrow> timer_left (timer_fire t s) t = round_ticks (timers s t)"
proof -
  have o: "timer_ok s" "t \<in> set (g_timer_head s)" "rounds_ok s" using assms(1,2) by (simp_all add: on_time_def)
  note f = timer_fire_sel [OF o(1,2)]
  have d: "t \<notin> set ts" using timer_okD(1) [OF o(1)] assms(2) by simp
  show h: "g_timer_head (timer_fire t s) = (if round_ticks (timers s t) > 0
      then insert_before (\<lambda>u. timer_left s u > round_ticks (timers s t)) t ts else ts)"
    by (simp add: f(2) assms(2))
  show l: "timer_left (timer_fire t s) u = timer_left s u" if "u \<noteq> t" for u using that by (simp add: timer_left_def f)
  show l': "round_ticks (timers s t) > 0 \<Longrightarrow> timer_left (timer_fire t s) t = round_ticks (timers s t)"
    by (simp add: timer_left_def f rearmed_def)
  have lt: "timer_left (timer_fire t s) u = timer_left s u" if "u \<in> set ts" for u using l d that by metis
  have ts: "sorted (map (timer_left (timer_fire t s)) ts)"
  proof -
    have eq: "map (timer_left (timer_fire t s)) ts = map (timer_left s) ts" by (simp add: lt)
    show ?thesis unfolding eq using assms(1,2) by (simp add: on_time_def)
  qed
  have "sorted (map (timer_left (timer_fire t s)) (g_timer_head (timer_fire t s)))"
  proof (cases "round_ticks (timers s t) > 0")
    case True
    have "insert_before (\<lambda>u. timer_left s u > round_ticks (timers s t)) t ts =
        insert_before (\<lambda>u. timer_left (timer_fire t s) u > timer_left (timer_fire t s) t) t ts"
      using lt l' [OF True] by (intro insert_before_cong) simp
    then show ?thesis using True sorted_insert_before [OF ts] by (simp add: h)
  qed (simp add: h ts)
  moreover have "\<forall>u \<in> set (g_timer_head (timer_fire t s)). timer_left (timer_fire t s) u < 2 ^ 63"
  proof
    fix u assume u: "u \<in> set (g_timer_head (timer_fire t s))"
    show "timer_left (timer_fire t s) u < 2 ^ 63"
    proof (cases "u = t")
      case True
      then have "round_ticks (timers s t) > 0" using u d by (simp add: h split: if_splits)
      then show ?thesis using l' True o(3) assms(2) by (simp add: rounds_ok_def)
    next
      case False
      then have "u \<in> set ts" using u by (simp add: h split: if_splits)
      then show ?thesis using l [OF False] assms(1,2) by (simp add: on_time_def)
    qed
  qed
  ultimately show "on_time (timer_fire t s)"
    using timer_fire_ok [OF o(1,2)] rounds_ok_fire [OF o(1,2,3)] by (simp add: on_time_def)
qed

text \<open>Firing all timers that are due, in the order of the list.\<close>

lemma insert_before_append: "(\<And>u. u \<in> set xs \<Longrightarrow> \<not> P u) \<Longrightarrow> insert_before P e (xs @ ys) = xs @ insert_before P e ys"
  by (induction xs) auto

lemma fire_head:
  assumes "on_time s" and "g_timer_head s = t # ds @ rest" and "timer_left s t = 0"
    and "\<forall>u \<in> set ds. timer_left s u = 0" and "\<forall>u \<in> set rest. timer_left s u \<noteq> 0"
  obtains rest' where "g_timer_head (timer_fire t s) = ds @ rest'" and "\<forall>u \<in> set ds. timer_left (timer_fire t s) u = 0"
    and "\<forall>u \<in> set rest'. timer_left (timer_fire t s) u \<noteq> 0"
    and "set rest' = (if round_ticks (timers s t) = 0 then set rest else insert t (set rest))"
proof -
  note f = fire_first [OF assms(1-3)]
  have d: "t \<notin> set ds" "t \<notin> set rest" using assms(1,2) timer_okD(1) [of s] by (auto simp: on_time_def)
  have nt: "timer_left (timer_fire t s) u = timer_left s u" if "u \<in> set ds \<union> set rest" for u
    by (rule f(3)) (use that d in auto)
  define rest' where "rest' = (if round_ticks (timers s t) > 0
      then insert_before (\<lambda>u. timer_left s u > round_ticks (timers s t)) t rest else rest)"
  show thesis
  proof (rule that)
    show "g_timer_head (timer_fire t s) = ds @ rest'"
      using f(2) assms(4) by (simp add: rest'_def insert_before_append)
    show "\<forall>u \<in> set rest'. timer_left (timer_fire t s) u \<noteq> 0" using f(4) nt assms(5) by (auto simp: rest'_def)
    show "\<forall>u \<in> set ds. timer_left (timer_fire t s) u = 0" using nt assms(4) by simp
    show "set rest' = (if round_ticks (timers s t) = 0 then set rest else insert t (set rest))"
      by (simp add: rest'_def word_greater_zero_iff)
  qed
qed

lemma fire_all:
  assumes "on_time s" and "g_timer_head s = ds @ rest" and "\<forall>t \<in> set ds. timer_left s t = 0" and "\<forall>t \<in> set rest. timer_left s t \<noteq> 0"
  defines "s' \<equiv> fold timer_fire ds s"
  shows "on_time s' \<and> g_timer_count s' = g_timer_count s \<and>
    cb_calls s' = cb_calls s @ map (\<lambda>t. (t, timer_cb (timers s t), timer_cb_arg (timers s t))) ds \<and>
    (\<forall>t. timers s' t = (if t \<in> set ds then rearmed s t else timers s t)) \<and>
    (\<forall>t \<in> set (g_timer_head s'). timer_left s' t \<noteq> 0) \<and>
    set (g_timer_head s') = set (g_timer_head s) - {t \<in> set ds. round_ticks (timers s t) = 0}"
  using assms(1-4) unfolding s'_def
proof (induction ds arbitrary: s rest)
  case Nil
  then show ?case by auto
next
  case (Cons t ds)
  have l: "timer_left s t = 0" "g_timer_head s = t # ds @ rest" using Cons.prems by simp_all
  note f = fire_first [OF Cons.prems(1) l(2,1)]
  have o: "timer_ok s" "t \<in> set (g_timer_head s)" using Cons.prems(1) l(2) by (simp_all add: on_time_def)
  note fs = timer_fire_sel [OF o]
  have d: "t \<notin> set ds" "t \<notin> set rest" "distinct ds" "set ds \<inter> set rest = {}" using timer_okD(1) [OF o(1)] l(2) by auto
  obtain rest' where hd: "g_timer_head (timer_fire t s) = ds @ rest'" and ds0: "\<forall>u \<in> set ds. timer_left (timer_fire t s) u = 0"
    and r': "\<forall>u \<in> set rest'. timer_left (timer_fire t s) u \<noteq> 0"
    and st: "set rest' = (if round_ticks (timers s t) = 0 then set rest else insert t (set rest))"
    by (rule fire_head [OF Cons.prems(1) l(2,1), of]) (use Cons.prems(3,4) in simp_all)
  note IH = Cons.IH [OF f(1) hd ds0 r']
  have re: "rearmed (timer_fire t s) u = rearmed s u" if "u \<noteq> t" for u using that by (simp add: rearmed_def fs)
  have rt: "round_ticks (timers (timer_fire t s) u) = round_ticks (timers s u)" for u by (simp add: fs rearmed_def)
  have arg: "map (\<lambda>u. (u, timer_cb (timers (timer_fire t s) u), timer_cb_arg (timers (timer_fire t s) u))) ds = map (\<lambda>u. (u, timer_cb (timers s u), timer_cb_arg (timers s u))) ds"
    by (simp add: fs(1) rearmed_def)
  show ?case
  proof (intro conjI)
    show "on_time (fold timer_fire (t # ds) s)" "g_timer_count (fold timer_fire (t # ds) s) = g_timer_count s"
      "\<forall>u \<in> set (g_timer_head (fold timer_fire (t # ds) s)). timer_left (fold timer_fire (t # ds) s) u \<noteq> 0"
      using IH by (simp_all add: fs(3))
    show "cb_calls (fold timer_fire (t # ds) s) = cb_calls s @ map (\<lambda>t. (t, timer_cb (timers s t), timer_cb_arg (timers s t))) (t # ds)"
      using IH by (simp add: fs(4) arg)
    show "\<forall>u. timers (fold timer_fire (t # ds) s) u = (if u \<in> set (t # ds) then rearmed s u else timers s u)"
    proof -
      have "rearmed (timer_fire t s) u = rearmed s u" if "u \<in> set ds" for u using re [of u] that d(1) by metis
      then show ?thesis using IH d(1) by (simp add: fs(1))
    qed
    have "set (g_timer_head (fold timer_fire (t # ds) s)) = set ds \<union> set rest' - {u \<in> set ds. round_ticks (timers s u) = 0}"
      using IH by (simp add: hd rt)
    then show "set (g_timer_head (fold timer_fire (t # ds) s)) = set (g_timer_head s) - {u \<in> set (t # ds). round_ticks (timers s u) = 0}"
      using d l(2) st by auto
  qed
qed

lemma next_of_insert_before: "t \<notin> set ts \<Longrightarrow> next_of (insert_before P t ts) t = Some u \<Longrightarrow> P u \<and> u \<in> set ts"
  by (induction ts) (auto split: if_splits)

text \<open>One pass of the loop fires at least the first timer that is due.\<close>

lemma cb_pass:
  assumes "on_time s" and "g_timer_head s = t # ts" and "timer_left s t = 0"
  shows "\<exists>i. timer_cb_loop (Some t) s = Some (fold timer_fire (take (Suc i) (takeWhile (\<lambda>u. timer_left s u = 0) (t # ts))) s)"
  using assms
proof (induction ts arbitrary: t s)
  case Nil
  note f = fire_first [OF Nil.prems]
  have due: "timer_due s t" using Nil.prems on_time_due [of s t] by simp
  have "cb_next t s = None" using Nil.prems(2) f(2) by (simp add: cb_next_def)
  then show ?case using due Nil.prems(3) by (simp add: timer_cb_loop_Some)
next
  case (Cons u us)
  note f = fire_first [OF Cons.prems]
  have due: "timer_due s t" using Cons.prems on_time_due [of s t] by simp
  have o: "timer_ok s" "t \<in> set (g_timer_head s)" using Cons.prems(1,2) by (simp_all add: on_time_def)
  have d: "t \<notin> set (u # us)" using timer_okD(1) [OF o(1)] Cons.prems(2) by simp
  show ?case
  proof (cases "round_ticks (timers s t) > 0")
    case True
    have "timer_cb_loop (cb_next t s) (timer_fire t s) = Some (timer_fire t s)"
    proof (cases "cb_next t s")
      case (Some v)
      then have v: "timer_left s v > round_ticks (timers s t)" "v \<noteq> t" "v \<in> set (u # us)"
        using next_of_insert_before [OF d, of "\<lambda>w. timer_left s w > round_ticks (timers s t)" v] True d
        by (auto simp: cb_next_def f(2) simp del: insert_before_Cons)
      have "v \<in> set (g_timer_head (timer_fire t s))" by (rule cb_next_in [OF o Some])
      then have "\<not> timer_due (timer_fire t s) v" using on_time_due [OF f(1)] f(3) [OF v(2)] v(1) by auto
      then show ?thesis using Some by (simp add: timer_cb_loop_Some)
    qed simp
    then have "timer_cb_loop (Some t) s = Some (fold timer_fire (take (Suc 0) (takeWhile (\<lambda>u. timer_left s u = 0) (t # u # us))) s)"
      using due Cons.prems(3) by (simp add: timer_cb_loop_Some)
    then show ?thesis by blast
  next
    case False
    then have n: "cb_next t s = Some u" "g_timer_head (timer_fire t s) = u # us"
      using Cons.prems(2) f(2) by (simp_all add: cb_next_def)
    have lu: "timer_left (timer_fire t s) v = timer_left s v" if "v \<in> set (u # us)" for v using f(3) that d by metis
    show ?thesis
    proof (cases "timer_left s u = 0")
      case True
      have tw: "takeWhile (\<lambda>v. timer_left (timer_fire t s) v = 0) (u # us) = takeWhile (\<lambda>v. timer_left s v = 0) (u # us)"
        by (rule takeWhile_cong) (simp_all add: lu)
      obtain i where "timer_cb_loop (Some u) (timer_fire t s) =
          Some (fold timer_fire (take (Suc i) (takeWhile (\<lambda>v. timer_left s v = 0) (u # us))) (timer_fire t s))"
        using Cons.IH [OF f(1) n(2)] True lu [of u] unfolding tw by auto
      then have "timer_cb_loop (Some t) s =
          Some (fold timer_fire (take (Suc (Suc i)) (takeWhile (\<lambda>u. timer_left s u = 0) (t # u # us))) s)"
        using due Cons.prems(3) by (simp add: timer_cb_loop_Some n(1))
      then show ?thesis by blast
    next
      case nz: False
      then have "\<not> timer_due (timer_fire t s) u" using on_time_due [OF f(1), of u] n(2) lu [of u] by simp
      then have "timer_cb_loop (Some t) s = Some (fold timer_fire (take (Suc 0) (takeWhile (\<lambda>u. timer_left s u = 0) (t # u # us))) s)"
        using due Cons.prems(3) by (simp add: timer_cb_loop_Some n(1))
      then show ?thesis by blast
    qed
  qed
qed

text \<open>The inner loop of the timer task while the clock stands still.\<close>

primrec timer_rounds :: "nat \<Rightarrow> timer_sys \<Rightarrow> timer_sys option" where
  "timer_rounds 0 s = Some s"
| "timer_rounds (Suc n) s =
     (case timer_task_inner (g_timer_count s) Timed_out (g_timer_count s) s of
        None \<Rightarrow> None | Some s' \<Rightarrow> timer_rounds n s')"

lemma inner_due:
  assumes "g_timer_head s = t # ts" and "timer_due s t"
  shows "timer_task_inner (g_timer_count s) r e s = timer_cb_loop (Some t) s"
  using assms by (simp add: timer_task_inner_def timer_cb_proc_def first_of_def timer_due_def)

lemma sorted_zero_split:
  fixes f :: "'a \<Rightarrow> 'b::len word"
  assumes "sorted (map f xs)"
  shows "takeWhile (\<lambda>t. f t = 0) xs = filter (\<lambda>t. f t = 0) xs" and "\<forall>t \<in> set (dropWhile (\<lambda>t. f t = 0) xs). f t \<noteq> 0"
proof -
  have "takeWhile (\<lambda>t. f t = 0) xs = filter (\<lambda>t. f t = 0) xs \<and> (\<forall>t \<in> set (dropWhile (\<lambda>t. f t = 0) xs). f t \<noteq> 0)"
    using assms
  proof (induction xs)
    case (Cons x xs)
    have "sorted (map f xs)" using Cons.prems by simp
    note IH = Cons.IH [OF this]
    show ?case
    proof (cases "f x = 0")
      case True
      then show ?thesis using IH by (simp only: takeWhile.simps dropWhile.simps filter.simps if_True simp_thms) blast
    next
      case False
      have nz: "f u \<noteq> 0" if "u \<in> set xs" for u
      proof
        assume z: "f u = 0"
        have "f x \<le> f u" using Cons.prems that by simp
        then show False using False unfolding z by (simp add: word_le_nat_alt unat_eq_zero)
      qed
      then have "filter (\<lambda>t. f t = 0) xs = []" by (simp only: filter_empty_conv) blast
      then show ?thesis using False nz by simp
    qed
  qed simp
  then show "takeWhile (\<lambda>t. f t = 0) xs = filter (\<lambda>t. f t = 0) xs" and "\<forall>t \<in> set (dropWhile (\<lambda>t. f t = 0) xs). f t \<noteq> 0"
    by blast+
qed

lemma split_due:
  assumes "on_time s"
  obtains rest where "g_timer_head s = [t \<leftarrow> g_timer_head s. timer_due s t] @ rest" and "\<forall>t \<in> set rest. timer_left s t \<noteq> 0"
    and "\<forall>t \<in> set [t \<leftarrow> g_timer_head s. timer_due s t]. timer_left s t = 0"
    and "takeWhile (\<lambda>t. timer_left s t = 0) (g_timer_head s) = [t \<leftarrow> g_timer_head s. timer_due s t]"
proof -
  have srt: "sorted (map (timer_left s) (g_timer_head s))" using assms by (simp add: on_time_def)
  have eq: "filter (\<lambda>t. timer_left s t = 0) (g_timer_head s) = [t \<leftarrow> g_timer_head s. timer_due s t]"
    by (rule filter_cong) (simp_all add: on_time_due [OF assms])
  note z = sorted_zero_split [OF srt, unfolded eq]
  show thesis
  proof (rule that)
    show "g_timer_head s = [t \<leftarrow> g_timer_head s. timer_due s t] @ dropWhile (\<lambda>t. timer_left s t = 0) (g_timer_head s)"
      using takeWhile_dropWhile_id [of "\<lambda>t. timer_left s t = 0" "g_timer_head s"] by (simp only: z(1))
    show "\<forall>t \<in> set [t \<leftarrow> g_timer_head s. timer_due s t]. timer_left s t = 0" using on_time_due [OF assms] by auto
  qed (rule z)+
qed

lemma fire_prefix:
  assumes "on_time s" and "[t \<leftarrow> g_timer_head s. timer_due s t] = xs @ ys"
  shows "on_time (fold timer_fire xs s) \<and> [t \<leftarrow> g_timer_head (fold timer_fire xs s). timer_due (fold timer_fire xs s) t] = ys"
  using assms
proof (induction xs arbitrary: s)
  case (Cons t ts)
  obtain rest where r: "g_timer_head s = [t \<leftarrow> g_timer_head s. timer_due s t] @ rest" "\<forall>t \<in> set rest. timer_left s t \<noteq> 0"
    "\<forall>t \<in> set [t \<leftarrow> g_timer_head s. timer_due s t]. timer_left s t = 0"
    by (rule split_due [OF Cons.prems(1)])
  have hd: "g_timer_head s = t # (ts @ ys) @ rest" "timer_left s t = 0" "\<forall>u \<in> set (ts @ ys). timer_left s u = 0"
    using r(1,3) Cons.prems(2) by simp_all
  obtain rest' where n: "g_timer_head (timer_fire t s) = (ts @ ys) @ rest'" "\<forall>u \<in> set (ts @ ys). timer_left (timer_fire t s) u = 0"
    "\<forall>u \<in> set rest'. timer_left (timer_fire t s) u \<noteq> 0"
    by (rule fire_head [OF Cons.prems(1) hd(1,2,3) r(2)])
  have o: "on_time (timer_fire t s)" by (rule fire_first(1) [OF Cons.prems(1) hd(1,2)])
  have "[u \<leftarrow> g_timer_head (timer_fire t s). timer_due (timer_fire t s) u] = filter (\<lambda>u. timer_left (timer_fire t s) u = 0) (g_timer_head (timer_fire t s))"
    by (rule filter_cong) (simp_all add: on_time_due [OF o])
  also have "\<dots> = ts @ ys"
    unfolding n(1) filter_append using n(2,3) by (simp add: filter_empty_conv filter_id_conv)
  finally show ?case using Cons.IH [OF o] by simp
qed simp

lemma rounds_fire_all:
  assumes "on_time s" and "ds = [t \<leftarrow> g_timer_head s. timer_due s t]"
  shows "\<exists>n. timer_rounds n s = Some (fold timer_fire ds s)"
  using assms
proof (induction "length ds" arbitrary: ds s rule: less_induct)
  case less
  show ?case
  proof (cases ds)
    case Nil
    then have "timer_rounds 0 s = Some (fold timer_fire ds s)" by simp
    then show ?thesis by blast
  next
    case (Cons t ts)
    obtain rest where sp: "g_timer_head s = ds @ rest" "\<forall>t \<in> set ds. timer_left s t = 0"
      "takeWhile (\<lambda>t. timer_left s t = 0) (g_timer_head s) = ds"
      by (rule split_due [OF less.prems(1), folded less.prems(2)])
    have hd: "g_timer_head s = t # ts @ rest" "timer_left s t = 0" using sp(1,2) Cons by simp_all
    then have due: "timer_due s t" using on_time_due [OF less.prems(1)] by simp
    obtain i where i: "timer_cb_loop (Some t) s = Some (fold timer_fire (take (Suc i) ds) s)"
      using cb_pass [OF less.prems(1) hd] sp(3) hd(1) by auto
    define s1 where "s1 = fold timer_fire (take (Suc i) ds) s"
    have s1: "on_time s1" "[t \<leftarrow> g_timer_head s1. timer_due s1 t] = drop (Suc i) ds"
      using fire_prefix [OF less.prems(1), of "take (Suc i) ds" "drop (Suc i) ds"] less.prems(2) by (simp_all add: s1_def)
    have "length (drop (Suc i) ds) < length ds" using Cons by simp
    then obtain n where n: "timer_rounds n s1 = Some (fold timer_fire (drop (Suc i) ds) s1)"
      using less.hyps [OF _ s1(1) s1(2) [symmetric]] by blast
    have "fold timer_fire (drop (Suc i) ds) s1 = fold timer_fire ds s"
      unfolding s1_def by (metis append_take_drop_id comp_apply fold_append)
    then have "timer_rounds (Suc n) s = Some (fold timer_fire ds s)"
      using n inner_due [OF hd(1) due] i by (simp add: s1_def)
    then show ?thesis by blast
  qed
qed

section \<open>What holds\<close>

text \<open>
  The timer task with its timers: the commands it executes name a timer, as those do that the calls of the
  clients send. After a failed receive the task executes what its message buffer holds, which is taken to
  be such a command too.
\<close>

fun names_timer :: "recv \<Rightarrow> bool" where
  "names_timer (Got cb) \<longleftrightarrow> cb_timer cb \<noteq> NULL"
| "names_timer (Failed cb) \<longleftrightarrow> cb_timer cb \<noteq> NULL"
| "names_timer Timed_out \<longleftrightarrow> True"

inductive timers_reachable :: "timer_sys \<Rightarrow> bool" where
  init: "timers_reachable (fst (ktimer_init zeroed_timers k))"
| create: "timers_reachable s \<Longrightarrow> timer \<notin> set (g_timer_head s) \<Longrightarrow>
    timers_reachable (fst (snd (timer_create cb_msg timer name cb first round arg auto_run flag s k)))"
| outer: "timers_reachable s \<Longrightarrow> names_timer r \<Longrightarrow> timers_reachable (timer_task_outer r tick_end s)"
| inner: "timers_reachable s \<Longrightarrow> names_timer r \<Longrightarrow> timer_task_inner tick_start r tick_end s = Some s' \<Longrightarrow> timers_reachable s'"

lemma timer_create_ok:
  assumes "timer_ok s" and "timer \<notin> set (g_timer_head s)"
  shows "timer_ok (fst (snd (timer_create cb_msg timer name cb first round arg auto_run flag s k)))"
  using assms(2) assms(1) timer_okD [OF assms(1)]
  by (auto simp: timer_create_def Let_def timer_ok_def)

lemma timers_reachable_ok: "timers_reachable s \<Longrightarrow> timer_ok s"
proof (induction rule: timers_reachable.induct)
  case (init k)
  then show ?case by (simp add: ktimer_init_def zeroed_timers_def timer_ok_def Let_def)
next
  case (create s timer cb_msg name cb first round arg auto_run flag k)
  then show ?case by (intro timer_create_ok)
next
  case (outer s r tick_end)
  then show ?case by (auto simp: timer_task_outer_def timer_cmd_proc_ok split: recv.split)
next
  case (inner s tick_start r tick_end s')
  then show ?case
    by (auto simp: timer_task_inner_def timer_cmd_proc_ok timer_cb_proc_ok split: list.splits recv.splits if_splits)
qed

text \<open>
  C33. Timers: whatever commands the timer task executes, each for some timer, and however late it runs, its list
  holds exactly the active timers, each once; no null pointer is followed and no timer is
  unlinked that is not on the list.
\<close>

theorem timers_consistent:
  assumes "timers_reachable s"
  shows "distinct (g_timer_head s) \<and> \<not> timer_fault s \<and>
    set (g_timer_head s) = {t. timer_state (timers s t) = TIMER_ACTIVE} \<and>
    (\<forall>t \<in> set (g_timer_head s). timer_obj_type (timers s t) = RHINO_TIMER_OBJ_TYPE \<and> t \<noteq> NULL)"
  using timer_okD [OF timers_reachable_ok [OF assms]] by auto

text \<open>
  C32. When no timer is overdue, the inner loop of the timer task, run at one tick, calls the callback of
  every timer that is due, once, in the order of the list, and of no other; a periodic timer is due
  again one round later, a one-shot timer is deactivated, and the list stays ordered.
\<close>

theorem timers_fire:
  assumes "timer_ok s" and "rounds_ok s" and "sorted (map (timer_left s) (g_timer_head s))"
    and "\<forall>t \<in> set (g_timer_head s). timer_left s t < 2 ^ 63"
  shows "\<exists>n s'. timer_rounds n s = Some s' \<and>
    cb_calls s' = cb_calls s @ [(t, timer_cb (timers s t), timer_cb_arg (timers s t)). t \<leftarrow> g_timer_head s, timer_left s t = 0] \<and>
    (\<forall>t \<in> set (g_timer_head s). timer_left s t = 0 \<longrightarrow>
       (if round_ticks (timers s t) > 0 then t \<in> set (g_timer_head s') \<and> timer_left s' t = round_ticks (timers s t)
        else t \<notin> set (g_timer_head s') \<and> timer_state (timers s' t) = TIMER_DEACTIVE)) \<and>
    (\<forall>t. t \<notin> set (g_timer_head s) \<or> timer_left s t \<noteq> 0 \<longrightarrow> timers s' t = timers s t) \<and>
    (\<forall>t \<in> set (g_timer_head s'). timer_left s' t \<noteq> 0) \<and> sorted (map (timer_left s') (g_timer_head s'))"
proof -
  have o: "on_time s" using assms by (simp add: on_time_def)
  let ?ds = "[t \<leftarrow> g_timer_head s. timer_due s t]"
  obtain rest where sp: "g_timer_head s = ?ds @ rest" "\<forall>t \<in> set rest. timer_left s t \<noteq> 0" "\<forall>t \<in> set ?ds. timer_left s t = 0"
    by (rule split_due [OF o])
  obtain n where n: "timer_rounds n s = Some (fold timer_fire ?ds s)" using rounds_fire_all [OF o refl] by blast
  define s' where "s' = fold timer_fire ?ds s"
  note f = fire_all [OF o sp(1,3,2), folded s'_def]
  have ds: "t \<in> set ?ds \<longleftrightarrow> t \<in> set (g_timer_head s) \<and> timer_left s t = 0" for t using on_time_due [OF o, of t] by auto
  have calls: "[(t, timer_cb (timers s t), timer_cb_arg (timers s t)). t \<leftarrow> g_timer_head s, timer_left s t = 0] = map (\<lambda>t. (t, timer_cb (timers s t), timer_cb_arg (timers s t))) ?ds"
  proof -
    have "?ds = filter (\<lambda>t. timer_left s t = 0) (g_timer_head s)" by (rule filter_cong) (simp_all add: on_time_due [OF o])
    moreover have "concat (map (\<lambda>t. if P t then [g t] else []) xs) = map g (filter P xs)" for P xs and g :: "oid \<Rightarrow> oid \<times> addr \<times> u32"
      by (induction xs) auto
    ultimately show ?thesis by simp
  qed
  show ?thesis
  proof (intro exI conjI ballI allI impI)
    show "timer_rounds n s = Some s'" by (simp add: n s'_def)
    show "cb_calls s' = cb_calls s @ [(t, timer_cb (timers s t), timer_cb_arg (timers s t)). t \<leftarrow> g_timer_head s, timer_left s t = 0]"
      unfolding calls using f by blast
    show "sorted (map (timer_left s') (g_timer_head s'))" using f by (simp add: on_time_def)
    show "timer_left s' t \<noteq> 0" if "t \<in> set (g_timer_head s')" for t using f that by blast
    show "timers s' t = timers s t" if "t \<notin> set (g_timer_head s) \<or> timer_left s t \<noteq> 0" for t
    proof -
      have "t \<notin> set ?ds" using that ds by blast
      moreover have "timers s' t = (if t \<in> set ?ds then rearmed s t else timers s t)" using f by blast
      ultimately show ?thesis by (simp only: if_False)
    qed
    show "if round_ticks (timers s t) > 0 then t \<in> set (g_timer_head s') \<and> timer_left s' t = round_ticks (timers s t)
        else t \<notin> set (g_timer_head s') \<and> timer_state (timers s' t) = TIMER_DEACTIVE"
      if "t \<in> set (g_timer_head s)" "timer_left s t = 0" for t
      using f that ds [of t] by (simp add: timer_left_def rearmed_def word_greater_zero_iff)
  qed
qed

text \<open>
  C35. A command to start a timer that reaches the timer task when the first timer of the list is overdue
  puts the new timer in front of it, because the times that are left are compared without sign:
  the pass that follows stops at the new timer and calls no callback, and the task goes on to wait
  for the new timer.
\<close>

theorem timer_start_overtakes:
  assumes "timer_ok s" and "g_timer_head s = u # us" and "timer_due s u" and "timer_left s u > init_count (timers s t)"
    and "timer_obj_type (timers s t) = RHINO_TIMER_OBJ_TYPE" and "timer_state (timers s t) = TIMER_DEACTIVE"
    and "0 < init_count (timers s t)" and "init_count (timers s t) < 2 ^ 63"
    and "cb_timer cb = t" and "cb_num cb = TIMER_CMD_START"
  shows "g_timer_head (timer_cmd_proc cb s) = t # u # us \<and> timer_due (timer_cmd_proc cb s) u \<and>
    timer_cb_proc (timer_cmd_proc cb s) = Some (timer_cmd_proc cb s)"
proof -
  note o = timer_okD [OF assms(1)]
  have ut: "u \<noteq> t" "t \<noteq> NULL" using o(4) [of u] o(6) assms(2,5,6) by auto
  define s' where "s' = timer_cmd_proc cb s"
  have s': "g_timer_head s' = t # u # us" "timer_due s' u" "g_timer_count s' = g_timer_count s"
    "timer_match (timers s' t) = g_timer_count s + init_count (timers s t)"
    using assms ut by (simp_all add: s'_def timer_cmd_proc_def cmd_proc_def timer_cmds timer_left_def timer_due_def)
  have "\<not> timer_due s' t" using sint_pos [OF assms(7,8)] by (simp add: timer_due_def s')
  then have "timer_cb_proc s' = Some s'" by (simp add: timer_cb_proc_def first_of_def s'(1) timer_cb_loop_Some)
  with s'(1,2) show ?thesis by (simp add: s'_def)
qed

section \<open>Commands through the queue\<close>

lemma load32_mem: "(\<And>i. i < 4 \<Longrightarrow> mem k (a + word_of_nat i) = mem k' (b + word_of_nat i)) \<Longrightarrow> load32 a k = load32 b k'"
  unfolding load32_def load_bytes_def by (rule arg_cong [of _ _ of_le_bytes]) simp

text \<open>A command is its 32 bytes, wherever they are.\<close>

lemma read_cb_bytes:
  assumes "load_bytes a 32 k = load_bytes b 32 k'"
  shows "read_cb a k = read_cb b k'"
proof -
  have m: "mem k (a + word_of_nat i) = mem k' (b + word_of_nat i)" if "i < 32" for i
    using assms that by (simp add: load_bytes_def)
  have l: "load32 (a + word_of_nat n) k = load32 (b + word_of_nat n) k'" if "n + 4 \<le> 32" for n
  proof (rule load32_mem)
    fix i :: nat assume "i < 4"
    with m [of "n + i"] that show "mem k (a + word_of_nat n + word_of_nat i) = mem k' (b + word_of_nat n + word_of_nat i)"
      by (simp add: add.assoc)
  qed
  from l [of 0] l [of 8] l [of 12] l [of 16] l [of 20] m [of 24] show ?thesis
    by (simp add: read_cb_def load64_def add.assoc)
qed

lemma load64_store64:
  assumes "apart a 4 (a + 4) 4"
  shows "load64 a (store64 a v k) = v"
proof -
  have "ucast (ucast v :: u32) OR push_bit 32 (ucast (ucast (drop_bit 32 v) :: u32)) = v"
    by (rule bit_word_eqI) (auto simp: bit_simps)
  then show ?thesis using assms by (simp add: load64_def store64_def load32_store32 load32_store32_apart)
qed

lemma apart_off:
  assumes "unat a + 32 \<le> 2 ^ 32" and "i + 4 \<le> 32" and "j + m \<le> 32" and "0 < m" and "i + 4 \<le> j \<or> j + m \<le> i"
  shows "apart (a + word_of_nat i) 4 (a + word_of_nat j) m"
proof -
  have "unat (a + word_of_nat i) = unat a + i" if "i < 32" for i
    using that assms(1) by (simp add: unat_word_ariths unat_of_nat)
  then show ?thesis using assms by (auto simp: apart_def)
qed

text \<open>The command as \<^verbatim>\<open>krhino_timer_change\<close> writes it.\<close>

definition written :: "u32 \<Rightarrow> oid \<Rightarrow> u64 \<Rightarrow> u64 \<Rightarrow> u8 \<Rightarrow> kernel \<Rightarrow> kernel" where
  "written cb timer first round num k =
     store_bytes (cb + 24) [num] (store64 (cb + 16) round (store64 (cb + 8) first (store32 cb (word_of_nat timer) k)))"

lemma read_written:
  assumes cb: "unat cb + 32 \<le> 2 ^ 32" and "timer < 2 ^ 32"
  shows "read_cb cb (written cb timer first round num k) =
    \<lparr>cb_timer = timer, cb_first = first, cb_round = round, cb_arg = ucast round, cb_num = num\<rparr>"
proof -
  note ap = apart_off [OF cb]
  have one: "load32 (cb + word_of_nat i) (store_bytes (cb + 24) [num] k) = load32 (cb + word_of_nat i) k" if "i + 4 \<le> 24" for i k
    using load32_apart [of "cb + word_of_nat i" "cb + 24" "[num]" k] ap [of i 24 1] that by simp
  have two: "load32 (cb + word_of_nat i) (store64 (cb + word_of_nat j) v k) = load32 (cb + word_of_nat i) k"
    if "i + 4 \<le> 24" "j + 8 \<le> 24" "i + 4 \<le> j \<or> j + 8 \<le> i" for i j v k
  proof -
    have "apart (cb + word_of_nat i) 4 (cb + word_of_nat j) 4" "apart (cb + word_of_nat i) 4 (cb + word_of_nat j + 4) 4"
      using ap [of i j 4] ap [of i "j + 4" 4] that by (auto simp: add.assoc)
    then show ?thesis by (simp add: store64_def load32_store32_apart)
  qed
  have l: "load32 (cb + 4 + word_of_nat i) k' = load32 (cb + word_of_nat (4 + i)) k'" for i k' by (simp add: add.assoc)
  have "load64 (cb + 8) (written cb timer first round num k) = load64 (cb + 8) (store64 (cb + 8) first (store32 cb (word_of_nat timer) k))"
    using one [of 8] one [of 12] two [of 8 16] two [of 12 16] by (simp add: written_def load64_def add.assoc)
  moreover have "load64 (cb + 16) (written cb timer first round num k) = round"
    using one [of 16] one [of 20] load64_store64 [of "cb + 16" round] ap [of 16 20 4] by (simp add: written_def load64_def add.assoc)
  moreover have "load32 (cb + 16) (written cb timer first round num k) = ucast round"
    using one [of 16] ap [of 16 20 4] by (simp add: written_def store64_def load32_store32_apart load32_store32 add.assoc)
  moreover have "load32 cb (written cb timer first round num k) = word_of_nat timer"
    using one [of 0] two [of 0 16] two [of 0 8] by (simp add: written_def load32_store32)
  moreover have "mem (written cb timer first round num k) (cb + 24) = num" by (simp add: written_def store_bytes_def)
  moreover have "unat (word_of_nat timer :: u32) = timer" using assms(2) by (simp add: unat_of_nat)
  moreover have "load64 (cb + 8) (store64 (cb + 8) first k') = first" for k'
    using load64_store64 [of "cb + 8" first] ap [of 8 12 4] by (simp add: add.assoc)
  ultimately show ?thesis by (simp add: read_cb_def)
qed

text \<open>
  C34. The command of \<^verbatim>\<open>krhino_timer_change\<close> reaches a timer task that waits for commands: what it reads
  in its message buffer is the timer, the times and the number of the command that were passed, and
  its call returns with success.
\<close>

theorem timer_change_delivered:
  assumes "reachable k" and "obj_type (blk_objs k g_timer_queue) = RHINO_BUF_QUEUE_OBJ_TYPE"
    and "sizeof_queue_cb \<le> max_msg_size (buf_queues k g_timer_queue)" and "blk_list (blk_objs k g_timer_queue) = t # ts"
    and "cb \<noteq> 0" and "unat cb + 32 \<le> 2 ^ 32" and "timer \<noteq> NULL" and "timer < 2 ^ 32" and "first < - 1" and "round < - 1"
  shows "fst (krhino_timer_change cb timer first round k) = RHINO_SUCCESS \<and>
    read_cb (task_msg (tasks k t)) (snd (krhino_timer_change cb timer first round k)) =
      \<lparr>cb_timer = timer, cb_first = first, cb_round = round, cb_arg = ucast round, cb_num = TIMER_CMD_CHG\<rparr> \<and>
    fst (pend_state_end_proc t (snd (krhino_timer_change cb timer first round k))) = RHINO_SUCCESS"
proof -
  define k1 where "k1 = written cb timer first round TIMER_CMD_CHG k"
  have nz: "cb + word_of_nat i \<noteq> 0" if "i < 32" for i
  proof -
    have "unat (cb + word_of_nat i) = unat cb + i" using that assms(6) by (simp add: unat_word_ariths unat_of_nat)
    then show ?thesis using assms(5) by (metis add_is_0 unat_0 unat_eq_zero)
  qed
  have inv: "kinv k1"
    unfolding k1_def written_def store64_def
    by (intro kinv_store_bytes kinv_store32 reachable_kinv [OF assms(1)])
      (use nz [of 8] nz [of 12] nz [of 16] nz [of 20] nz [of 24] assms(5) in \<open>simp_all add: add.assoc\<close>)
  have same: "blk_objs k1 = blk_objs k" "buf_queues k1 = buf_queues k" "tasks k1 = tasks k"
    by (simp_all add: k1_def written_def store64_def)
  have e: "krhino_timer_change cb timer first round k = krhino_buf_queue_send g_timer_queue cb 32 k1"
  proof -
    have "\<not> - 1 \<le> first" "\<not> - 1 \<le> round" using assms(9,10) by auto
    then show ?thesis using assms(7) by (simp add: krhino_timer_change_def k1_def written_def sizeof_queue_cb_def Let_def)
  qed
  have q: "g_timer_queue \<noteq> NULL" by (simp add: g_timer_queue_def)
  note d = bufq_deliver [OF inv q _ assms(5), of 32 t ts]
  have d': "fst (krhino_buf_queue_send g_timer_queue cb 32 k1) = RHINO_SUCCESS"
    "load_bytes (task_msg (tasks k t)) 32 (snd (krhino_buf_queue_send g_timer_queue cb 32 k1)) = load_bytes cb 32 k1"
    "fst (pend_state_end_proc t (snd (krhino_buf_queue_send g_timer_queue cb 32 k1))) = RHINO_SUCCESS"
    using d assms(2-4) by (simp_all add: same sizeof_queue_cb_def)
  show ?thesis
    using d'(1,3) read_cb_bytes [OF d'(2)] read_written [OF assms(6,8), of first round TIMER_CMD_CHG k] by (simp add: e k1_def)
qed

section \<open>Examples\<close>

text \<open>A one-shot timer and a periodic timer that are due at tick 5, and a timer that has not been started.\<close>

definition start_cmd :: "oid \<Rightarrow> k_timer_queue_cb" where
  "start_cmd t = \<lparr>cb_timer = t, cb_first = 0, cb_round = 0, cb_arg = 0, cb_num = TIMER_CMD_START\<rparr>"

definition new_timer :: "oid \<Rightarrow> u64 \<Rightarrow> u64 \<Rightarrow> u32 \<Rightarrow> timer_sys \<Rightarrow> timer_sys" where
  "new_timer t first round arg s = fst (snd (krhino_timer_create 100 t 1 1 first round arg 0 s zeroed_kernel))"

lemma new_timer_eq:
  assumes "t \<noteq> NULL" and "first \<noteq> 0" and "first < 1000" and "round < 1000"
  shows "new_timer t first round arg s = upd_timer t (\<lambda>_. \<lparr>to_head = False, timer_cb = 1, timer_cb_arg = arg, timer_match = 0,
    timer_remain = 0, init_count = first, round_ticks = round, timer_obj_type = RHINO_TIMER_OBJ_TYPE,
    timer_state = TIMER_DEACTIVE, timer_mm_alloc_flag = K_OBJ_STATIC_ALLOC\<rparr>) s"
proof -
  have "1000 \<le> MAX_TIMER_TICKS" by (simp add: MAX_TIMER_TICKS_def mask_eq_exp_minus_1)
  then have "\<not> MAX_TIMER_TICKS \<le> first" "\<not> MAX_TIMER_TICKS \<le> round" using assms(3,4) by auto
  moreover have "g_intrpt_nested_level zeroed_kernel = 0" by (simp add: zeroed_kernel_def)
  ultimately show ?thesis using assms(1,2) by (simp add: new_timer_def krhino_timer_create_def timer_create_def Let_def)
qed

definition three_timers :: timer_sys where
  "three_timers = timer_task_outer (Got (start_cmd 11)) 0 (timer_task_outer (Got (start_cmd 10)) 0
     (new_timer 12 100 0 9 (new_timer 11 5 100 8 (new_timer 10 5 0 7 zeroed_timers))))"

lemma zeroed_timers_reachable: "timers_reachable zeroed_timers"
  using timers_reachable.init [of zeroed_kernel] by (simp add: ktimer_init_def zeroed_timers_def Let_def)

lemma start_eq:
  assumes "timer_obj_type (timers s t) = RHINO_TIMER_OBJ_TYPE" and "timer_state (timers s t) = TIMER_DEACTIVE" and "t \<noteq> NULL"
  shows "timer_task_outer (Got (start_cmd t)) n s =
    upd_timer t (\<lambda>x. x\<lparr>timer_state := TIMER_ACTIVE\<rparr>) (timer_list_pri_insert t
      (upd_timer t (\<lambda>x. x\<lparr>timer_match := n + init_count x, timer_remain := init_count x, to_head := True\<rparr>) (s\<lparr>g_timer_count := n\<rparr>)))"
  using assms by (simp add: timer_task_outer_def timer_cmd_proc_def cmd_proc_def start_cmd_def timer_cmds Let_def)

lemma three_timers_facts:
  "g_timer_head three_timers = [10, 11] \<and> g_timer_count three_timers = 0 \<and>
   timer_match (timers three_timers 10) = 5 \<and> timer_match (timers three_timers 11) = 5 \<and>
   round_ticks (timers three_timers 10) = 0 \<and> round_ticks (timers three_timers 11) = 100 \<and>
   timer_cb_arg (timers three_timers 10) = 7 \<and> timer_cb_arg (timers three_timers 11) = 8 \<and>
   timer_cb (timers three_timers 10) = 1 \<and> timer_cb (timers three_timers 11) = 1 \<and> cb_calls three_timers = [] \<and>
   timer_obj_type (timers three_timers 12) = RHINO_TIMER_OBJ_TYPE \<and> timer_state (timers three_timers 12) = TIMER_DEACTIVE \<and>
   init_count (timers three_timers 12) = 100"
  by (simp add: three_timers_def start_eq new_timer_eq timer_left_def) (simp add: zeroed_timers_def)

lemma new_timer_reachable:
  "timers_reachable s \<Longrightarrow> t \<notin> set (g_timer_head s) \<Longrightarrow> timers_reachable (new_timer t first round arg s)"
  unfolding new_timer_def krhino_timer_create_def by (rule timers_reachable.create)

lemma three_timers_reachable: "timers_reachable three_timers"
  unfolding three_timers_def
  by (intro timers_reachable.outer new_timer_reachable zeroed_timers_reachable)
    (simp_all add: new_timer_eq start_cmd_def, simp_all add: zeroed_timers_def)

theorem timers_consistent_witness:
  "distinct (g_timer_head three_timers) \<and> timer_state (timers three_timers 10) = TIMER_ACTIVE \<and> \<not> timer_fault three_timers"
proof -
  have "10 \<in> set (g_timer_head three_timers)" by (simp add: three_timers_facts)
  with timers_consistent [OF three_timers_reachable] show ?thesis by blast
qed

theorem timers_fire_witness:
  "\<exists>n s'. timer_rounds n (three_timers\<lparr>g_timer_count := 5\<rparr>) = Some s' \<and> cb_calls s' = [(10, 1, 7), (11, 1, 8)] \<and>
     10 \<notin> set (g_timer_head s') \<and> 11 \<in> set (g_timer_head s')"
proof -
  let ?s = "three_timers\<lparr>g_timer_count := 5\<rparr>"
  note f = three_timers_facts
  have "timer_ok ?s" using timers_reachable_ok [OF three_timers_reachable] by simp
  moreover have "rounds_ok ?s" "sorted (map (timer_left ?s) (g_timer_head ?s))" "\<forall>t \<in> set (g_timer_head ?s). timer_left ?s t < 2 ^ 63"
    using f by (simp_all add: rounds_ok_def timer_left_def)
  ultimately obtain n s' where "timer_rounds n ?s = Some s'"
    "cb_calls s' = cb_calls ?s @ [(t, timer_cb (timers ?s t), timer_cb_arg (timers ?s t)). t \<leftarrow> g_timer_head ?s, timer_left ?s t = 0]"
    "\<forall>t \<in> set (g_timer_head ?s). timer_left ?s t = 0 \<longrightarrow>
       (if round_ticks (timers ?s t) > 0 then t \<in> set (g_timer_head s') \<and> timer_left s' t = round_ticks (timers ?s t)
        else t \<notin> set (g_timer_head s') \<and> timer_state (timers s' t) = TIMER_DEACTIVE)"
    using timers_fire [of ?s] by blast
  then show ?thesis using f by (intro exI [of _ n] exI [of _ s']) (simp add: timer_left_def)
qed

theorem timer_start_overtakes_witness:
  "g_timer_head (timer_cmd_proc (start_cmd 12) (three_timers\<lparr>g_timer_count := 7\<rparr>)) = [12, 10, 11] \<and>
   timer_due (timer_cmd_proc (start_cmd 12) (three_timers\<lparr>g_timer_count := 7\<rparr>)) 10 \<and>
   timer_cb_proc (timer_cmd_proc (start_cmd 12) (three_timers\<lparr>g_timer_count := 7\<rparr>)) =
     Some (timer_cmd_proc (start_cmd 12) (three_timers\<lparr>g_timer_count := 7\<rparr>))"
proof (rule timer_start_overtakes)
  note f = three_timers_facts
  show "timer_ok (three_timers\<lparr>g_timer_count := 7\<rparr>)" using timers_reachable_ok [OF three_timers_reachable] by simp
  have "sint (- 2 :: u64) = - 2" by simp
  then show "timer_due (three_timers\<lparr>g_timer_count := 7\<rparr>) 10" using f by (simp add: timer_due_def)
  show "init_count (timers (three_timers\<lparr>g_timer_count := 7\<rparr>) 12) < timer_left (three_timers\<lparr>g_timer_count := 7\<rparr>) 10"
    using f by (simp add: timer_left_def)
qed (use three_timers_facts in \<open>simp_all add: start_cmd_def\<close>)

text \<open>A task waits at the command queue.\<close>

definition waits_cmd :: kernel where
  "waits_cmd = snd (do_call (Buf_queue (Buf_queue_recv 3 RHINO_WAIT_FOREVER 0x200 0x100))
     (snd (do_call (Buf_queue (Fix_buf_queue_create 3 1 (Some (replicate 64 0)) 32 2)) started)))"

lemma waits_cmd_reachable: "reachable waits_cmd"
proof -
  have "ok_call (Buf_queue (Fix_buf_queue_create 3 1 (Some (replicate 64 0)) 32 2)) started"
    "ok_call (Buf_queue (Buf_queue_recv 3 RHINO_WAIT_FOREVER 0x200 0x100))
      (snd (do_call (Buf_queue (Fix_buf_queue_create 3 1 (Some (replicate 64 0)) 32 2)) started))" by code_simp+
  then show ?thesis unfolding waits_cmd_def by (intro reachable.call started_reachable)
qed

theorem timer_change_delivered_witness:
  "read_cb 0x200 (snd (krhino_timer_change 0x300 10 5 7 waits_cmd)) =
     \<lparr>cb_timer = 10, cb_first = 5, cb_round = 7, cb_arg = 7, cb_num = TIMER_CMD_CHG\<rparr>"
proof -
  have f: "obj_type (blk_objs waits_cmd g_timer_queue) = RHINO_BUF_QUEUE_OBJ_TYPE"
    "sizeof_queue_cb \<le> max_msg_size (buf_queues waits_cmd g_timer_queue)" "blk_list (blk_objs waits_cmd g_timer_queue) = [2]"
    "task_msg (tasks waits_cmd 2) = 0x200" by code_simp+
  show ?thesis using timer_change_delivered [OF waits_cmd_reachable f(1-3), where cb = "0x300" and timer = 10 and first = 5 and round = 7] f(4) by simp
qed

end
