(* ===== verification/Rhino_Time.thy ===== *)
theory Rhino_Time
  imports Rhino_State
begin

text \<open>
  The system clock (\<^verbatim>\<open>k_time.c\<close>): the count of ticks, the time since the start, and the conversions between
  ticks and milliseconds, at the widths of their variables.
\<close>

definition krhino_sys_tick_get :: "kernel \<Rightarrow> u64" where
  "krhino_sys_tick_get k = g_sys_time_tick k"

definition krhino_sys_time_get :: "kernel \<Rightarrow> u64" where
  "krhino_sys_time_get k = krhino_sys_tick_get k * 1000 div word_of_nat RHINO_CONFIG_TICKS_PER_SECOND"

definition krhino_ms_to_ticks :: "u64 \<Rightarrow> u64" where
  "krhino_ms_to_ticks ms =
     (let surplus = ucast (ms mod 1000) :: u16;
          ticks = (ms div 1000) * word_of_nat RHINO_CONFIG_TICKS_PER_SECOND;
          padding = word_of_nat (1000 div RHINO_CONFIG_TICKS_PER_SECOND) :: u16;
          padding = (if padding > 0 then padding - 1 else 0)
      in ticks + word_of_int ((uint surplus + uint padding) * int RHINO_CONFIG_TICKS_PER_SECOND div 1000))"

definition krhino_ticks_to_ms :: "u64 \<Rightarrow> u64" where
  "krhino_ticks_to_ms ticks =
     (let surplus = ucast (ticks mod word_of_nat RHINO_CONFIG_TICKS_PER_SECOND) :: u32;
          time = (ticks div word_of_nat RHINO_CONFIG_TICKS_PER_SECOND) * 1000;
          padding = word_of_nat (RHINO_CONFIG_TICKS_PER_SECOND div 1000) :: u32;
          padding = (if padding > 0 then padding - 1 else 0)
      in time + ucast ((surplus + padding) * 1000 div word_of_nat RHINO_CONFIG_TICKS_PER_SECOND))"

lemma unat_u64_less: "unat (w :: u64) < 18446744073709551616"
  using unsigned_less [of w, where ?'a = nat] by simp

text \<open>Milliseconds are rounded up to whole ticks.\<close>

lemma ms_div_mod: "n div 1000 * 100 + (n mod 1000 + 9) div 10 = (n + 9) div (10 :: nat)"
proof -
  obtain q r where n: "n = 1000 * q + r" "r < 1000" by (metis mod_less_divisor mult_div_mod_eq zero_less_numeral)
  then have "n div 1000 = q" "n mod 1000 = r" by simp_all
  moreover have "(n + 9) div 10 = (q * 100 * 10 + (r + 9)) div 10" using n by (simp add: algebra_simps)
  then have "(n + 9) div 10 = q * 100 + (r + 9) div 10" by (simp only: div_mult_self3)
  ultimately show ?thesis by simp
qed

lemma ms_to_ticks_eq: "unat (krhino_ms_to_ticks ms) = (unat ms + 9) div 10"
proof -
  define n where "n = unat ms"
  have n: "n < 18446744073709551616" unfolding n_def by (rule unat_u64_less)
  have r: "unat (ucast (ms mod 1000) :: u16) = n mod 1000"
    by (simp add: n_def unsigned_ucast_eq take_bit_eq_mod unat_mod)
  have "uint (ucast (ms mod 1000) :: u16) = int (n mod 1000)" using r by (metis uint_nat)
  then have p: "(uint (ucast (ms mod 1000) :: u16) + 9) * 100 div 1000 = int ((n mod 1000 + 9) div 10)" by simp
  have "n div 1000 * 100 \<le> n" by simp
  then have le: "n div 1000 * 100 < 18446744073709551616" using n by linarith
  have q: "unat ((ms div 1000) * 100) = n div 1000 * 100"
    using le by (simp add: n_def unat_word_ariths unat_div)
  have b: "n div 1000 * 100 + (n mod 1000 + 9) div 10 < 18446744073709551616" using n by (simp add: ms_div_mod)
  have "krhino_ms_to_ticks ms = (ms div 1000) * 100 + word_of_nat ((n mod 1000 + 9) div 10)"
    unfolding word_of_nat_eq_iff using p by (simp add: krhino_ms_to_ticks_def konst Let_def)
  then have "unat (krhino_ms_to_ticks ms) = n div 1000 * 100 + (n mod 1000 + 9) div 10"
    using b q by (simp only: unat_word_ariths unat_of_nat) simp
  then show ?thesis by (simp only: ms_div_mod n_def)
qed

lemma ticks_to_ms_eq:
  assumes "10 * unat ticks < 2 ^ 64"
  shows "unat (krhino_ticks_to_ms ticks) = 10 * unat ticks"
proof -
  define n where "n = unat ticks"
  have n: "10 * n < 18446744073709551616" using assms by (simp add: n_def)
  have r: "unat (ucast (ticks mod 100) :: u32) = n mod 100"
    by (simp add: n_def unsigned_ucast_eq take_bit_eq_mod unat_mod)
  have s: "unat ((ucast (ticks mod 100) :: u32) * 1000 div 100) = n mod 100 * 10"
    using r by (simp add: unat_div unat_word_ariths)
  have "100 * (n div 100) \<le> n" by simp
  then have "n div 100 * 1000 < 18446744073709551616" using n by linarith
  then have q: "unat ((ticks div 100) * 1000) = n div 100 * 1000"
    by (simp add: n_def unat_word_ariths unat_div)
  have "n = 100 * (n div 100) + n mod 100" by simp
  then have b: "n div 100 * 1000 + n mod 100 * 10 = 10 * n" by linarith
  have "krhino_ticks_to_ms ticks = (ticks div 100) * 1000 + ucast ((ucast (ticks mod 100) :: u32) * 1000 div 100)"
    by (simp add: krhino_ticks_to_ms_def konst Let_def)
  moreover have "unat (ucast ((ucast (ticks mod 100) :: u32) * 1000 div 100) :: u64) = n mod 100 * 10"
    by (simp add: unsigned_ucast_eq s take_bit_eq_mod)
  ultimately have "unat (krhino_ticks_to_ms ticks) = n div 100 * 1000 + n mod 100 * 10"
    using n by (simp only: unat_word_ariths(1) q b) simp
  then show ?thesis using b by (simp only: n_def)
qed

text \<open>
  C36. Ticks converted to milliseconds and back are the same ticks; milliseconds converted to ticks and back
  are rounded up, by less than a tick. The conversion to milliseconds is exact as long as the
  milliseconds fit into 64 bits.
\<close>

theorem tick_conversion:
  assumes "10 * unat ticks < 2 ^ 64" and "unat ms + 9 < 2 ^ 64"
  shows "krhino_ms_to_ticks (krhino_ticks_to_ms ticks) = ticks \<and> unat (krhino_ticks_to_ms ticks) = 10 * unat ticks \<and>
    unat ms \<le> unat (krhino_ticks_to_ms (krhino_ms_to_ticks ms)) \<and>
    unat (krhino_ticks_to_ms (krhino_ms_to_ticks ms)) < unat ms + 10"
proof -
  have "unat (krhino_ms_to_ticks (krhino_ticks_to_ms ticks)) = unat ticks"
    by (simp add: ms_to_ticks_eq ticks_to_ms_eq [OF assms(1)])
  moreover have "10 * unat (krhino_ms_to_ticks ms) < 2 ^ 64" using assms(2) by (simp add: ms_to_ticks_eq)
  note ticks_to_ms_eq [OF this]
  moreover have "n \<le> 10 * ((n + 9) div 10)" "10 * ((n + 9) div 10) < n + 10" for n :: nat by presburger+
  ultimately show ?thesis by (simp add: ms_to_ticks_eq ticks_to_ms_eq [OF assms(1)] word_unat_eq_iff)
qed

theorem tick_conversion_witness:
  "krhino_ms_to_ticks (krhino_ticks_to_ms 1234567) = 1234567 \<and> unat (krhino_ticks_to_ms (krhino_ms_to_ticks 15)) < 25"
  using tick_conversion [of 1234567 15] by simp

end
