(* ===== verification/Spec2Isabelle.thy ===== *)
theory Spec2Isabelle
  imports Rhino_KList Rhino_Nonpreempt Rhino_Lifecycle Rhino_MmBlk Rhino_Timer Rhino_Time
begin

text \<open>
  The Rhino kernel of AliOS Things (\<^verbatim>\<open>src/kernel/rhino\<close>): a real-time kernel with preemptive
  priority scheduling, mutexes with priority inheritance, semaphores, event flags, message queues,
  timeouts and dynamic tasks. This theory states what holds in every state of a running system; the
  theories it imports hold the model, the invariant and the properties of the single services.

  \<^bold>\<open>Parts of the program and theories.\<close>
  \<^item> \<open>Rhino_Prelude\<close>: types, status codes and constants of the headers, lemmas on lists and words.
  \<^item> \<open>Rhino_Bitmap\<close>: \<^verbatim>\<open>core/include/k_bitmap.h\<close>, the bitmap of ready priorities.
  \<^item> \<open>Rhino_KList\<close>: \<^verbatim>\<open>core/include/k_list.h\<close>, the circular doubly linked list on a heap of pointers;
    its operations implement the operations on lists that the other theories use.
  \<^item> \<open>Rhino_Ringbuf\<close>, \<open>Rhino_Msg_Ring\<close>: \<^verbatim>\<open>core/k_ringbuf.c\<close>, the ring of bytes under the queues, with
    length headers and wrap-around, and its refinement of a bounded queue.
  \<^item> \<open>Rhino_State\<close>: the control blocks and the globals (\<^verbatim>\<open>k_obj.c\<close> and the headers) as one record
    \<open>kernel\<close>, and the memory of the callers.
  \<^item> \<open>Rhino_Sched\<close>: \<^verbatim>\<open>core/k_sched.c\<close>, ready lists, time slices, \<^verbatim>\<open>core_sched\<close>.
  \<^item> \<open>Rhino_Pend\<close>: \<^verbatim>\<open>core/k_pend.c\<close> and the list functions of \<^verbatim>\<open>core/k_tick.c\<close>, blocking and waking.
  \<^item> \<open>Rhino_Prio\<close>: the priority functions of \<^verbatim>\<open>core/k_mutex.c\<close> and \<^verbatim>\<open>task_pri_change\<close>.
  \<^item> \<open>Rhino_Inv\<close>: the invariant \<open>kinv\<close>, and the locales for what wakes a task and for what changes one object.
  \<^item> \<open>Rhino_Sem\<close>, \<open>Rhino_Mutex\<close>, \<open>Rhino_Event\<close>, \<open>Rhino_Queue\<close>, \<open>Rhino_Buf_Queue\<close>, \<open>Rhino_Tick\<close>,
    \<open>Rhino_Task\<close>, \<open>Rhino_Sys\<close>: \<^verbatim>\<open>core/k_sem.c\<close>, \<^verbatim>\<open>k_task_sem.c\<close>, \<^verbatim>\<open>k_mutex.c\<close>, \<^verbatim>\<open>k_event.c\<close>,
    \<^verbatim>\<open>k_queue.c\<close>, \<^verbatim>\<open>k_buf_queue.c\<close>, \<^verbatim>\<open>k_tick.c\<close>, \<^verbatim>\<open>k_task.c\<close>, \<^verbatim>\<open>k_sys.c\<close>, \<^verbatim>\<open>k_dyn_mem_proc.c\<close>; every call
    with all its branches, and that it keeps the invariant.
  \<^item> \<open>Rhino_Refine\<close>: the locale \<open>simulates\<close>, refinement of an abstract machine for sequences of calls.
  \<^item> \<open>Rhino_MmBlk\<close>: \<^verbatim>\<open>core/k_mm_blk.c\<close>, pools of blocks with a free list in their memory.
  \<^item> \<open>Rhino_Timer\<close>: \<^verbatim>\<open>core/k_timer.c\<close>, the list of software timers, the calls that send commands to the timer
    task through its buffer queue, and the passes of that task. Callbacks are recorded in a log.
  \<^item> \<open>Rhino_Time\<close>: \<^verbatim>\<open>core/k_time.c\<close>, the clock and its conversions.
  \<^item> \<open>Rhino_Kernel\<close>: all calls as a datatype \<open>kcall\<close>, \<open>do_call\<close>, the contract locale \<open>kernel_calls\<close>
    with an interpretation per component, and \<open>reachable\<close>, the states of a system after its start.
  \<^item> \<open>Rhino_Example\<close>: concrete reachable states. \<open>Rhino_Services\<close>: timeouts, and the refinement of
    semaphores, queues and buffer queues. \<open>Rhino_Locks\<close>: mutexes and events. \<open>Rhino_Nonpreempt\<close>: the
    locked scheduler. \<open>Rhino_Lifecycle\<close>: deletion, suspension, nesting, round robin.

  \<^bold>\<open>How the model corresponds to the code.\<close> A function of the C code is a function of the same name
  from its arguments and a \<open>kernel\<close> to its status and the new \<open>kernel\<close>. Pointers to control blocks
  are natural numbers with 0 for \<^verbatim>\<open>NULL\<close>; pointers to memory of the caller are words into \<open>mem\<close>. The
  lists threaded through the control blocks are lists of addresses. Critical sections run with
  interrupts off, so each call is one step; a call that blocks is two: the first half returns \<open>Blocked\<close>
  after \<^verbatim>\<open>core_sched\<close> has chosen another task, the second half is \<open>pend_state_end_proc\<close>, when the
  task runs again. The context switch of the port makes the preferred task the running one. Following a
  null pointer, unlinking a node that is not on its list and not returning set \<open>g_fault\<close>, and
  \<^verbatim>\<open>k_err_proc\<close> logs its argument in \<open>g_err_log\<close>. Integers keep their width where the code can wrap
  around: ticks, counts, flags, nesting levels; sizes of buffers and addresses of objects are natural numbers.
  The configuration is one CPU, round robin on, all objects and dynamic allocation on, and tickless
  operation, statistics, trace, object sets, hooks, timers and work queues off at the start.

  \<^bold>\<open>What a caller has to guarantee\<close> is \<open>ok_call\<close>: objects are created where no live object is, with
  storage of the announced size; only live tasks are deleted; the idle task makes no call that blocks; counters
  of nested locks and interrupts stay below their limits; \<^verbatim>\<open>krhino_task_yield\<close> is not called in interrupts. The kernel
  does not check these, and some of the findings show what happens without them.

  \<^bold>\<open>What is shown.\<close> The invariant \<open>kinv\<close> holds in every reachable state (\<open>reachable_kinv\<close>); the
  theorems below read off its consequences: no faults, preemptive scheduling, priority inheritance through
  chains of owners, mutual exclusion, consistent ready, wait and tick lists, no lost wake-up, ranges, and
  termination of the priority loop. The services are shown against abstract specifications: a
  count with a line of tasks, a FIFO of messages, a list of free blocks, exact timeouts. The list of
  software timers is consistent and timers fire when they are due. Further theorems give round
  trips, hand-over of mutexes, event flags, what deletion releases, and error statuses.

  \<^bold>\<open>Loops.\<close> The loop of \<^verbatim>\<open>task_pri_change\<close> is a \<open>partial_function\<close> whose value \<open>None\<close> means that it does not
  return; \<open>pri_loop_returns\<close> shows that it returns. So are the loops of \<^verbatim>\<open>krhino_mblk_pool_init\<close>, which
  returns but for blocks of size 0, and of \<^verbatim>\<open>timer_cb_proc\<close>. The loops that empty a wait list run at most once per
  waiting task and fault if tasks are left, which \<open>kernel_never_faults\<close> excludes. All other loops
  recurse on a list.

  \<^bold>\<open>Not modelled.\<close> The memory allocator (\<^verbatim>\<open>k_mm.c\<close>): the addresses it returns are arguments of the calls.
  Work queues and object sets (\<^verbatim>\<open>k_workqueue.c\<close>, \<^verbatim>\<open>k_obj_set.c\<close>); the multi-CPU configuration; stack
  memory and its checks; statistics, trace and memory debugging, which only report; and everything
  above and below the kernel: file system, network, frameworks, ports and boards.
\<close>

section \<open>What holds in every state of a running system\<close>

text \<open>
  C1. No call of a running system follows a null pointer, unlinks a node from a list it is not on,
  fails to return from a loop, or reports an inconsistency through \<^verbatim>\<open>k_err_proc\<close>.
\<close>

theorem kernel_never_faults: "reachable k \<Longrightarrow> \<not> g_fault k \<and> g_err_log k = []"
  using winvD(5,6) [OF kinvD(1) [OF reachable_kinv]] by simp

theorem kernel_never_faults_witness: "\<not> g_fault contended \<and> g_err_log contended = []"
  by (rule kernel_never_faults [OF contended_reachable])

text \<open>
  C2. Preemptive scheduling: whenever the scheduler is not locked and no interrupt is being served,
  the running task is ready, no ready task has a better priority, and it stands first in the
  ready list of its priority.
\<close>

theorem best_ready_task_runs:
  assumes "reachable k" and "g_intrpt_nested_level k = 0" and "g_sched_lock k = 0"
  shows "task_state (tasks k (g_active_task k)) = K_RDY \<and>
    (\<forall>t. task_state (tasks k t) = K_RDY \<longrightarrow> prio (tasks k (g_active_task k)) \<le> prio (tasks k t)) \<and>
    g_active_task k = hd (cur_list_item k (prio (tasks k (g_active_task k))))"
proof -
  note inv = reachable_kinv [OF assms(1)]
  have a: "g_active_task k = top_task k" using kinvD(4) [OF inv] assms(2,3) by (simp add: sched_ok_def)
  have ne: "rdy k \<noteq> {}" using core_okD(6) [OF kinvD(5) [OF inv]] by auto
  note t = top_task [OF core_okD(1) [OF kinvD(5) [OF inv]] ne]
  show ?thesis using kinv_top [OF inv] t(2) by (simp add: a rdy_def) (simp add: top_task_def)
qed

theorem best_ready_task_runs_witness:
  "task_state (tasks preempted 10) = K_RDY \<and> prio (tasks preempted 10) \<le> prio (tasks preempted 2) \<and>
   hd (cur_list_item preempted 30) = 10"
  using best_ready_task_runs [OF preempted_reachable] preempted_facts by auto

text \<open>
  C3. Priority inheritance: the priority of every task is the best of its own base priority and the
  priorities of all tasks that wait for a mutex it owns, through chains of owners of any length.
\<close>

theorem priority_inheritance:
  assumes "reachable k" and "live_task t k"
  shows "prio (tasks k t) = Min (insert (b_prio (tasks k t))
    {prio (tasks k w) | w m. (task_state (tasks k w) = K_PEND \<or> task_state (tasks k w) = K_PEND_SUSPENDED) \<and>
       blk_obj (tasks k w) = m \<and> obj_type (blk_objs k m) = RHINO_MUTEX_OBJ_TYPE \<and> mutex_task (mutexes k m) = t})"
proof -
  note inv = reachable_kinv [OF assms(1)]
  note c = core_okD [OF kinvD(5) [OF inv]]
  have t: "t \<in> live k" using assms(2) by simp
  have held: "set (mutex_list (tasks k t)) =
      {m. obj_type (blk_objs k m) = RHINO_MUTEX_OBJ_TYPE \<and> mutex_task (mutexes k m) = t}"
    using own_okD(2,5) [OF c(3)] t c(11) [OF t] by auto
  have "demand (pend_on k) k t = insert (b_prio (tasks k t))
    {prio (tasks k w) | w m. (task_state (tasks k w) = K_PEND \<or> task_state (tasks k w) = K_PEND_SUSPENDED) \<and>
       blk_obj (tasks k w) = m \<and> obj_type (blk_objs k m) = RHINO_MUTEX_OBJ_TYPE \<and> mutex_task (mutexes k m) = t}"
    unfolding demand_def held by (auto simp: pend_on_def pended_def)
  then show ?thesis
    using winvD(2) [OF kinvD(1) [OF inv]] t eff_pri_demand [OF c(2), of t] by (simp add: pi_ok_def)
qed

theorem priority_inheritance_witness:
  "30 = Min (insert 60
    {prio (tasks contended w) | w m. (task_state (tasks contended w) = K_PEND \<or> task_state (tasks contended w) = K_PEND_SUSPENDED) \<and>
       blk_obj (tasks contended w) = m \<and> obj_type (blk_objs contended m) = RHINO_MUTEX_OBJ_TYPE \<and>
       mutex_task (mutexes contended m) = 2})"
  using priority_inheritance [OF contended_reachable, of 2] by (simp add: contended_facts live_task_def del: live_task_iff)

text \<open>
  C4. Mutual exclusion: a mutex has at most one owner. The task recorded in the mutex is the only
  task that lists it among the mutexes it holds, it is alive, has locked the mutex at least once and
  does not wait for it; nobody waits for a mutex that is free.
\<close>

theorem mutex_ownership:
  assumes "reachable k" and "obj_type (blk_objs k m) = RHINO_MUTEX_OBJ_TYPE"
  shows "(\<forall>t. live_task t k \<longrightarrow> (m \<in> set (mutex_list (tasks k t)) \<longleftrightarrow> mutex_task (mutexes k m) = t)) \<and>
    (if mutex_task (mutexes k m) = NULL then blk_list (blk_objs k m) = []
     else live_task (mutex_task (mutexes k m)) k \<and> owner_nested (mutexes k m) \<noteq> 0 \<and>
       mutex_task (mutexes k m) \<notin> set (blk_list (blk_objs k m)))"
proof -
  note c = core_okD [OF kinvD(5) [OF reachable_kinv [OF assms(1)]]]
  note own = own_okD [OF c(3)]
  have "m \<in> set (mutex_list (tasks k t)) \<longleftrightarrow> mutex_task (mutexes k m) = t" if t: "t \<in> live k" for t
    using own(2) [OF t, of m] own(5) [OF assms(2)] c(11) [OF t] by auto
  then show ?thesis
    using own(4,5) [OF assms(2)] bl_okD(2) [OF c(2), of m] set_empty [of "blk_list (blk_objs k m)"]
    by (cases "mutex_task (mutexes k m) = NULL") auto
qed

theorem mutex_ownership_witness:
  "20 \<in> set (mutex_list (tasks contended 2)) \<and> 20 \<notin> set (mutex_list (tasks contended 10)) \<and>
   owner_nested (mutexes contended 20) \<noteq> 0 \<and> 2 \<notin> set (blk_list (blk_objs contended 20))"
  using mutex_ownership [OF contended_reachable contended_facts(8)]
  by (simp add: contended_facts live_task_def del: live_task_iff)

text \<open>
  C7. The ready queue is consistent: the list of a priority holds exactly the ready tasks of that
  priority, each once, its bit is set in the bitmap exactly when the list is not empty, and
  \<^verbatim>\<open>highest_pri\<close> is what \<^verbatim>\<open>krhino_find_first_bit\<close> finds.
\<close>

theorem ready_queue_consistent:
  assumes "reachable k" and "p < RHINO_CONFIG_PRI_MAX"
  shows "distinct (cur_list_item k p) \<and>
    set (cur_list_item k p) = {t. task_state (tasks k t) = K_RDY \<and> prio (tasks k t) = p} \<and>
    (bitmap_test (task_bit_map k) p \<longleftrightarrow> cur_list_item k p \<noteq> []) \<and>
    krhino_find_first_bit (task_bit_map k) = Some (highest_pri k)"
proof -
  note c = core_okD [OF kinvD(5) [OF reachable_kinv [OF assms(1)]]]
  note rq = rq_okD [OF c(1)]
  have ne: "rdy k \<noteq> {}" using c(6) by auto
  have h: "highest_pri k < 32 * NUM_WORDS"
    using top_task(1,2) [OF c(1) ne] rq(3) pri_max_bits by metis
  have "krhino_find_first_bit (task_bit_map k) = Some (highest_pri k)"
    by (rule find_first_bit_Some) (use h rq(4,5) rq(6,7) [OF ne] in auto)
  with rq(1,2,5) pri_max_bits [OF assms(2)] show ?thesis by (simp add: rdy_def)
qed

theorem ready_queue_consistent_witness:
  "distinct (cur_list_item preempted 30) \<and>
   set (cur_list_item preempted 30) = {t. task_state (tasks preempted t) = K_RDY \<and> prio (tasks preempted t) = 30} \<and>
   bitmap_test (task_bit_map preempted) 30 \<and> krhino_find_first_bit (task_bit_map preempted) = Some (highest_pri preempted)"
proof -
  have "(30::nat) < RHINO_CONFIG_PRI_MAX" by (simp add: konst)
  from ready_queue_consistent [OF preempted_reachable this] show ?thesis using preempted_facts by simp
qed

text \<open>
  C8. The lists of waiting tasks are consistent: the list of an object holds exactly the tasks that
  wait for it, each once, by priority; the tick list holds every sleeping task and every
  task that waits with a timeout, each once, the earliest deadline first, and no deadline has passed.
\<close>

theorem wait_lists_consistent:
  assumes "reachable k"
  shows "(\<forall>b. distinct (blk_list (blk_objs k b)) \<and>
      set (blk_list (blk_objs k b)) = {t. pended (task_state (tasks k t)) \<and> blk_obj (tasks k t) = b} \<and>
      (blk_policy (blk_objs k b) = BLK_POLICY_PRI \<longrightarrow>
        sorted (map (\<lambda>t. prio (tasks k t)) (blk_list (blk_objs k b))))) \<and>
    distinct (g_tick_head k) \<and> set (g_tick_head k) = {t. tick_head (tasks k t)} \<and>
    sorted (map (ticks_left k) (g_tick_head k)) \<and> (\<forall>t \<in> set (g_tick_head k). ticks_left k t \<noteq> 0) \<and>
    (\<forall>t. sleeping (task_state (tasks k t)) \<longrightarrow> t \<in> set (g_tick_head k)) \<and>
    (\<forall>t \<in> set (g_tick_head k). sleeping (task_state (tasks k t)) \<or> pended (task_state (tasks k t)))"
proof -
  note inv = reachable_kinv [OF assms]
  note bl = bl_okD [OF core_okD(2) [OF kinvD(5) [OF inv]]]
  have tick: "tick_ok k" "tick_pos k" using winvD(3) [OF kinvD(1) [OF inv]] kinvD(2) [OF inv] by simp_all
  then have tq: "distinct (g_tick_head k)" "set (g_tick_head k) = timed k" "sorted (map (ticks_left k) (g_tick_head k))"
    by (simp_all add: tick_ok_def tq_ok_def)
  show ?thesis
    using bl tick unfolding tq(2) by (auto simp: tq tick_ok_def tick_pos_def timed_def pend_on_def)
qed

theorem wait_lists_consistent_witness:
  "set (blk_list (blk_objs contended 20)) = {t. pended (task_state (tasks contended t)) \<and> blk_obj (tasks contended t) = 20} \<and>
   10 \<in> set (blk_list (blk_objs contended 20)) \<and> 10 \<in> set (g_tick_head contended) \<and>
   sorted (map (ticks_left contended) (g_tick_head contended))"
proof -
  note w = wait_lists_consistent [OF contended_reachable]
  have "10 \<in> set (g_tick_head contended)" using w contended_facts(9) by blast
  moreover have "10 \<in> set (blk_list (blk_objs contended 20))" by (simp add: contended_facts(14))
  ultimately show ?thesis using w by blast
qed

text \<open>
  C6. No lost wake-up: a task waits only for a live object that has nothing to give, a semaphore with
  count 0, an empty queue, a mutex that another live task owns, or an event whose flags do not meet
  what the task asked for.
\<close>

theorem waiting_is_justified:
  assumes "reachable k" and "pended (task_state (tasks k t))"
  shows "blk_obj (tasks k t) \<noteq> NULL \<and>
    (case obj_type (blk_objs k (blk_obj (tasks k t))) of
       RHINO_OBJ_TYPE_NONE \<Rightarrow> False
     | RHINO_SEM_OBJ_TYPE \<Rightarrow> sem_count (sems k (blk_obj (tasks k t))) = 0
     | RHINO_QUEUE_OBJ_TYPE \<Rightarrow> q_cur_num (queues k (blk_obj (tasks k t))) = 0
     | RHINO_BUF_QUEUE_OBJ_TYPE \<Rightarrow> bq_cur_num (buf_queues k (blk_obj (tasks k t))) = 0
     | RHINO_MUTEX_OBJ_TYPE \<Rightarrow> mutex_task (mutexes k (blk_obj (tasks k t))) \<noteq> t \<and>
         live_task (mutex_task (mutexes k (blk_obj (tasks k t)))) k
     | RHINO_EVENT_OBJ_TYPE \<Rightarrow> \<not> flags_met (pend_option (tasks k t)) (pend_flags (tasks k t))
         (event_flags (events k (blk_obj (tasks k t))))
     | _ \<Rightarrow> False)"
proof -
  note inv = reachable_kinv [OF assms(1)]
  note c = core_okD [OF kinvD(5) [OF inv]]
  let ?b = "blk_obj (tasks k t)"
  have t: "t \<in> pend_on k ?b" using assms(2) by (simp add: pend_on_def)
  then have ne: "pend_on k ?b \<noteq> {}" by auto
  have "live_task (mutex_task (mutexes k ?b)) k \<and> mutex_task (mutexes k ?b) \<noteq> t"
    if "obj_type (blk_objs k ?b) = RHINO_MUTEX_OBJ_TYPE"
    using own_okD(4,5) [OF c(3) that] t by auto
  then show ?thesis
    using kinvD(3) [OF inv, of ?b] ne t c(10) [OF t]
    by (cases "obj_type (blk_objs k ?b)") (simp_all add: obj_inv_def)
qed

theorem waiting_is_justified_witness:
  "blk_obj (tasks contended 10) \<noteq> NULL \<and> mutex_task (mutexes contended 20) \<noteq> 10 \<and> live_task 2 contended \<and>
   \<not> flags_met RHINO_OR_CLEAR 1 (event_flags (events awaits_event 40))"
  using waiting_is_justified [OF contended_reachable, of 10] waiting_is_justified [OF awaits_event_reachable, of 2]
  by (simp add: contended_facts awaits_event_facts pended_def del: live_task_iff)

text \<open>
  C11. Ranges: every live task has an address and priorities within the ready queue, a suspended task
  has a positive count of suspensions, the running task is alive, and the idle task is always ready
  at the lowest priority, so there is always a task to run.
\<close>

theorem state_in_range:
  assumes "reachable k"
  shows "(\<forall>t. live_task t k \<longrightarrow> t \<noteq> NULL \<and> prio (tasks k t) < RHINO_CONFIG_PRI_MAX \<and>
      b_prio (tasks k t) < RHINO_CONFIG_PRI_MAX \<and> prio (tasks k t) \<le> b_prio (tasks k t)) \<and>
    (\<forall>t. suspended (task_state (tasks k t)) \<longrightarrow> suspend_count (tasks k t) \<noteq> 0) \<and>
    live_task (g_active_task k) k \<and> task_state (tasks k g_idle_task) = K_RDY \<and>
    prio (tasks k g_idle_task) = RHINO_IDLE_PRI"
proof -
  note inv = reachable_kinv [OF assms]
  note w = winvD [OF kinvD(1) [OF inv]] and c = core_okD [OF kinvD(5) [OF inv]]
  have "prio (tasks k t) \<le> b_prio (tasks k t)" if "t \<in> live k" for t
    using w(2) that eff_pri_le_b_prio [of k t] by (simp add: pi_ok_def)
  then show ?thesis
    using c(6,8,9,11) w(4) kinvD(4) [OF inv] idle_prio [OF inv] by (auto simp: susp_ok_def sched_ok_def rdy_def)
qed

theorem state_in_range_witness:
  "prio (tasks contended 10) < RHINO_CONFIG_PRI_MAX \<and> prio (tasks contended 2) \<le> b_prio (tasks contended 2) \<and>
   live_task (g_active_task contended) contended \<and> task_state (tasks contended g_idle_task) = K_RDY"
  using state_in_range [OF contended_reachable] by (simp add: contended_facts konst live_task_def del: live_task_iff)

text \<open>
  C9. The priority loop of \<^verbatim>\<open>task_pri_change\<close> returns with success, whether it raises the owner of a
  mutex for a new waiting task or installs a new base priority, also when tasks wait for each
  other in a circle.
\<close>

theorem pri_loop_returns:
  assumes "reachable k" and "live_task t k" and "t \<noteq> g_idle_task"
  shows "(\<forall>d < prio (tasks k t). \<exists>k'. pri_loop t d k = Some (RHINO_SUCCESS, k')) \<and>
    (\<forall>pri < RHINO_CONFIG_PRI_MAX. \<exists>k'. pri_loop t (mutex_pri_limit t pri k)
      (upd_task t (\<lambda>x. x\<lparr>b_prio := pri\<rparr>) k) = Some (RHINO_SUCCESS, k'))"
proof (intro conjI allI impI)
  note inv = kinvD(1) [OF reachable_kinv [OF assms(1)]]
  have t: "t \<in> live k" using assms(2) by simp
  have some: "\<exists>k'. pri_loop t d k0 = Some (RHINO_SUCCESS, k')"
    if "task_pri_change t d k0 = (RHINO_SUCCESS, k')" "pri_frame k0 k'" "\<not> g_fault k0" for d k0 k'
    using that by (cases "pri_loop t d k0") (auto simp: task_pri_change_def pri_frame_def)
  show "\<exists>k'. pri_loop t d k = Some (RHINO_SUCCESS, k')" if "d < prio (tasks k t)" for d
    using task_pri_change_raise [OF winvD(1) [OF inv] t assms(3) winvD(2) [OF inv] that] some winvD(5) [OF inv] by blast
  fix pri assume "pri < RHINO_CONFIG_PRI_MAX"
  note b = base_pri_core [OF inv t assms(3) this]
  let ?k = "upd_task t (\<lambda>x. x\<lparr>b_prio := pri\<rparr>) k"
  have nf: "\<not> g_fault ?k" using winvD(5) [OF inv] core_okD(11) [OF winvD(1) [OF inv] t] by simp
  have "t \<in> live ?k" using t b(8) by simp
  from task_pri_change_ok [OF b(1) this assms(3) b(2)]
  show "\<exists>k'. pri_loop t (mutex_pri_limit t pri k) ?k = Some (RHINO_SUCCESS, k')"
    unfolding b(3) using some nf by blast
qed

theorem pri_loop_returns_witness:
  "(\<exists>k'. pri_loop 2 20 contended = Some (RHINO_SUCCESS, k')) \<and>
   (\<exists>k'. pri_loop 2 (mutex_pri_limit 2 50 contended) (upd_task 2 (\<lambda>x. x\<lparr>b_prio := 50\<rparr>) contended) = Some (RHINO_SUCCESS, k'))"
proof -
  have "live_task 2 contended" "(2::nat) \<noteq> g_idle_task" "(20::nat) < prio (tasks contended 2)" "(50::nat) < RHINO_CONFIG_PRI_MAX"
    by (simp_all add: contended_facts live_task_def g_idle_task_def konst del: live_task_iff)
  then show ?thesis using pri_loop_returns [OF contended_reachable, of 2] by blast
qed

end
